(* ===== verification/Ckit_Prelude.thy ===== *)
theory Ckit_Prelude
  imports Main "HOL-Library.Word" "HOL-Library.Monad_Syntax" "HOL-Library.Multiset"
begin

text \<open>
  Shared vocabulary of the development: the machine types of the C sources, a typed view of
  memory with faulting loads and stores, arrays of possibly uninitialised cells, and the
  generic lemmas the components use.

  A C fragment that may touch memory is a function into \<open>'a option\<close>. The value \<open>None\<close>
  stands for an execution the C standard gives no meaning to: the dereference of a null or
  dangling pointer, an array access outside the allocated block, the use of an indeterminate
  value, the overflow of a signed integer. Sequencing is the option monad (\<open>do { ... }\<close>).
\<close>

section \<open>Types\<close>

text \<open>\<open>unsigned char\<close>, \<open>unsigned int\<close>, \<open>unsigned long\<close> / \<open>size_t\<close> (LP64).\<close>

type_synonym u8 = "8 word"
type_synonym u32 = "32 word"
type_synonym u64 = "64 word"

text \<open>\<open>int\<close> and \<open>long\<close> / \<open>time_t\<close> where their width matters: words that are read by \<open>sint\<close>.\<close>

type_synonym s32 = "32 word"
type_synonym s64 = "64 word"

text \<open>Addresses of objects; the null pointer is address zero.\<close>

type_synonym addr = nat

abbreviation (input) NULL :: addr where
  "NULL \<equiv> 0"

text \<open>The objects of one type, by address.\<close>

type_synonym 'a mem = "addr \<rightharpoonup> 'a"

text \<open>An allocated block of cells, \<open>None\<close> for a cell never written.\<close>

type_synonym 'a arr = "'a option list"

section \<open>Loads and stores\<close>

definition load :: "'a mem \<Rightarrow> addr \<rightharpoonup> 'a" where
  "load m p = (if p = NULL then None else m p)"

definition store :: "'a mem \<Rightarrow> addr \<Rightarrow> 'a \<Rightarrow> 'a mem option" where
  "store m p v = (if load m p = None then None else Some (m(p \<mapsto> v)))"

definition aread :: "'a arr \<Rightarrow> nat \<rightharpoonup> 'a" where
  "aread xs i = (if i < length xs then xs ! i else None)"

definition awrite :: "'a arr \<Rightarrow> nat \<Rightarrow> 'a \<Rightarrow> 'a arr option" where
  "awrite xs i v = (if i < length xs then Some (xs[i := Some v]) else None)"

text \<open>A \<^verbatim>\<open>for\<close> loop over a list of index values, stopping at the first fault.\<close>

fun for_each :: "('a \<Rightarrow> 's \<Rightarrow> 's option) \<Rightarrow> 'a list \<Rightarrow> 's \<Rightarrow> 's option" where
  "for_each f [] s = Some s"
| "for_each f (x # xs) s = do { s' \<leftarrow> f x s; for_each f xs s' }"

section \<open>Signed arithmetic\<close>

text \<open>The value of a signed expression, if its type holds the exact result; otherwise the C program has no meaning.\<close>

definition fit :: "int \<Rightarrow> 'w :: len word option" where
  "fit x = (if - (2 ^ (LENGTH('w) - 1)) \<le> x \<and> x < 2 ^ (LENGTH('w) - 1) then Some (word_of_int x) else None)"

text \<open>The values of \<open>int\<close> and of \<open>long\<close>.\<close>

definition in_int :: "int \<Rightarrow> bool" where
  "in_int x \<longleftrightarrow> -2147483648 \<le> x \<and> x < 2147483648"

definition in_long :: "int \<Rightarrow> bool" where
  "in_long x \<longleftrightarrow> -9223372036854775808 \<le> x \<and> x < 9223372036854775808"

section \<open>Automation\<close>

named_theorems mem_simps \<open>loads after stores\<close>
named_theorems arr_simps \<open>array reads and writes\<close>

lemma load_NULL [simp]: "load m NULL = None"
  by (simp add: load_def)

lemma load_upd [mem_simps]:
  "load (m(p \<mapsto> v)) q = (if q = p \<and> p \<noteq> NULL then Some v else load m q)"
  by (auto simp: load_def)

lemma load_SomeD: "load m p = Some v \<Longrightarrow> p \<noteq> NULL \<and> m p = Some v"
  by (auto simp: load_def split: if_splits)

lemma store_Some [mem_simps]: "load m p = Some v \<Longrightarrow> store m p w = Some (m(p \<mapsto> w))"
  by (simp add: store_def)

lemma store_None [mem_simps]: "load m p = None \<Longrightarrow> store m p w = None"
  by (simp add: store_def)

lemma store_eq_SomeD: "store m p w = Some m' \<Longrightarrow> m' = m(p \<mapsto> w) \<and> load m p \<noteq> None"
  by (auto simp: store_def split: if_splits)

lemma aread_upd [arr_simps]:
  "aread (xs[i := v]) j = (if i = j \<and> i < length xs then v else aread xs j)"
  by (auto simp: aread_def nth_list_update)

lemma awrite_Some [arr_simps]: "i < length xs \<Longrightarrow> awrite xs i v = Some (xs[i := Some v])"
  by (simp add: awrite_def)

lemma awrite_None [arr_simps]: "length xs \<le> i \<Longrightarrow> awrite xs i v = None"
  by (simp add: awrite_def)

text \<open>
  Weak congruence for the option bind: the simplifier evaluates the first computation before
  it looks at the continuation, which keeps the unfolding of recursive definitions finite on
  concrete arguments.
\<close>

lemma option_bind_weak_cong: "m = m' \<Longrightarrow> Option.bind m f = Option.bind m' f"
  by simp

lemma bind_Some_iff: "Option.bind m f = Some y \<longleftrightarrow> (\<exists>x. m = Some x \<and> f x = Some y)"
  by (cases m) auto

lemma bind_for_each_Nil [simp]: "Option.bind m (for_each f []) = m"
  by (cases m) auto

lemma for_each_append: "for_each f (xs @ ys) s = Option.bind (for_each f xs s) (for_each f ys)"
  by (induction xs arbitrary: s) (auto split: Option.bind_splits)

text \<open>A loop invariant carried through a loop that never faults.\<close>

lemma for_each_inv:
  assumes "P [] s"
    and step: "\<And>ys y zs s. xs = ys @ y # zs \<Longrightarrow> P ys s \<Longrightarrow> \<exists>s'. f y s = Some s' \<and> P (ys @ [y]) s'"
  shows "\<exists>s'. for_each f xs s = Some s' \<and> P xs s'"
proof -
  have "\<exists>s'. for_each f ys s = Some s' \<and> P ys s'" if "xs = ys @ zs" for ys zs
    using that
  proof (induction ys arbitrary: zs rule: rev_induct)
    case Nil
    then show ?case using assms(1) by simp
  next
    case (snoc y ys)
    then obtain s1 where "for_each f ys s = Some s1" "P ys s1" by fastforce
    moreover have "\<exists>s'. f y s1 = Some s' \<and> P (ys @ [y]) s'"
      using snoc.prems \<open>P ys s1\<close> by (intro step) auto
    ultimately show ?case by (auto simp: for_each_append)
  qed
  then show ?thesis by auto
qed

section \<open>Numbers\<close>

lemma mixed_radix_unique:
  assumes "(a :: int) * r + b = a' * r + b'" "0 \<le> b" "b < r" "0 \<le> b'" "b' < r"
  shows "a = a' \<and> b = b'"
proof -
  have "b = (a * r + b) mod r" "b' = (a' * r + b') mod r"
    using assms(2-) by auto
  then have "b = b'"
    using assms(1) by metis
  then show ?thesis
    using assms by auto
qed

section \<open>Words\<close>

lemma unat_plus1_32: "unat (w :: u32) + 1 < 2 ^ 32 \<Longrightarrow> unat (w + 1) = unat w + 1"
  by (simp add: unat_word_ariths)

lemma unat_minus1_32: "0 < unat (w :: u32) \<Longrightarrow> unat (w - 1) = unat w - 1"
  by (metis One_nat_def unat_gt_0 unat_minus_one)

lemma unat_bound_32 [simp]: "unat (w :: u32) < 4294967296"
  using unsigned_less [of w] by simp

lemma unat_bound_64 [simp]: "unat (w :: u64) < 18446744073709551616"
  using unsigned_less [of w] by simp

lemma fit_32: "(fit x :: s32 option) = (if in_int x then Some (word_of_int x) else None)"
  by (simp add: fit_def in_int_def)

lemma fit_64: "(fit x :: s64 option) = (if in_long x then Some (word_of_int x) else None)"
  by (simp add: fit_def in_long_def)

lemma sint_fits:
  assumes "- (2 ^ (LENGTH('w :: len) - 1)) \<le> x" "x < 2 ^ (LENGTH('w) - 1)"
  shows "sint (word_of_int x :: 'w word) = x"
  using assms by (simp add: sint_sbintrunc' signed_take_bit_int_eq_self)

lemma sint_32: "in_int x \<Longrightarrow> sint (word_of_int x :: s32) = x"
  by (rule sint_fits) (simp_all add: in_int_def)

lemma sint_64: "in_long x \<Longrightarrow> sint (word_of_int x :: s64) = x"
  by (rule sint_fits) (simp_all add: in_long_def)

lemma in_int_sint [simp]: "in_int (sint (w :: s32))"
  using sint_ge [of w] sint_lt [of w] by (simp add: in_int_def)

lemma in_long_sint [simp]: "in_long (sint (w :: s64))"
  using sint_ge [of w] sint_lt [of w] by (simp add: in_long_def)

lemma sint_inj: "sint (v :: 'w :: len word) = sint w \<longleftrightarrow> v = w"
  by (auto intro: signed_word_eqI)

lemma fit_long: "in_long x \<Longrightarrow> \<exists>w :: s64. fit x = Some w \<and> sint w = x"
  by (simp add: fit_64 sint_64)

lemma fit_int: "in_int x \<Longrightarrow> \<exists>w :: s32. fit x = Some w \<and> sint w = x" "\<not> in_int x \<Longrightarrow> (fit x :: s32 option) = None"
  by (simp_all add: fit_32 sint_32)

lemma fit_sint [simp]: "fit (sint w) = Some (w :: s32)"
  by (simp add: fit_32)

text \<open>A counter that only grows overflows exactly if its final value does not fit.\<close>

lemma fit_add:
  assumes "-2147483648 \<le> x" "0 \<le> y"
  shows "do { m :: s32 \<leftarrow> fit x; fit (sint m + y) } = (fit (x + y) :: s32 option)"
proof (cases "in_int x")
  case True
  then show ?thesis by (simp add: fit_32 sint_32)
next
  case False
  then have "\<not> in_int (x + y)" using assms by (auto simp: in_int_def)
  with False show ?thesis by (simp add: fit_32)
qed

lemmas fit_simps = fit_32 fit_64 sint_32 sint_64

lemma sint_small:
  fixes w :: "'a :: len word"
  assumes "unat w < 2 ^ (LENGTH('a) - 1)"
  shows "sint w = int (unat w)"
proof -
  have "uint w = int (unat w)"
    by simp
  then have "uint w < 2 ^ (LENGTH('a) - 1)" "0 \<le> uint w"
    using assms by (simp_all only: of_nat_less_numeral_power_cancel_iff of_nat_0_le_iff)
  moreover have "- (2 ^ (LENGTH('a) - 1)) \<le> (0 :: int)"
    by simp
  ultimately have "signed_take_bit (LENGTH('a) - 1) (uint w) = uint w"
    by (intro signed_take_bit_int_eq_self) linarith+
  then show ?thesis
    by (simp add: sint_uint)
qed

end
