(* ===== verification/Ckit_Hash.thy ===== *)
theory Ckit_Hash
  imports Ckit_Prelude
begin

text \<open>
  \<^verbatim>\<open>include/ckit/hash.h\<close>: the sdbm hash of a byte array and of a string, on 64-bit \<^verbatim>\<open>unsigned long\<close>.
  Memory is the list of bytes that may be read from the pointer on; reading further is \<open>None\<close>.
  \<^verbatim>\<open>char\<close> is signed on the platforms the library is built for, so a byte of a string is sign
  extended before it is added.
\<close>

section \<open>Definitions\<close>

definition partial_byte_hash :: "u64 \<Rightarrow> u64 \<Rightarrow> u64" where
  "partial_byte_hash c hash = c + push_bit 6 hash + push_bit 16 hash - hash"

fun byte_array_hash_loop :: "u8 list \<Rightarrow> nat \<Rightarrow> u64 \<Rightarrow> u64 option" where
  "byte_array_hash_loop ptr 0 hash = Some hash"
| "byte_array_hash_loop [] (Suc len) hash = None"
| "byte_array_hash_loop (c # ptr) (Suc len) hash = byte_array_hash_loop ptr len (partial_byte_hash (ucast c) hash)"

definition byte_array_hash :: "u8 list \<Rightarrow> u64 \<Rightarrow> u64 option" where
  "byte_array_hash bytes len = byte_array_hash_loop bytes (unat len) 0"

fun string_hash_loop :: "u8 list \<Rightarrow> u64 \<Rightarrow> u64 option" where
  "string_hash_loop [] hash = None"
| "string_hash_loop (c # str) hash =
     (if c = 0 then Some hash else string_hash_loop str (partial_byte_hash (scast c) hash))"

definition string_hash :: "u8 list \<Rightarrow> u64 option" where
  "string_hash str = string_hash_loop str 0"

subsection \<open>Specification\<close>

text \<open>The polynomial in 65599 over the bytes, most significant first.\<close>

definition sdbm :: "u64 list \<Rightarrow> u64" where
  "sdbm cs = (\<Sum>i < length cs. cs ! i * 65599 ^ (length cs - 1 - i))"

section \<open>Lemmas\<close>

lemma partial_byte_hash_eq: "partial_byte_hash c hash = c + 65599 * hash"
proof -
  have "push_bit 6 hash = 64 * hash" "push_bit 16 hash = 65536 * hash"
    by (simp_all add: push_bit_eq_mult)
  moreover have "(64 :: u64) * hash + 65536 * hash - hash = 65599 * hash"
    by (simp add: algebra_simps)
  ultimately show ?thesis
    by (simp add: partial_byte_hash_def algebra_simps)
qed

lemma sdbm_snoc: "sdbm (cs @ [c]) = c + 65599 * sdbm cs"
proof -
  have "(\<Sum>i < length cs. (cs @ [c]) ! i * 65599 ^ (length cs - i)) = (\<Sum>i < length cs. 65599 * (cs ! i * 65599 ^ (length cs - 1 - i)))"
  proof (rule sum.cong [OF refl])
    fix i assume "i \<in> {..<length cs}"
    then have "i < length cs" "length cs - i = Suc (length cs - 1 - i)" by auto
    then show "(cs @ [c]) ! i * 65599 ^ (length cs - i) = 65599 * (cs ! i * 65599 ^ (length cs - 1 - i))"
      by (simp add: nth_append ac_simps)
  qed
  then show ?thesis
    by (simp add: sdbm_def nth_append sum_distrib_left)
qed

lemma sdbm_foldl: "sdbm cs = foldl (\<lambda>h c. partial_byte_hash c h) 0 cs"
proof (induction cs rule: rev_induct)
  case Nil
  show ?case by (simp add: sdbm_def)
next
  case (snoc c cs)
  then show ?case by (simp add: sdbm_snoc partial_byte_hash_eq)
qed

lemma byte_array_hash_loop_ok:
  "n \<le> length bs \<Longrightarrow>
     byte_array_hash_loop bs n h = Some (foldl (\<lambda>h c. partial_byte_hash c h) h (map ucast (take n bs)))"
  by (induction bs n h rule: byte_array_hash_loop.induct) auto

lemma string_hash_loop_ok:
  "0 \<notin> set cs \<Longrightarrow> string_hash_loop (cs @ 0 # rest) h = Some (foldl (\<lambda>h c. partial_byte_hash c h) h (map scast cs))"
  by (induction cs arbitrary: h) auto

lemma string_hash_loop_unterminated: "0 \<notin> set cs \<Longrightarrow> string_hash_loop cs h = None"
  by (induction cs arbitrary: h) auto

lemma scast_ascii:
  assumes "unat (c :: u8) < 128"
  shows "(scast c :: u64) = ucast c"
proof -
  have "sint c = int (unat c)" using assms by (intro sint_small) simp
  also have "\<dots> = uint c" by simp
  finally show ?thesis by (simp only: scast_eq ucast_eq)
qed

section \<open>Properties\<close>

text \<open>
  C37: \<open>byte_array_hash\<close> of \<open>n\<close> readable bytes is the polynomial \<open>c\<^sub>0 \<cdot> 65599\<^sup>n\<^sup>-\<^sup>1 + ... + c\<^sub>n\<^sub>-\<^sub>1\<close> modulo
  \<open>2\<^sup>6\<^sup>4\<close>: the shifts and the subtraction are a multiplication by 65599. It reads exactly \<open>n\<close> bytes.
\<close>

theorem byte_array_hash_polynomial:
  assumes "unat n \<le> length bs"
  shows "byte_array_hash bs n = Some (sdbm (map ucast (take (unat n) bs)))"
  using assms by (simp add: byte_array_hash_def byte_array_hash_loop_ok sdbm_foldl)

text \<open>
  \<open>string_hash\<close> of a terminated string ends and stops at the terminator. It is the polynomial over the
  sign-extended characters, so it equals \<open>byte_array_hash\<close> of the same bytes if they are all ASCII.
\<close>

theorem string_hash_terminates:
  assumes "0 \<notin> set cs" "length cs < 2 ^ 64"
  shows "string_hash (cs @ 0 # rest) = Some (sdbm (map scast cs))
     \<and> ((\<forall>c \<in> set cs. unat c < 128) \<longrightarrow> string_hash (cs @ 0 # rest) = byte_array_hash (cs @ 0 # rest) (of_nat (length cs)))"
proof -
  have "unat (of_nat (length cs) :: u64) = length cs"
    using assms(2) by (simp add: unat_of_nat)
  then have b: "byte_array_hash (cs @ 0 # rest) (of_nat (length cs)) = Some (sdbm (map ucast cs))"
    by (simp add: byte_array_hash_def byte_array_hash_loop_ok sdbm_foldl)
  have s: "string_hash (cs @ 0 # rest) = Some (sdbm (map scast cs))"
    using assms(1) by (simp add: string_hash_def string_hash_loop_ok sdbm_foldl)
  have "map scast cs = (map ucast cs :: u64 list)" if "\<forall>c \<in> set cs. unat c < 128"
    using that scast_ascii by (intro map_cong) auto
  with b s show ?thesis by metis
qed

section \<open>Witnesses\<close>

theorem byte_array_hash_polynomial_witness:
  "byte_array_hash [97, 98, 99] 2 = Some (97 * 65599 + 98)"
  using byte_array_hash_polynomial [of 2 "[97, 98, 99]"] by (simp add: sdbm_foldl partial_byte_hash_eq)

theorem string_hash_terminates_witness:
  "string_hash [97, 98, 0] = byte_array_hash [97, 98, 0] 2"
  using conjunct2 [OF string_hash_terminates [of "[97, 98]" "[]"]] by simp

end
