(* ===== verification/Ckit_Heap.thy ===== *)
theory Ckit_Heap
  imports Ckit_Prelude
begin

text \<open>
  \<^verbatim>\<open>src/heap.c\<close> and \<^verbatim>\<open>include/ckit/heap.h\<close>: an array-based binary heap of pointers to items. An
  item is embedded at the start of a larger object, so the items are an extensible record and
  the comparison callback sees the whole object. The array cells are \<open>None\<close> until written;
  a heap whose \<^verbatim>\<open>malloc\<close> failed has an array without cells.

  The theory follows the code on machine words and memory, then relates it to two functions on
  lists, \<open>sift_down\<close> and \<open>sift_up\<close>, whose order properties are proved in the locale \<open>weak_order\<close>.
  \<^verbatim>\<open>heap_heapify\<close> moves the smaller item up, \<^verbatim>\<open>heap_insert\<close> moves the larger item up: the
  properties say what each of them keeps, and what the mismatch breaks.
\<close>

section \<open>Definitions\<close>

record heapitem =
  hi_index :: u32
  hi_active :: u8

record 'i heap =
  hp_max_size :: u32
  hp_size :: u32
  hp_cmp :: "'i \<Rightarrow> 'i \<Rightarrow> bool"
  hp_map :: "addr arr"

type_synonym 'x imem = "'x heapitem_scheme mem"
type_synonym 'x iheap = "'x heapitem_scheme heap"

definition HEAP_DEFAULT_SIZE :: u32 where
  "HEAP_DEFAULT_SIZE = 200"

definition HEAP_DEFAULT_INCREASE_SIZE :: u32 where
  "HEAP_DEFAULT_INCREASE_SIZE = 100"

text \<open>\<open>ok\<close> says whether \<^verbatim>\<open>malloc\<close> succeeds.\<close>

definition heap_init :: "bool \<Rightarrow> u32 \<Rightarrow> ('i \<Rightarrow> 'i \<Rightarrow> bool) \<Rightarrow> int \<times> 'i heap" where
  "heap_init ok max_size cmp =
     (let n = (if max_size = 0 then HEAP_DEFAULT_SIZE else max_size);
          h = \<lparr>hp_max_size = n, hp_size = 0, hp_cmp = cmp,
               hp_map = (if ok then replicate (unat n) None else [])\<rparr>
      in if ok then (0, h) else (-1, h))"

definition heap_fini :: "'i heap \<Rightarrow> 'i heap" where
  "heap_fini h = h\<lparr>hp_map := []\<rparr>"

definition heap_empty :: "'i heap \<Rightarrow> bool" where
  "heap_empty h \<longleftrightarrow> hp_size h = 0"

definition heap_full :: "'i heap \<Rightarrow> bool" where
  "heap_full h \<longleftrightarrow> hp_size h \<ge> hp_max_size h"

definition heap_front :: "'i heap \<Rightarrow> addr option" where
  "heap_front h = aread (hp_map h) 0"

definition heap_size :: "'i heap \<Rightarrow> u32" where
  "heap_size h = hp_size h"

text \<open>\<open>h->cmp(h->map[i], h->map[j])\<close> and \<open>p->index = i\<close>.\<close>

definition cmp_at :: "'x iheap \<Rightarrow> 'x imem \<Rightarrow> u32 \<Rightarrow> u32 \<Rightarrow> bool option" where
  "cmp_at h st i j = do {
     p \<leftarrow> aread (hp_map h) (unat i);
     q \<leftarrow> aread (hp_map h) (unat j);
     a \<leftarrow> load st p;
     b \<leftarrow> load st q;
     Some (hp_cmp h a b)
   }"

definition set_index :: "'x imem \<Rightarrow> addr \<Rightarrow> u32 \<Rightarrow> 'x imem option" where
  "set_index st p i = do { v \<leftarrow> load st p; store st p (v\<lparr>hi_index := i\<rparr>) }"

definition set_active :: "'x imem \<Rightarrow> addr \<Rightarrow> u8 \<Rightarrow> 'x imem option" where
  "set_active st p b = do { v \<leftarrow> load st p; store st p (v\<lparr>hi_active := b\<rparr>) }"

text \<open>\<open>c\<close> if it is in the heap and its item compares below the one at \<open>s\<close>, else \<open>s\<close>.\<close>

definition pick :: "'x iheap \<Rightarrow> 'x imem \<Rightarrow> u32 \<Rightarrow> u32 \<Rightarrow> u32 option" where
  "pick h st c s = (if c < hp_size h then do { b \<leftarrow> cmp_at h st c s; Some (if b then c else s) } else Some s)"

text \<open>
  The index arithmetic wraps at 32 bits, so the recursion is not obviously finite; \<open>None\<close> is
  also the result of a recursion that does not end.
\<close>

partial_function (option) heap_heapify ::
  "'x iheap \<Rightarrow> 'x imem \<Rightarrow> u32 \<Rightarrow> ('x iheap \<times> 'x imem) option" where
  "heap_heapify h st i = do {
     let l = 2 * i + 1;
     let r = l + 1;
     smallest \<leftarrow> pick h st l i;
     smallest \<leftarrow> pick h st r smallest;
     if smallest = i then Some (h, st)
     else do {
       tmp \<leftarrow> aread (hp_map h) (unat smallest);
       p \<leftarrow> aread (hp_map h) (unat i);
       mp \<leftarrow> awrite (hp_map h) (unat smallest) p;
       st \<leftarrow> set_index st p smallest;
       mp \<leftarrow> awrite mp (unat i) tmp;
       st \<leftarrow> set_index st tmp i;
       heap_heapify (h\<lparr>hp_map := mp\<rparr>) st smallest
     }
   }"

text \<open>
  The new block has \<open>hp_max_size h + inc\<close> cells (the sum wraps); copying more entries than it
  holds writes outside it.
\<close>

definition heap_increase_size :: "bool \<Rightarrow> 'i heap \<Rightarrow> u32 \<Rightarrow> (int \<times> 'i heap) option" where
  "heap_increase_size ok h inc =
     (let n = hp_max_size h + inc in
      if \<not> ok then Some (-1, h)
      else if unat (hp_size h) \<le> unat n \<and> unat (hp_size h) \<le> length (hp_map h) then
        Some (0, h\<lparr>hp_map := take (unat (hp_size h)) (hp_map h)
                       @ replicate (unat n - unat (hp_size h)) None,
                   hp_max_size := n\<rparr>)
      else None)"

function heap_insert_loop ::
  "('x heapitem_scheme \<Rightarrow> 'x heapitem_scheme \<Rightarrow> bool) \<Rightarrow> addr \<Rightarrow> addr arr \<Rightarrow> 'x imem \<Rightarrow> u32
     \<Rightarrow> (addr arr \<times> 'x imem \<times> u32) option" where
  "heap_insert_loop cmp item mp st i =
     (if i > 0 then do {
        let parent = (i - 1) div 2;
        p \<leftarrow> aread mp (unat parent);
        a \<leftarrow> load st p;
        b \<leftarrow> load st item;
        if cmp a b then do {
          mp \<leftarrow> awrite mp (unat i) p;
          st \<leftarrow> set_index st p i;
          heap_insert_loop cmp item mp st parent
        } else Some (mp, st, i)
      } else Some (mp, st, i))"
  by pat_completeness auto

lemma unat_parent: "0 < i \<Longrightarrow> unat ((i - 1 :: u32) div 2) = (unat i - 1) div 2"
  by (simp add: unat_div unat_minus1_32 word_less_nat_alt)

termination heap_insert_loop
  by (relation "measure (\<lambda>(cmp, item, mp, st, i). unat i)")
    (auto simp: unat_parent word_less_nat_alt)

declare heap_insert_loop.simps [simp del]

definition heap_insert :: "bool \<Rightarrow> 'x iheap \<Rightarrow> 'x imem \<Rightarrow> addr \<Rightarrow> (int \<times> 'x iheap \<times> 'x imem) option" where
  "heap_insert ok h st item = do {
     (ret, h) \<leftarrow> (if heap_full h then heap_increase_size ok h HEAP_DEFAULT_INCREASE_SIZE
                  else Some (0, h));
     if ret \<noteq> 0 then Some (-1, h, st)
     else do {
       (mp, st, i) \<leftarrow> heap_insert_loop (hp_cmp h) item (hp_map h) st (hp_size h);
       mp \<leftarrow> awrite mp (unat i) item;
       st \<leftarrow> set_index st item i;
       st \<leftarrow> set_active st item 1;
       Some (0, h\<lparr>hp_map := mp, hp_size := hp_size h + 1\<rparr>, st)
     }
   }"

text \<open>The first component of the result is the returned pointer.\<close>

definition heap_remove :: "'x iheap \<Rightarrow> 'x imem \<Rightarrow> u32 \<Rightarrow> (addr \<times> 'x iheap \<times> 'x imem) option" where
  "heap_remove h st idx =
     (if idx \<ge> hp_size h then Some (NULL, h, st)
      else do {
        item \<leftarrow> aread (hp_map h) (unat idx);
        let h = h\<lparr>hp_size := hp_size h - 1\<rparr>;
        moved \<leftarrow> aread (hp_map h) (unat (hp_size h));
        mp \<leftarrow> awrite (hp_map h) (unat idx) moved;
        (h, st) \<leftarrow> heap_heapify (h\<lparr>hp_map := mp\<rparr>) st idx;
        st \<leftarrow> set_index st item 0;
        st \<leftarrow> set_active st item 0;
        Some (item, h, st)
      })"

definition heap_remove_first :: "'x iheap \<Rightarrow> 'x imem \<Rightarrow> (addr \<times> 'x iheap \<times> 'x imem) option" where
  "heap_remove_first h st = heap_remove h st 0"

subsection \<open>Specification\<close>

definition par :: "nat \<Rightarrow> nat" where
  "par i = (i - 1) div 2"

definition min_heap :: "('a \<Rightarrow> 'a \<Rightarrow> bool) \<Rightarrow> 'a list \<Rightarrow> bool" where
  "min_heap lt xs \<longleftrightarrow> (\<forall>i < length xs. 0 < i \<longrightarrow> \<not> lt (xs ! i) (xs ! par i))"

text \<open>A heap below \<open>i\<close>: the item at \<open>i\<close> may be too large for its place.\<close>

definition min_heap_below :: "('a \<Rightarrow> 'a \<Rightarrow> bool) \<Rightarrow> 'a list \<Rightarrow> nat \<Rightarrow> bool" where
  "min_heap_below lt xs i \<longleftrightarrow>
     (\<forall>j < length xs. 0 < j \<longrightarrow> par j \<noteq> i \<longrightarrow> \<not> lt (xs ! j) (xs ! par j))
     \<and> (0 < i \<longrightarrow> (\<forall>j < length xs. 0 < j \<longrightarrow> par j = i \<longrightarrow> \<not> lt (xs ! j) (xs ! par i)))"

text \<open>A heap with a hole at \<open>i\<close> that \<open>x\<close> may fill or move up from.\<close>

definition min_heap_hole :: "('a \<Rightarrow> 'a \<Rightarrow> bool) \<Rightarrow> 'a list \<Rightarrow> nat \<Rightarrow> 'a \<Rightarrow> bool" where
  "min_heap_hole lt xs i x \<longleftrightarrow>
     (\<forall>j < length xs. 0 < j \<longrightarrow> j \<noteq> i \<longrightarrow> par j \<noteq> i \<longrightarrow> \<not> lt (xs ! j) (xs ! par j))
     \<and> (\<forall>j < length xs. 0 < j \<longrightarrow> par j = i \<longrightarrow> \<not> lt (xs ! j) x)
     \<and> (0 < i \<longrightarrow> (\<forall>j < length xs. 0 < j \<longrightarrow> par j = i \<longrightarrow> \<not> lt (xs ! j) (xs ! par i)))"

definition smallest_of :: "('a \<Rightarrow> 'a \<Rightarrow> bool) \<Rightarrow> 'a list \<Rightarrow> nat \<Rightarrow> nat" where
  "smallest_of lt xs i =
     (let l = 2 * i + 1; r = l + 1;
          s = (if l < length xs \<and> lt (xs ! l) (xs ! i) then l else i)
      in if r < length xs \<and> lt (xs ! r) (xs ! s) then r else s)"

lemma smallest_of_cases:
  "smallest_of lt xs i = i \<or> (smallest_of lt xs i < length xs \<and>
     (smallest_of lt xs i = 2 * i + 1 \<or> smallest_of lt xs i = 2 * i + 2))"
  by (auto simp: smallest_of_def Let_def)

function sift_down :: "('a \<Rightarrow> 'a \<Rightarrow> bool) \<Rightarrow> 'a list \<Rightarrow> nat \<Rightarrow> 'a list" where
  "sift_down lt xs i =
     (let s = smallest_of lt xs i
      in if s = i then xs else sift_down lt (xs[s := xs ! i, i := xs ! s]) s)"
  by pat_completeness auto

termination sift_down
proof (relation "measure (\<lambda>(lt, xs, i). length xs - i)", goal_cases)
  case (2 lt xs i s)
  then show ?case using smallest_of_cases [of lt xs i] by auto
qed simp

function sift_up :: "('a \<Rightarrow> 'a \<Rightarrow> bool) \<Rightarrow> 'a list \<Rightarrow> nat \<Rightarrow> 'a \<Rightarrow> 'a list" where
  "sift_up lt xs i x =
     (if 0 < i \<and> lt x (xs ! par i) then sift_up lt (xs[i := xs ! par i]) (par i) x else xs[i := x])"
  by pat_completeness auto

termination sift_up
  by (relation "measure (\<lambda>(lt, xs, i, x). i)") (auto simp: par_def)

declare sift_down.simps [simp del] sift_up.simps [simp del]

text \<open>The pointers in use, and when a heap with its items is well formed.\<close>

definition heap_ptrs :: "'i heap \<Rightarrow> addr list" where
  "heap_ptrs h = map the (take (unat (hp_size h)) (hp_map h))"

definition heap_wf :: "'x iheap \<Rightarrow> 'x imem \<Rightarrow> bool" where
  "heap_wf h st \<longleftrightarrow>
     length (hp_map h) = unat (hp_max_size h) \<and> unat (hp_size h) \<le> unat (hp_max_size h)
     \<and> (\<forall>c \<in> set (take (unat (hp_size h)) (hp_map h)). c \<noteq> None)
     \<and> (\<forall>p \<in> set (heap_ptrs h). load st p \<noteq> None) \<and> distinct (heap_ptrs h)"

text \<open>The order on pointers that a comparison callback induces.\<close>

definition ptr_lt :: "('v \<Rightarrow> 'v \<Rightarrow> bool) \<Rightarrow> 'v mem \<Rightarrow> addr \<Rightarrow> addr \<Rightarrow> bool" where
  "ptr_lt cmp st p q \<longleftrightarrow> cmp (the (load st p)) (the (load st q))"

text \<open>Every item knows its position.\<close>

definition indexed :: "'x iheap \<Rightarrow> 'x imem \<Rightarrow> nat \<Rightarrow> bool" where
  "indexed h st i \<longleftrightarrow> unat (hi_index (the (load st (heap_ptrs h ! i)))) = i"

section \<open>Heap order on lists\<close>

lemma par_less: "0 < i \<Longrightarrow> par i < i"
  by (auto simp: par_def)

lemma par_eq_iff: "0 < j \<Longrightarrow> par j = i \<longleftrightarrow> j = 2 * i + 1 \<or> j = 2 * i + 2"
  by (auto simp: par_def)

locale weak_order =
  fixes lt :: "'a \<Rightarrow> 'a \<Rightarrow> bool"
  assumes asym: "lt a b \<Longrightarrow> \<not> lt b a"
    and neg_trans: "\<not> lt a b \<Longrightarrow> \<not> lt b c \<Longrightarrow> \<not> lt a c"
begin

lemma lt_trans: "lt a b \<Longrightarrow> lt b c \<Longrightarrow> lt a c"
  using asym neg_trans by blast

lemma irrefl: "\<not> lt a a"
  using asym by blast

lemma min_heap_root:
  assumes "min_heap lt xs" "i < length xs"
  shows "\<not> lt (xs ! i) (xs ! 0)"
  using assms(2)
proof (induction i rule: less_induct)
  case (less i)
  show ?case
  proof (cases "i = 0")
    case True
    then show ?thesis by (simp add: irrefl)
  next
    case False
    then have "\<not> lt (xs ! par i) (xs ! 0)"
      using less par_less [of i] by auto
    moreover have "\<not> lt (xs ! i) (xs ! par i)"
      using assms(1) less.prems False by (simp add: min_heap_def)
    ultimately show ?thesis using neg_trans by blast
  qed
qed

lemma smallest_of_least:
  assumes "0 < j" "par j = i" "j < length xs"
  shows "\<not> lt (xs ! j) (xs ! smallest_of lt xs i)"
proof -
  consider "j = 2 * i + 1" | "j = 2 * i + 2"
    using assms par_eq_iff by blast
  then show ?thesis
  proof cases
    case 1
    then show ?thesis
      using assms(3) irrefl [of "xs ! j"] asym [of _ "xs ! j"] lt_trans [of "xs ! j" "xs ! (2 * i + 2)" "xs ! i"]
      by (auto simp: smallest_of_def Let_def)
  next
    case 2
    then show ?thesis
      using assms(3) irrefl [of "xs ! j"] by (auto simp: smallest_of_def Let_def)
  qed
qed

lemma smallest_of_lt: "smallest_of lt xs i \<noteq> i \<Longrightarrow> lt (xs ! smallest_of lt xs i) (xs ! i)"
  by (auto simp: smallest_of_def Let_def split: if_splits intro: lt_trans)

lemma sift_down_step:
  assumes b: "min_heap_below lt xs i" and i: "i < length xs"
    and s: "s = smallest_of lt xs i" "s \<noteq> i"
  shows "min_heap_below lt (xs[s := xs ! i, i := xs ! s]) s"
proof -
  let ?ys = "xs[s := xs ! i, i := xs ! s]"
  have sl: "s < length xs" "s = 2 * i + 1 \<or> s = 2 * i + 2" "par s = i" "0 < s"
    using smallest_of_cases [of lt xs i] s by (auto simp: par_def)
  have ys: "?ys ! j = (if j = i then xs ! s else if j = s then xs ! i else xs ! j)" if "j < length xs" for j
    using that i sl s(2) by (auto simp: nth_list_update)
  have "\<not> lt (?ys ! j) (?ys ! par j)" if j: "j < length xs" "0 < j" "par j \<noteq> s" for j
  proof -
    have pj: "par j < length xs" "par j \<noteq> j"
      using j par_less [of j] by auto
    consider "j = s" | "j = i" | "j \<noteq> s" "j \<noteq> i" "par j = i" | "j \<noteq> s" "j \<noteq> i" "par j \<noteq> i"
      by blast
    then show ?thesis
    proof cases
      case 1
      then show ?thesis
        using ys [OF j(1)] ys [OF pj(1)] sl s smallest_of_lt asym by auto
    next
      case 2
      then have "\<not> lt (xs ! s) (xs ! par i)"
        using b sl j by (auto simp: min_heap_below_def)
      then show ?thesis
        using 2 ys [OF j(1)] ys [OF pj(1)] pj j by auto
    next
      case 3
      then show ?thesis
        using ys [OF j(1)] ys [OF pj(1)] j s smallest_of_least by auto
    next
      case 4
      then show ?thesis
        using ys [OF j(1)] ys [OF pj(1)] j b by (auto simp: min_heap_below_def)
    qed
  qed
  moreover have "\<not> lt (?ys ! j) (?ys ! par s)" if j: "j < length xs" "0 < j" "par j = s" for j
  proof -
    have "j \<noteq> s" "j \<noteq> i" "\<not> lt (xs ! j) (xs ! par j)"
      using j par_less [of j] b s sl by (auto simp: min_heap_below_def par_def)
    then show ?thesis
      using ys [OF j(1)] ys [OF i] j sl by auto
  qed
  ultimately show ?thesis
    by (simp add: min_heap_below_def)
qed

lemma sift_down_min_heap:
  "min_heap_below lt xs i \<Longrightarrow> i < length xs \<Longrightarrow> min_heap lt (sift_down lt xs i)"
proof (induction "length xs - i" arbitrary: xs i rule: less_induct)
  case less
  define s where "s = smallest_of lt xs i"
  show ?case
  proof (cases "s = i")
    case True
    then have "\<not> lt (xs ! j) (xs ! par j)" if "j < length xs" "0 < j" for j
      using smallest_of_least [of j i xs] less.prems that
      by (cases "par j = i") (auto simp: s_def min_heap_below_def)
    with True show ?thesis
      by (subst sift_down.simps) (simp add: min_heap_def flip: s_def)
  next
    case False
    let ?ys = "xs[s := xs ! i, i := xs ! s]"
    have "i < s" "s < length xs"
      using smallest_of_cases [of lt xs i] False by (auto simp: s_def)
    then have "min_heap lt (sift_down lt ?ys s)"
      using sift_down_step [OF less.prems s_def False] by (intro less.hyps) auto
    with False show ?thesis
      by (subst sift_down.simps) (simp flip: s_def)
  qed
qed

lemma sift_up_min_heap:
  "min_heap_hole lt xs i x \<Longrightarrow> i < length xs \<Longrightarrow> min_heap lt (sift_up lt xs i x)"
proof (induction i arbitrary: xs rule: less_induct)
  case (less i)
  show ?case
  proof (cases "0 < i \<and> lt x (xs ! par i)")
    case False
    then show ?thesis
      using less.prems by (subst sift_up.simps)
        (auto simp: min_heap_def min_heap_hole_def nth_list_update dest: par_less)
  next
    case True
    define k where "k = par i"
    have k: "k < i" "0 < i" "lt x (xs ! k)"
      using True par_less by (auto simp: k_def)
    let ?ys = "xs[i := xs ! k]"
    have ys: "?ys ! j = (if j = i then xs ! k else xs ! j)" if "j < length xs" for j
      using that less.prems by (auto simp: nth_list_update)
    have old: "\<not> lt (xs ! j) (xs ! par j)" if "j < length xs" "0 < j" "j \<noteq> i" "par j \<noteq> i" for j
      using less.prems(1) that by (auto simp: min_heap_hole_def)
    have kid: "\<not> lt (xs ! j) (xs ! k)" if "j < length xs" "0 < j" "par j = i" for j
      using less.prems(1) that k by (auto simp: min_heap_hole_def k_def)
    have sib: "\<not> lt (?ys ! j) (xs ! k)" if "j < length xs" "0 < j" "par j = k" for j
      using old [of j] ys [OF that(1)] that k irrefl by auto
    have "min_heap_hole lt ?ys k x"
      unfolding min_heap_hole_def
    proof (intro conjI allI impI)
      fix j assume j: "j < length ?ys" "0 < j" "j \<noteq> k" "par j \<noteq> k"
      then have "par j < length xs" "j \<noteq> i" "par j < j"
        using par_less [of j] by (auto simp: k_def)
      then show "\<not> lt (?ys ! j) (?ys ! par j)"
        using j ys [of j] ys [of "par j"] old [of j] kid [of j] by auto
    next
      fix j assume j: "j < length ?ys" "0 < j" "par j = k"
      then show "\<not> lt (?ys ! j) x"
        using sib [of j] k lt_trans by auto
    next
      fix j assume j: "0 < k" "j < length ?ys" "0 < j" "par j = k"
      then have "\<not> lt (xs ! k) (xs ! par k)"
        using old [of k] k less.prems par_less [of k] by auto
      then show "\<not> lt (?ys ! j) (?ys ! par k)"
        using sib [of j] j ys [of "par k"] par_less [of k] k less.prems neg_trans by auto
    qed
    then have "min_heap lt (sift_up lt ?ys k x)"
      using less.IH [of k ?ys] k less.prems by auto
    then show ?thesis
      using True by (subst sift_up.simps) (simp add: k_def)
  qed
qed

end

lemma length_sift_down [simp]: "length (sift_down lt xs i) = length xs"
  by (induction lt xs i rule: sift_down.induct) (subst sift_down.simps, simp add: Let_def)

lemma mset_sift_down: "i < length xs \<Longrightarrow> mset (sift_down lt xs i) = mset xs"
proof (induction lt xs i rule: sift_down.induct)
  case (1 lt xs i)
  show ?case
  proof (cases "smallest_of lt xs i = i")
    case True
    then show ?thesis by (subst sift_down.simps) simp
  next
    case False
    then have "smallest_of lt xs i < length xs"
      using smallest_of_cases [of lt xs i] by auto
    with 1 False show ?thesis
      by (subst sift_down.simps) (simp add: Let_def mset_swap)
  qed
qed

lemma length_sift_up [simp]: "length (sift_up lt xs i x) = length xs"
  by (induction lt xs i x rule: sift_up.induct) (subst sift_up.simps, simp)

lemma mset_sift_up: "i < length xs \<Longrightarrow> mset (sift_up lt xs i x) = mset (xs[i := x])"
proof (induction lt xs i x rule: sift_up.induct)
  case (1 lt xs i x)
  show ?case
  proof (cases "0 < i \<and> lt x (xs ! par i)")
    case True
    then have "par i < i" by (simp add: par_less)
    with 1 True have "mset (sift_up lt xs i x) = mset (xs[i := xs ! par i, par i := x])"
      by (subst sift_up.simps) simp
    also have "xs[i := xs ! par i, par i := x] = (xs[i := x])[i := xs[i := x] ! par i, par i := xs[i := x] ! i]"
      using \<open>par i < i\<close> 1(2) by simp
    also have "mset \<dots> = mset (xs[i := x])"
      using \<open>par i < i\<close> 1(2) by (intro mset_swap) auto
    finally show ?thesis .
  next
    case False
    then show ?thesis by (subst sift_up.simps) auto
  qed
qed

lemma distinct_mset_eq: "mset xs = mset ys \<Longrightarrow> distinct xs \<longleftrightarrow> distinct ys"
  by (metis mset_eq_imp_distinct_iff)

section \<open>Items and pointers\<close>

definition upd_index :: "'x imem \<Rightarrow> addr \<Rightarrow> u32 \<Rightarrow> 'x imem" where
  "upd_index st p i = st(p \<mapsto> (the (st p))\<lparr>hi_index := i\<rparr>)"

definition upd_active :: "'x imem \<Rightarrow> addr \<Rightarrow> u8 \<Rightarrow> 'x imem" where
  "upd_active st p b = st(p \<mapsto> (the (st p))\<lparr>hi_active := b\<rparr>)"

lemma set_index_Some [simp]: "load st p = Some v \<Longrightarrow> set_index st p i = Some (upd_index st p i)"
  by (auto simp: set_index_def upd_index_def mem_simps dest: load_SomeD)

lemma set_active_Some [simp]: "load st p = Some v \<Longrightarrow> set_active st p b = Some (upd_active st p b)"
  by (auto simp: set_active_def upd_active_def mem_simps dest: load_SomeD)

lemma load_upd_index [simp]:
  "load (upd_index st p i) q = (if q = p then (if p = NULL then None else Some ((the (st p))\<lparr>hi_index := i\<rparr>)) else load st q)"
  by (auto simp: upd_index_def load_def)

lemma upd_index_apply: "upd_index st p i q = (if q = p then Some ((the (st p))\<lparr>hi_index := i\<rparr>) else st q)"
  by (simp add: upd_index_def)

lemma load_upd_active [simp]:
  "load (upd_active st p b) q = (if q = p then (if p = NULL then None else Some ((the (st p))\<lparr>hi_active := b\<rparr>)) else load st q)"
  by (auto simp: upd_active_def load_def)

text \<open>Two item memories that differ in positions only.\<close>

definition same_items :: "'x imem \<Rightarrow> 'x imem \<Rightarrow> bool" where
  "same_items st st' \<longleftrightarrow>
     (\<forall>p. map_option (hi_index_update (\<lambda>_. 0)) (load st' p) = map_option (hi_index_update (\<lambda>_. 0)) (load st p))"

definition index_blind :: "('x heapitem_scheme \<Rightarrow> 'x heapitem_scheme \<Rightarrow> bool) \<Rightarrow> bool" where
  "index_blind cmp \<longleftrightarrow>
     (\<forall>a b i x. cmp (a\<lparr>hi_index := i, hi_active := x\<rparr>) b = cmp a b \<and> cmp a (b\<lparr>hi_index := i, hi_active := x\<rparr>) = cmp a b)"

definition same_keys :: "'x imem \<Rightarrow> 'x imem \<Rightarrow> bool" where
  "same_keys st st' \<longleftrightarrow>
     (\<forall>p. map_option (\<lambda>v. v\<lparr>hi_index := 0, hi_active := 0\<rparr>) (load st' p)
        = map_option (\<lambda>v. v\<lparr>hi_index := 0, hi_active := 0\<rparr>) (load st p))"

lemma same_items_refl [simp]: "same_items st st"
  by (simp add: same_items_def)

lemma same_items_trans: "same_items a b \<Longrightarrow> same_items b c \<Longrightarrow> same_items a c"
  by (simp add: same_items_def)

lemma same_items_active:
  assumes "same_items st st'"
  shows "map_option hi_active (load st' p) = map_option hi_active (load st p)"
proof -
  have "map_option hi_active (map_option (hi_index_update (\<lambda>_. 0)) (load st' p))
      = map_option hi_active (map_option (hi_index_update (\<lambda>_. 0)) (load st p))"
    using assms by (simp add: same_items_def)
  then show ?thesis by (simp add: option.map_comp comp_def)
qed

lemma same_items_upd: "load st p = Some v \<Longrightarrow> same_items st (upd_index st p i)"
  by (auto simp: same_items_def dest!: load_SomeD)

lemma same_items_None: "same_items st st' \<Longrightarrow> load st' p = None \<longleftrightarrow> load st p = None"
  unfolding same_items_def by (metis map_option_is_None)

lemma same_keys_trans: "same_keys a b \<Longrightarrow> same_keys b c \<Longrightarrow> same_keys a c"
  by (simp add: same_keys_def)

lemma same_keys_None: "same_keys st st' \<Longrightarrow> load st' p = None \<longleftrightarrow> load st p = None"
  unfolding same_keys_def by (metis map_option_is_None)

lemma same_items_keys:
  assumes "same_items st st'"
  shows "same_keys st st'"
  unfolding same_keys_def
proof
  fix p
  have "map_option (hi_active_update (\<lambda>_. 0)) (map_option (hi_index_update (\<lambda>_. 0)) (load st' p))
      = map_option (hi_active_update (\<lambda>_. 0)) (map_option (hi_index_update (\<lambda>_. 0)) (load st p))"
    using assms by (simp add: same_items_def)
  then show "map_option (\<lambda>v. v\<lparr>hi_index := 0, hi_active := 0\<rparr>) (load st' p)
        = map_option (\<lambda>v. v\<lparr>hi_index := 0, hi_active := 0\<rparr>) (load st p)"
    by (simp add: option.map_comp comp_def)
qed

lemma same_keys_upd: "load st p = Some v \<Longrightarrow> same_keys st (upd_active (upd_index st p i) p b)"
  by (auto simp: same_keys_def upd_index_apply dest!: load_SomeD)

lemma ptr_lt_same_keys:
  assumes "index_blind cmp" "same_keys st st'"
  shows "ptr_lt cmp st' = ptr_lt cmp st"
proof -
  have key: "(load st' p = None \<and> load st p = None) \<or>
      (\<exists>v w. load st' p = Some v \<and> load st p = Some w
         \<and> v\<lparr>hi_index := 0, hi_active := 0\<rparr> = w\<lparr>hi_index := 0, hi_active := 0\<rparr>)" for p
    using assms(2) unfolding same_keys_def
    by (cases "load st' p"; cases "load st p") (auto dest: spec [of _ p])
  have "cmp (the (load st' p)) b = cmp (the (load st p)) b" "cmp b (the (load st' p)) = cmp b (the (load st p))" for p b
    using key [of p] assms(1) unfolding index_blind_def by (metis option.sel)+
  then show ?thesis
    by (simp add: ptr_lt_def fun_eq_iff)
qed

lemma ptr_lt_same_items: "index_blind cmp \<Longrightarrow> same_items st st' \<Longrightarrow> ptr_lt cmp st' = ptr_lt cmp st"
  by (intro ptr_lt_same_keys same_items_keys)

lemma length_heap_ptrs: "heap_wf h st \<Longrightarrow> length (heap_ptrs h) = unat (hp_size h)"
  by (simp add: heap_wf_def heap_ptrs_def)

lemma last_heap_ptrs:
  assumes "heap_wf h st" "0 < unat (hp_size h)"
  shows "last (heap_ptrs h) = heap_ptrs h ! (unat (hp_size h) - 1)"
proof -
  have "heap_ptrs h \<noteq> []" using assms length_heap_ptrs [OF assms(1)] by auto
  then show ?thesis using length_heap_ptrs [OF assms(1)] by (simp add: last_conv_nth)
qed

lemma heap_wf_aread:
  assumes "heap_wf h st" "i < unat (hp_size h)"
  shows "aread (hp_map h) i = Some (heap_ptrs h ! i)"
proof -
  have "take (unat (hp_size h)) (hp_map h) ! i \<in> set (take (unat (hp_size h)) (hp_map h))"
    using assms by (intro nth_mem) (simp add: heap_wf_def)
  then show ?thesis
    using assms by (auto simp: heap_wf_def heap_ptrs_def aread_def)
qed

lemma heap_wf_load:
  assumes "heap_wf h st" "i < unat (hp_size h)"
  shows "\<exists>v. load st (heap_ptrs h ! i) = Some v"
proof -
  have "heap_ptrs h ! i \<in> set (heap_ptrs h)"
    using assms length_heap_ptrs by (metis nth_mem)
  then show ?thesis using assms(1) by (auto simp: heap_wf_def)
qed

lemma heap_ptrs_upd:
  "heap_ptrs (h\<lparr>hp_map := mp[i := Some p]\<rparr>) = (heap_ptrs (h\<lparr>hp_map := mp\<rparr>))[i := p]"
  by (simp add: heap_ptrs_def take_update_swap map_update)

lemma heap_wf_length: "heap_wf h st \<Longrightarrow> i < unat (hp_size h) \<Longrightarrow> i < length (hp_map h)"
  by (simp add: heap_wf_def)

lemma cmp_at_wf:
  assumes "heap_wf h st" "unat i < unat (hp_size h)" "unat j < unat (hp_size h)"
  shows "cmp_at h st i j = Some (ptr_lt (hp_cmp h) st (heap_ptrs h ! unat i) (heap_ptrs h ! unat j))"
  using heap_wf_aread [OF assms(1,2)] heap_wf_aread [OF assms(1,3)]
    heap_wf_load [OF assms(1,2)] heap_wf_load [OF assms(1,3)]
  by (auto simp: cmp_at_def ptr_lt_def)

section \<open>heap\_heapify refines sift\_down\<close>

lemma child_words:
  assumes "unat (i :: u32) + 1 < 2 ^ 31"
  shows "unat (2 * i + 1) = 2 * unat i + 1" "unat (2 * i + 1 + 1) = 2 * unat i + 2"
  using assms by (simp_all add: unat_word_ariths)

text \<open>The memory after the exchange of the items at positions \<open>i\<close> and \<open>s\<close>.\<close>

definition swapped :: "'x iheap \<Rightarrow> u32 \<Rightarrow> u32 \<Rightarrow> 'x iheap" where
  "swapped h i s = h\<lparr>hp_map := (hp_map h)[unat s := Some (heap_ptrs h ! unat i), unat i := Some (heap_ptrs h ! unat s)]\<rparr>"

definition reindexed :: "'x iheap \<Rightarrow> 'x imem \<Rightarrow> u32 \<Rightarrow> u32 \<Rightarrow> 'x imem" where
  "reindexed h st i s = upd_index (upd_index st (heap_ptrs h ! unat i) s) (heap_ptrs h ! unat s) i"

lemma heapify_step:
  assumes wf: "heap_wf h st" and i: "unat i < unat (hp_size h)" and small: "unat (hp_size h) < 2 ^ 31"
  defines "s \<equiv> smallest_of (ptr_lt (hp_cmp h) st) (heap_ptrs h) (unat i)"
  shows "heap_heapify h st i =
     (if s = unat i then Some (h, st)
      else heap_heapify (swapped h i (of_nat s)) (reindexed h st i (of_nat s)) (of_nat s))"
proof -
  have ch: "unat (2 * i + 1) = 2 * unat i + 1" "unat (2 * i + 1 + 1) = 2 * unat i + 2"
    using child_words [of i] i small by auto
  note len = length_heap_ptrs [OF wf]
  have s: "s = unat i \<or> (s < unat (hp_size h) \<and> (s = 2 * unat i + 1 \<or> s = 2 * unat i + 2))"
    using smallest_of_cases [of _ "heap_ptrs h" "unat i"] len by (auto simp: s_def)
  define lt where "lt = ptr_lt (hp_cmp h) st"
  define w1 where "w1 = (if 2 * unat i + 1 < unat (hp_size h) \<and> lt (heap_ptrs h ! (2 * unat i + 1)) (heap_ptrs h ! unat i)
    then 2 * i + 1 else i)"
  have u1: "unat w1 < unat (hp_size h)"
    using i ch by (auto simp: w1_def)
  define w2 where "w2 = (if 2 * unat i + 2 < unat (hp_size h) \<and> lt (heap_ptrs h ! (2 * unat i + 2)) (heap_ptrs h ! unat w1)
    then 2 * i + 1 + 1 else w1)"
  have "s = unat w2"
    using ch len by (auto simp: s_def smallest_of_def Let_def w2_def w1_def lt_def)
  then have w2: "w2 = of_nat s" "w2 = i \<longleftrightarrow> s = unat i"
    by (auto simp: word_unat_eq_iff)
  have e1: "pick h st (2 * i + 1) i = Some w1"
    using cmp_at_wf [OF wf, of "2 * i + 1" i] i ch by (auto simp: pick_def w1_def lt_def word_less_nat_alt)
  have e2: "pick h st (2 * i + 1 + 1) w1 = Some w2"
    using cmp_at_wf [OF wf, of "2 * i + 1 + 1" w1] u1 ch by (auto simp: pick_def w2_def lt_def word_less_nat_alt)
  show ?thesis
  proof (cases "s = unat i")
    case True
    then show ?thesis
      using w2 by (subst heap_heapify.simps) (simp only: Let_def e1 e2 bind.bind_lunit, simp)
  next
    case False
    then have sl: "unat w2 < unat (hp_size h)" "unat w2 \<noteq> unat i"
      using s \<open>s = unat w2\<close> by auto
    obtain v w where vw: "load st (heap_ptrs h ! unat i) = Some v" "load st (heap_ptrs h ! unat w2) = Some w"
      using heap_wf_load [OF wf i] heap_wf_load [OF wf sl(1)] by blast
    have "heap_ptrs h ! unat w2 \<noteq> heap_ptrs h ! unat i"
      using wf sl i len by (auto simp: heap_wf_def nth_eq_iff_index_eq)
    then have "heap_heapify h st i = heap_heapify (swapped h i w2) (reindexed h st i w2) w2"
      using w2 False vw heap_wf_aread [OF wf i] heap_wf_aread [OF wf sl(1)]
        heap_wf_length [OF wf i] heap_wf_length [OF wf sl(1)]
      by (subst heap_heapify.simps)
        (simp only: Let_def e1 e2 bind.bind_lunit, simp add: arr_simps swapped_def reindexed_def)
    with False w2 show ?thesis by simp
  qed
qed

lemma heap_ptrs_swapped:
  "heap_ptrs (swapped h i s) = (heap_ptrs h)[unat s := heap_ptrs h ! unat i, unat i := heap_ptrs h ! unat s]"
  by (simp add: swapped_def heap_ptrs_upd)

text \<open>Well-formedness depends on the memory only through which items exist.\<close>

lemma heap_wf_same_items: "same_items st st' \<Longrightarrow> heap_wf h st' \<longleftrightarrow> heap_wf h st"
  by (simp add: heap_wf_def same_items_None)

lemma heap_wf_same_keys: "same_keys st st' \<Longrightarrow> heap_wf h st' \<longleftrightarrow> heap_wf h st"
  by (simp add: heap_wf_def same_keys_None)

lemma set_take_upd: "c \<in> set (take n (xs[i := v])) \<Longrightarrow> c = v \<or> c \<in> set (take n xs)"
  by (metis insertE set_update_subset_insert subsetD take_update_swap)

lemma swapped_wf:
  assumes wf: "heap_wf h st" and i: "unat i < unat (hp_size h)" and s: "unat s < unat (hp_size h)" "s \<noteq> i"
  shows "heap_wf (swapped h i s) (reindexed h st i s)" "same_items st (reindexed h st i s)"
    "\<And>p. p \<notin> set (heap_ptrs h) \<Longrightarrow> load (reindexed h st i s) p = load st p"
proof -
  note len = length_heap_ptrs [OF wf]
  obtain v w where vw: "load st (heap_ptrs h ! unat i) = Some v" "load st (heap_ptrs h ! unat s) = Some w"
    using heap_wf_load [OF wf i] heap_wf_load [OF wf s(1)] by blast
  have ne: "heap_ptrs h ! unat s \<noteq> heap_ptrs h ! unat i"
    using wf s i len by (auto simp: heap_wf_def nth_eq_iff_index_eq word_unat_eq_iff)
  show si: "same_items st (reindexed h st i s)"
    unfolding reindexed_def
    by (rule same_items_trans [OF same_items_upd [OF vw(1)] same_items_upd]) (use vw ne in auto)
  have ms: "mset (heap_ptrs (swapped h i s)) = mset (heap_ptrs h)"
    using i s len by (simp add: heap_ptrs_swapped mset_swap)
  have "heap_wf (swapped h i s) st"
    using wf ms mset_eq_setD [OF ms] distinct_mset_eq [OF ms]
    by (auto simp: heap_wf_def swapped_def dest!: set_take_upd)
  then show "heap_wf (swapped h i s) (reindexed h st i s)"
    using heap_wf_same_items [OF si] by blast
  show "load (reindexed h st i s) p = load st p" if "p \<notin> set (heap_ptrs h)" for p
    using that i s len by (auto simp: reindexed_def)
qed

lemma swapped_indexed:
  assumes wf: "heap_wf h st" and i: "unat i < unat (hp_size h)" and s: "unat s < unat (hp_size h)" "s \<noteq> i"
    and idx: "\<forall>j < unat (hp_size h). j \<noteq> unat i \<longrightarrow> indexed h st j" and j: "j < unat (hp_size h)"
  shows "indexed (swapped h i s) (reindexed h st i s) j"
proof -
  note len = length_heap_ptrs [OF wf]
  let ?P = "heap_ptrs h"
  have d: "distinct ?P" and nz: "?P ! unat i \<noteq> NULL" "?P ! unat s \<noteq> NULL"
    using wf heap_wf_load [OF wf i] heap_wf_load [OF wf s(1)] by (auto simp: heap_wf_def dest: load_SomeD)
  have ne: "unat s \<noteq> unat i" using s by (simp add: word_unat_eq_iff)
  have eq: "?P ! a = ?P ! b \<longleftrightarrow> a = b" if "a < unat (hp_size h)" "b < unat (hp_size h)" for a b
    using d len that by (simp add: nth_eq_iff_index_eq)
  consider "j = unat i" | "j = unat s" | "j \<noteq> unat i" "j \<noteq> unat s" by blast
  then show ?thesis
    using idx j i s ne eq nz len
    by cases (auto simp: indexed_def heap_ptrs_swapped reindexed_def nth_list_update)
qed

text \<open>
  On a well-formed heap of fewer than \<open>2\<^sup>3\<^sup>1\<close> items \<open>heap_heapify\<close> ends without a fault, and what
  it does to the pointers is \<open>sift_down\<close>. Positions stay right, except that nothing at all is
  written when the item at \<open>i\<close> stays where it is.
\<close>

definition heapify_post :: "'x iheap \<Rightarrow> 'x imem \<Rightarrow> nat \<Rightarrow> addr arr \<Rightarrow> 'x imem \<Rightarrow> bool" where
  "heapify_post h st i mp st' \<longleftrightarrow>
     heap_wf (h\<lparr>hp_map := mp\<rparr>) st'
     \<and> heap_ptrs (h\<lparr>hp_map := mp\<rparr>) = sift_down (ptr_lt (hp_cmp h) st) (heap_ptrs h) i
     \<and> same_items st st' \<and> (\<forall>p. p \<notin> set (heap_ptrs h) \<longrightarrow> load st' p = load st p)
     \<and> ((\<forall>j < unat (hp_size h). j \<noteq> i \<longrightarrow> indexed h st j) \<longrightarrow>
          (\<forall>j < unat (hp_size h). indexed (h\<lparr>hp_map := mp\<rparr>) st' j) \<or> (h\<lparr>hp_map := mp\<rparr>, st') = (h, st))"

lemma heapify_post_swap:
  assumes wf: "heap_wf h st" and i: "unat i < unat (hp_size h)" and b: "index_blind (hp_cmp h)"
    and s: "unat w = smallest_of (ptr_lt (hp_cmp h) st) (heap_ptrs h) (unat i)" "unat w < unat (hp_size h)" "w \<noteq> i"
    and post: "heapify_post (swapped h i w) (reindexed h st i w) (unat w) mp st'"
  shows "heapify_post h st (unat i) mp st'"
proof -
  let ?h = "swapped h i w" and ?st = "reindexed h st i w"
  have fld: "hp_size ?h = hp_size h" "hp_cmp ?h = hp_cmp h" "?h\<lparr>hp_map := mp\<rparr> = h\<lparr>hp_map := mp\<rparr>"
    by (simp_all add: swapped_def)
  note sw = swapped_wf [OF wf i s(2,3)]
  have lt: "ptr_lt (hp_cmp h) ?st = ptr_lt (hp_cmp h) st"
    using b sw(2) by (rule ptr_lt_same_items)
  have "unat w \<noteq> unat i"
    using s(3) by (simp add: word_unat_eq_iff)
  then have "sift_down (ptr_lt (hp_cmp h) st) (heap_ptrs h) (unat i)
      = sift_down (ptr_lt (hp_cmp h) st) (heap_ptrs ?h) (unat w)"
    by (subst sift_down.simps) (simp add: heap_ptrs_swapped Let_def flip: s(1))
  moreover have "set (heap_ptrs ?h) = set (heap_ptrs h)"
    using i s(2) length_heap_ptrs [OF wf] by (metis heap_ptrs_swapped mset_swap set_mset_mset)
  moreover have "same_items st st'"
    using same_items_trans [OF sw(2)] post by (simp add: heapify_post_def)
  moreover have "\<forall>j < unat (hp_size h). indexed (h\<lparr>hp_map := mp\<rparr>) st' j"
    if "\<forall>j < unat (hp_size h). j \<noteq> unat i \<longrightarrow> indexed h st j"
    using swapped_indexed [OF wf i s(2,3) that] post fld by (auto simp: heapify_post_def)
  ultimately show ?thesis
    using post sw(3) fld lt by (auto simp: heapify_post_def)
qed

lemma heapify_refines:
  assumes "heap_wf h st" "unat i < unat (hp_size h)" "unat (hp_size h) < 2 ^ 31" "index_blind (hp_cmp h)"
  shows "\<exists>mp st'. heap_heapify h st i = Some (h\<lparr>hp_map := mp\<rparr>, st') \<and> heapify_post h st (unat i) mp st'"
  using assms
proof (induction "unat (hp_size h) - unat i" arbitrary: h st i rule: less_induct)
  case less
  define s where "s = smallest_of (ptr_lt (hp_cmp h) st) (heap_ptrs h) (unat i)"
  note step = heapify_step [OF less.prems(1-3), folded s_def]
  show ?case
  proof (cases "s = unat i")
    case True
    then have "heapify_post h st (unat i) (hp_map h) st"
      using less.prems by (auto simp: heapify_post_def sift_down.simps simp flip: s_def)
    with True step show ?thesis
      by (auto intro!: exI [of _ "hp_map h"] exI [of _ st])
  next
    case False
    have s: "s < unat (hp_size h)" "unat i < s"
      using smallest_of_cases [of "ptr_lt (hp_cmp h) st" "heap_ptrs h" "unat i", folded s_def] False
        length_heap_ptrs [OF less.prems(1)] by auto
    define w where "w = (of_nat s :: u32)"
    have "s < 4294967296"
      using s(1) unat_bound_32 [of "hp_size h"] by linarith
    then have w: "unat w = s" "w \<noteq> i"
      using s by (auto simp: w_def unat_of_nat)
    let ?h = "swapped h i w" and ?st = "reindexed h st i w"
    have "\<exists>mp st'. heap_heapify ?h ?st w = Some (?h\<lparr>hp_map := mp\<rparr>, st') \<and> heapify_post ?h ?st (unat w) mp st'"
      using less.prems s w swapped_wf [OF less.prems(1,2), of w]
      by (intro less.hyps) (auto simp: swapped_def)
    then obtain mp st' where r: "heap_heapify ?h ?st w = Some (h\<lparr>hp_map := mp\<rparr>, st')"
        "heapify_post ?h ?st (unat w) mp st'"
      by (auto simp: swapped_def)
    then have "heapify_post h st (unat i) mp st'"
      using less.prems s w by (intro heapify_post_swap [OF less.prems(1,2,4) _ _ _ r(2)]) (auto simp: s_def)
    then show ?thesis
      using False step r(1) by (auto simp: w_def)
  qed
qed

section \<open>heap\_insert refines sift\_up\<close>

text \<open>
  During the insertion the array holds the pointers \<open>Q\<close>, except at the hole \<open>i\<close>.
\<close>

definition hole_inv :: "'x imem \<Rightarrow> addr arr \<Rightarrow> addr list \<Rightarrow> nat \<Rightarrow> addr \<Rightarrow> bool" where
  "hole_inv st mp Q i item \<longleftrightarrow>
     i < length Q \<and> length Q \<le> length mp \<and> load st item \<noteq> None
     \<and> (\<forall>j < length Q. j \<noteq> i \<longrightarrow> mp ! j = Some (Q ! j) \<and> Q ! j \<noteq> item \<and> load st (Q ! j) \<noteq> None)
     \<and> (\<forall>a < length Q. \<forall>b < length Q. a \<noteq> i \<longrightarrow> b \<noteq> i \<longrightarrow> a \<noteq> b \<longrightarrow> Q ! a \<noteq> Q ! b)"

definition insert_post ::
  "('x heapitem_scheme \<Rightarrow> 'x heapitem_scheme \<Rightarrow> bool) \<Rightarrow> 'x imem \<Rightarrow> addr arr \<Rightarrow> addr list \<Rightarrow> nat \<Rightarrow> addr
     \<Rightarrow> addr arr \<Rightarrow> 'x imem \<Rightarrow> u32 \<Rightarrow> bool" where
  "insert_post cmp st mp Q i item mp' st' k \<longleftrightarrow>
     (let R = sift_up (\<lambda>p q. ptr_lt cmp st q p) Q i item
      in hole_inv st' mp' R (unat k) item \<and> R ! unat k = item \<and> length mp' = length mp
         \<and> same_items st st' \<and> (\<forall>p. p \<notin> set Q - {item} \<longrightarrow> load st' p = load st p)
         \<and> ((\<forall>j < length Q. j \<noteq> i \<longrightarrow> unat (hi_index (the (load st (Q ! j)))) = j) \<longrightarrow>
            (\<forall>j < length Q. j \<noteq> unat k \<longrightarrow> unat (hi_index (the (load st' (R ! j)))) = j)))"

lemma hole_inv_stop:
  assumes "hole_inv st mp Q (unat i) item" "\<not> (0 < i \<and> ptr_lt cmp st (Q ! par (unat i)) item)"
  shows "insert_post cmp st mp Q (unat i) item mp st i"
proof -
  have "sift_up (\<lambda>p q. ptr_lt cmp st q p) Q (unat i) item = Q[unat i := item]"
    using assms(2) by (subst sift_up.simps) (auto simp: unat_gt_0 word_neq_0_conv)
  then show ?thesis
    using assms(1) by (auto simp: insert_post_def hole_inv_def Let_def nth_list_update)
qed

lemma hole_inv_move:
  assumes inv: "hole_inv st mp Q i item" and "0 < i" and w: "unat w = i" and bl: "index_blind cmp"
  defines "p \<equiv> Q ! par i"
  shows "aread mp (par i) = Some p" "\<exists>v. load st p = Some v" "i < length mp"
    "hole_inv (upd_index st p w) (mp[i := Some p]) (Q[i := p]) (par i) item"
    "same_items st (upd_index st p w)"
proof -
  have k: "par i < i" "par i < length Q"
    using par_less [OF \<open>0 < i\<close>] inv by (auto simp: hole_inv_def)
  then have "mp ! par i = Some p \<and> p \<noteq> item \<and> load st p \<noteq> None"
    using inv unfolding hole_inv_def p_def by (metis less_irrefl)
  then obtain v where v: "mp ! par i = Some p" "p \<noteq> item" "load st p = Some v"
    by auto
  show "aread mp (par i) = Some p" "\<exists>v. load st p = Some v" "i < length mp"
    using v k inv by (auto simp: aread_def hole_inv_def)
  show "same_items st (upd_index st p w)"
    by (rule same_items_upd [OF v(3)])
  have nz: "p \<noteq> NULL" using v(3) by (auto dest: load_SomeD)
  have dq: "Q ! a \<noteq> p" if "a < length Q" "a \<noteq> i" "a \<noteq> par i" for a
    using inv k that unfolding hole_inv_def p_def by auto
  show "hole_inv (upd_index st p w) (mp[i := Some p]) (Q[i := p]) (par i) item"
    using inv k v nz dq unfolding hole_inv_def by (auto simp: nth_list_update)
qed

lemma insert_post_move:
  assumes inv: "hole_inv st mp Q i item" and "0 < i" and w: "unat w = i" and bl: "index_blind cmp"
    and lt: "ptr_lt cmp st (Q ! par i) item"
  defines "p \<equiv> Q ! par i"
  assumes post: "insert_post cmp (upd_index st p w) (mp[i := Some p]) (Q[i := p]) (par i) item mp' st' k"
  shows "insert_post cmp st mp Q i item mp' st' k"
proof -
  note mv = hole_inv_move [OF inv \<open>0 < i\<close> w bl, folded p_def]
  have si: "ptr_lt cmp (upd_index st p w) = ptr_lt cmp st"
    using bl mv(5) by (rule ptr_lt_same_items)
  have su: "sift_up (\<lambda>p q. ptr_lt cmp st q p) (Q[i := p]) (par i) item = sift_up (\<lambda>p q. ptr_lt cmp st q p) Q i item"
    using lt \<open>0 < i\<close> by (subst (2) sift_up.simps) (simp add: p_def)
  obtain v where "load st p = Some v" using mv(2) by blast
  then have pk: "par i < i" "i < length Q" "p \<in> set Q" "p \<noteq> item" "p \<noteq> NULL"
    using par_less [OF \<open>0 < i\<close>] inv by (auto simp: hole_inv_def p_def dest: load_SomeD)
  have "load (upd_index st p w) x = load st x" if "x \<notin> set Q - {item}" for x
    using that pk by auto
  moreover have "set (Q[i := p]) - {item} \<subseteq> set Q - {item}"
    using pk set_update_subset_insert [of Q i p] by auto
  moreover have "unat (hi_index (the (load (upd_index st p w) (Q[i := p] ! j)))) = j"
    if "\<forall>j < length Q. j \<noteq> i \<longrightarrow> unat (hi_index (the (load st (Q ! j)))) = j" "j < length Q" "j \<noteq> par i" for j
  proof (cases "j = i")
    case True
    then show ?thesis using pk w by simp
  next
    case False
    then have "Q ! j \<noteq> p"
      using inv pk that by (auto simp: hole_inv_def p_def)
    then show ?thesis using that False by simp
  qed
  ultimately show ?thesis
    using post same_items_trans [OF mv(5)] unfolding insert_post_def si su Let_def
    by (auto 0 3)
qed

lemma heap_insert_loop_refines:
  assumes "hole_inv st mp Q (unat i) item" "index_blind cmp"
  shows "\<exists>mp' st' k. heap_insert_loop cmp item mp st i = Some (mp', st', k)
     \<and> insert_post cmp st mp Q (unat i) item mp' st' k"
  using assms
proof (induction "unat i" arbitrary: i st mp Q rule: less_induct)
  case less
  show ?case
  proof (cases "0 < i")
    case False
    then show ?thesis
      using hole_inv_stop [OF less.prems(1)] by (subst heap_insert_loop.simps) auto
  next
    case True
    then have ui: "0 < unat i" "unat ((i - 1) div 2) = par (unat i)"
      by (auto simp: unat_gt_0 word_neq_0_conv unat_parent par_def)
    note mv = hole_inv_move [OF less.prems(1) ui(1) refl less.prems(2)]
    define q where "q = Q ! par (unat i)"
    obtain v w where vw: "load st q = Some v" "load st item = Some w"
      using mv(2) less.prems(1) by (auto simp: q_def hole_inv_def)
    have c: "cmp v w \<longleftrightarrow> ptr_lt cmp st q item"
      using vw by (simp add: ptr_lt_def)
    show ?thesis
    proof (cases "cmp v w")
      case False
      then show ?thesis
        using True vw mv(1) ui c hole_inv_stop [OF less.prems(1), of cmp]
        by (subst heap_insert_loop.simps) (auto simp: q_def)
    next
      case cmp: True
      let ?st = "upd_index st q i" and ?mp = "mp[unat i := Some q]" and ?Q = "Q[unat i := q]"
      have "\<exists>mp' st' k. heap_insert_loop cmp item ?mp ?st ((i - 1) div 2) = Some (mp', st', k)
         \<and> insert_post cmp ?st ?mp ?Q (unat ((i - 1) div 2)) item mp' st' k"
        using mv(4) ui par_less [of "unat i"] less.prems(2) by (intro less.hyps) (auto simp: q_def)
      then obtain mp' st' k where r: "heap_insert_loop cmp item ?mp ?st ((i - 1) div 2) = Some (mp', st', k)"
          "insert_post cmp ?st ?mp ?Q (par (unat i)) item mp' st' k"
        using ui by auto
      have "heap_insert_loop cmp item mp st i = Some (mp', st', k)"
        using True vw mv(1,3) ui cmp r(1) by (subst heap_insert_loop.simps) (simp add: q_def arr_simps)
      moreover have "insert_post cmp st mp Q (unat i) item mp' st' k"
        using insert_post_move [OF less.prems(1) ui(1) refl less.prems(2)] r(2) cmp c by (simp add: q_def)
      ultimately show ?thesis by blast
    qed
  qed
qed

text \<open>The position that an item records is its position in the heap.\<close>

definition recorded :: "'x iheap \<Rightarrow> 'x imem \<Rightarrow> addr \<Rightarrow> bool" where
  "recorded h st p \<longleftrightarrow> (\<exists>v. load st p = Some v \<and> unat (hi_index v) < unat (hp_size h) \<and> heap_ptrs h ! unat (hi_index v) = p)"

text \<open>What a successful insertion gives. The new item records its position whatever the other items record.\<close>

definition inserted :: "'x iheap \<Rightarrow> 'x imem \<Rightarrow> addr \<Rightarrow> 'x iheap \<Rightarrow> 'x imem \<Rightarrow> bool" where
  "inserted h st item h' st' \<longleftrightarrow>
     heap_wf h' st' \<and> unat (hp_size h') = unat (hp_size h) + 1 \<and> hp_cmp h' = hp_cmp h
     \<and> heap_ptrs h' = sift_up (\<lambda>p q. ptr_lt (hp_cmp h) st q p) (heap_ptrs h @ [item]) (length (heap_ptrs h)) item
     \<and> same_keys st st' \<and> map_option hi_active (load st' item) = Some 1
     \<and> (\<forall>p. p \<noteq> item \<longrightarrow> map_option hi_active (load st' p) = map_option hi_active (load st p))
     \<and> (\<forall>p. p \<notin> set (heap_ptrs h') \<longrightarrow> load st' p = load st p)
     \<and> recorded h' st' item
     \<and> ((\<forall>j < unat (hp_size h). indexed h st j) \<longrightarrow> (\<forall>j < unat (hp_size h'). indexed h' st' j))"

lemma heap_wf_hole:
  assumes "heap_wf h st" "load st item \<noteq> None" "item \<notin> set (heap_ptrs h)" "unat (hp_size h) < unat (hp_max_size h)"
  shows "hole_inv st (hp_map h) (heap_ptrs h @ [item]) (unat (hp_size h)) item"
proof -
  note len = length_heap_ptrs [OF assms(1)]
  have "hp_map h ! j = Some (heap_ptrs h ! j) \<and> heap_ptrs h ! j \<noteq> item \<and> load st (heap_ptrs h ! j) \<noteq> None"
    if "j < unat (hp_size h)" for j
    using heap_wf_aread [OF assms(1) that] heap_wf_load [OF assms(1) that] heap_wf_length [OF assms(1) that]
      assms(3) that len by (auto simp: aread_def split: if_splits)
  then show ?thesis
    using assms len by (auto simp: hole_inv_def nth_append heap_wf_def nth_eq_iff_index_eq less_Suc_eq)
qed

lemma heap_insert_room:
  assumes wf: "heap_wf h st" and it: "load st item \<noteq> None" "item \<notin> set (heap_ptrs h)"
    and b: "index_blind (hp_cmp h)" and room: "\<not> heap_full h"
  shows "\<exists>h' st'. heap_insert ok h st item = Some (0, h', st') \<and> inserted h st item h' st'"
proof -
  define n where "n = unat (hp_size h)"
  have n: "n < unat (hp_max_size h)" "length (heap_ptrs h) = n"
    using room length_heap_ptrs [OF wf] by (auto simp: heap_full_def n_def word_less_nat_alt not_le)
  let ?Q = "heap_ptrs h @ [item]" and ?lt = "\<lambda>p q. ptr_lt (hp_cmp h) st q p"
  define R where "R = sift_up ?lt ?Q n item"
  from heap_insert_loop_refines [OF heap_wf_hole [OF wf it] b] n obtain mp st1 k where
    loop: "heap_insert_loop (hp_cmp h) item (hp_map h) st (hp_size h) = Some (mp, st1, k)"
    and post: "insert_post (hp_cmp h) st (hp_map h) ?Q n item mp st1 k"
    by (auto simp: n_def)
  have p: "hole_inv st1 mp R (unat k) item" "R ! unat k = item" "length mp = unat (hp_max_size h)"
      "same_items st st1" "\<forall>p. p \<notin> set (heap_ptrs h) \<longrightarrow> load st1 p = load st p"
    using post it wf by (auto simp: insert_post_def Let_def R_def heap_wf_def)
  have idx: "unat (hi_index (the (load st1 (R ! j)))) = j"
    if "\<forall>j < n. indexed h st j" "j < n + 1" "j \<noteq> unat k" for j
    using post n that by (auto simp: insert_post_def Let_def R_def indexed_def nth_append)
  have len: "length R = n + 1" "unat k < n + 1" "n + 1 \<le> length mp"
    using n p by (auto simp: R_def hole_inv_def)
  obtain v where v: "load st1 item = Some v" using p(1) by (auto simp: hole_inv_def)
  define h' where "h' = h\<lparr>hp_map := mp[unat k := Some item], hp_size := hp_size h + 1\<rparr>"
  define st' where "st' = upd_active (upd_index st1 item k) item 1"
  have run: "heap_insert ok h st item = Some (0, h', st')"
    using room loop len v by (auto simp: heap_insert_def arr_simps h'_def st'_def dest: load_SomeD)
  have "unat (hp_max_size h) < 2 ^ 32"
    by simp
  then have "n + 1 < 2 ^ 32"
    using n(1) by linarith
  then have sz: "unat (hp_size h') = n + 1"
    using unat_plus1_32 [of "hp_size h"] by (simp add: h'_def n_def)
  have cells: "take (n + 1) (hp_map h') = map Some R"
    using p(1,2) len by (auto simp: h'_def hole_inv_def list_eq_iff_nth_eq nth_list_update)
  then have ptrs: "heap_ptrs h' = R"
    by (simp add: heap_ptrs_def sz comp_def)
  have ms: "mset R = mset ?Q"
    using n(2) mset_sift_up [of n ?Q ?lt item] list_update_length [of "heap_ptrs h" item "[]" item]
    by (simp add: R_def)
  have ke: "same_keys st st'"
    unfolding st'_def using same_keys_trans [OF same_items_keys [OF p(4)] same_keys_upd [OF v]] .
  have "heap_wf h' st'"
    using wf it ptrs cells sz n len p(3) mset_eq_setD [OF ms] distinct_mset_eq [OF ms] same_keys_None [OF ke]
    by (auto simp: heap_wf_def h'_def)
  moreover have "indexed h' st' j" if "\<forall>j < n. indexed h st j" "j < n + 1" for j
    using idx [OF that] p(1,2) that len ptrs v
    by (cases "j = unat k") (auto simp: indexed_def st'_def hole_inv_def upd_index_apply dest: load_SomeD)
  moreover have "map_option hi_active (load st' q) = map_option hi_active (load st q)" if "q \<noteq> item" for q
    using p(4) that by (auto simp: st'_def same_items_active)
  moreover have "load st' q = load st q" if "q \<notin> set (heap_ptrs h')" for q
    using that p(5) ptrs mset_eq_setD [OF ms] by (auto simp: st'_def)
  moreover have "map_option hi_active (load st' item) = Some 1"
    using v by (auto simp: st'_def dest: load_SomeD)
  moreover have "recorded h' st' item"
    using v p(2) len ptrs sz by (auto simp: recorded_def st'_def upd_index_apply dest: load_SomeD)
  ultimately have "inserted h st item h' st'"
    using sz ke ptrs n unfolding inserted_def by (simp add: h'_def n_def R_def)
  with run show ?thesis by blast
qed

lemma heap_increase_ok:
  assumes wf: "heap_wf h st" and b: "unat (hp_max_size h) + unat inc < 2 ^ 32"
  shows "\<exists>h'. heap_increase_size True h inc = Some (0, h') \<and> heap_wf h' st \<and> heap_ptrs h' = heap_ptrs h
     \<and> hp_size h' = hp_size h \<and> hp_cmp h' = hp_cmp h \<and> unat (hp_max_size h') = unat (hp_max_size h) + unat inc"
proof -
  have n: "unat (hp_max_size h + inc) = unat (hp_max_size h) + unat inc"
    using b by (simp add: unat_word_ariths)
  define h' where "h' = h\<lparr>hp_map := take (unat (hp_size h)) (hp_map h)
      @ replicate (unat (hp_max_size h + inc) - unat (hp_size h)) None, hp_max_size := hp_max_size h + inc\<rparr>"
  have "heap_increase_size True h inc = Some (0, h')"
    using wf n by (auto simp: heap_increase_size_def Let_def heap_wf_def h'_def)
  moreover have "heap_ptrs h' = heap_ptrs h"
    using wf by (simp add: heap_ptrs_def h'_def heap_wf_def)
  moreover have "heap_wf h' st"
    using wf n by (auto simp: heap_wf_def h'_def heap_ptrs_def)
  ultimately show ?thesis
    using n by (simp add: h'_def)
qed

lemma heap_insert_ok:
  assumes wf: "heap_wf h st" and it: "load st item \<noteq> None" "item \<notin> set (heap_ptrs h)"
    and b: "index_blind (hp_cmp h)" and bd: "unat (hp_max_size h) + 100 < 2 ^ 32" and ok: "heap_full h \<longrightarrow> ok"
  shows "\<exists>h' st'. heap_insert ok h st item = Some (0, h', st') \<and> inserted h st item h' st'"
proof (cases "heap_full h")
  case False
  then show ?thesis using heap_insert_room [OF wf it b] by blast
next
  case True
  then have full: "unat (hp_size h) = unat (hp_max_size h)" and ok: "ok"
    using wf ok by (auto simp: heap_full_def heap_wf_def word_le_nat_alt)
  obtain h1 where h1: "heap_increase_size True h HEAP_DEFAULT_INCREASE_SIZE = Some (0, h1)" "heap_wf h1 st"
      "heap_ptrs h1 = heap_ptrs h" "hp_size h1 = hp_size h" "hp_cmp h1 = hp_cmp h"
      "unat (hp_max_size h1) = unat (hp_max_size h) + 100"
    using heap_increase_ok [OF wf, of HEAP_DEFAULT_INCREASE_SIZE] bd
    by (auto simp: HEAP_DEFAULT_INCREASE_SIZE_def)
  then have nf: "\<not> heap_full h1"
    using full by (auto simp: heap_full_def word_le_nat_alt)
  obtain h' st' where "heap_insert ok h1 st item = Some (0, h', st')" "inserted h1 st item h' st'"
    using heap_insert_room [OF h1(2)] it b h1 nf by metis
  moreover have "heap_insert ok h st item = heap_insert ok h1 st item"
    using True h1 ok nf by (simp add: heap_insert_def)
  moreover have "inserted h1 st item h' st' = inserted h st item h' st'"
    using h1 by (simp add: inserted_def indexed_def)
  ultimately show ?thesis by auto
qed

section \<open>heap\_remove\<close>

lemma heapify_beyond:
  assumes "hp_size h \<le> i" "unat i + 1 < 2 ^ 31"
  shows "heap_heapify h st i = Some (h, st)"
proof -
  have "\<not> 2 * i + 1 < hp_size h" "\<not> 2 * i + 1 + 1 < hp_size h"
    using assms child_words [OF assms(2)] by (auto simp: word_le_nat_alt word_less_nat_alt)
  then show ?thesis
    by (subst heap_heapify.simps) (simp only: Let_def pick_def if_False bind.bind_lunit, simp)
qed

lemma sift_down_beyond: "length xs \<le> i \<Longrightarrow> sift_down lt xs i = xs"
  by (subst sift_down.simps) (auto simp: smallest_of_def Let_def)

text \<open>The pointers once the last one has taken the place of the one at \<open>i\<close>.\<close>

definition refill :: "'a list \<Rightarrow> nat \<Rightarrow> 'a list" where
  "refill xs i = butlast (xs[i := last xs])"

lemma length_refill [simp]: "length (refill xs i) = length xs - 1"
  by (simp add: refill_def)

lemma mset_refill:
  assumes "i < length xs"
  shows "mset (refill xs i) = mset xs - {#xs ! i#}"
proof -
  have "xs \<noteq> []" using assms by auto
  then have "xs[i := last xs] \<noteq> []" "last (xs[i := last xs]) = last xs"
    using assms by (auto simp: last_conv_nth nth_list_update)
  then have "xs[i := last xs] = refill xs i @ [last xs]"
    unfolding refill_def by (metis append_butlast_last_id)
  then have "mset (xs[i := last xs]) = add_mset (last xs) (mset (refill xs i))"
    by simp
  moreover have "mset (xs[i := last xs]) = add_mset (last xs) (mset xs - {#xs ! i#})"
    using assms by (simp add: mset_update)
  ultimately show ?thesis by simp
qed

lemma nth_refill: "j < length xs - 1 \<Longrightarrow> refill xs i ! j = (if j = i then last xs else xs ! j)"
  by (simp add: refill_def nth_butlast nth_list_update)

lemma refill_distinct:
  assumes "i < length xs" "distinct xs"
  shows "distinct (refill xs i)" "set (refill xs i) = set xs - {xs ! i}"
proof -
  have "mset (refill xs i) = mset (remove1 (xs ! i) xs)"
    using mset_refill [OF assms(1)] by simp
  then show "distinct (refill xs i)" "set (refill xs i) = set xs - {xs ! i}"
    using assms(2) distinct_mset_eq mset_eq_setD set_remove1_eq by (metis distinct_remove1)+
qed

text \<open>The heap that \<open>heap_heapify\<close> is called on.\<close>

definition refilled :: "'x iheap \<Rightarrow> nat \<Rightarrow> 'x iheap" where
  "refilled h i = h\<lparr>hp_size := hp_size h - 1, hp_map := (hp_map h)[i := Some (last (heap_ptrs h))]\<rparr>"

lemma refilled_wf:
  assumes wf: "heap_wf h st" and i: "i < unat (hp_size h)"
  shows "heap_wf (refilled h i) st" "heap_ptrs (refilled h i) = refill (heap_ptrs h) i"
    "unat (hp_size (refilled h i)) = unat (hp_size h) - 1"
proof -
  note len = length_heap_ptrs [OF wf]
  show n: "unat (hp_size (refilled h i)) = unat (hp_size h) - 1"
    using i unat_minus1_32 [of "hp_size h"] by (simp add: refilled_def)
  have "heap_ptrs (refilled h i) = take (unat (hp_size h) - 1) ((heap_ptrs h)[i := last (heap_ptrs h)])"
    using n by (simp add: heap_ptrs_def refilled_def take_update_swap map_update take_map min_def)
  also have "\<dots> = refill (heap_ptrs h) i"
    by (simp add: refill_def butlast_conv_take len)
  finally show p: "heap_ptrs (refilled h i) = refill (heap_ptrs h) i" .
  have "set (take (unat (hp_size h) - 1) (hp_map h)) \<subseteq> set (take (unat (hp_size h)) (hp_map h))"
    by (rule set_take_subset_set_take) simp
  then show "heap_wf (refilled h i) st"
    using wf n p refill_distinct [of i "heap_ptrs h"] i len
    by (auto simp: heap_wf_def refilled_def dest!: set_take_upd)
qed

text \<open>What a removal gives. An item whose position is not recorded is the moved one.\<close>

definition removed :: "'x iheap \<Rightarrow> 'x imem \<Rightarrow> nat \<Rightarrow> 'x iheap \<Rightarrow> 'x imem \<Rightarrow> bool" where
  "removed h st i h' st' \<longleftrightarrow>
     (let P = heap_ptrs h; item = P ! i
      in heap_wf h' st' \<and> unat (hp_size h') = unat (hp_size h) - 1 \<and> hp_cmp h' = hp_cmp h
         \<and> hp_max_size h' = hp_max_size h
         \<and> heap_ptrs h' = sift_down (ptr_lt (hp_cmp h) st) (refill P i) i
         \<and> same_keys st st' \<and> map_option (\<lambda>v. (hi_index v, hi_active v)) (load st' item) = Some (0, 0)
         \<and> (\<forall>p. p \<noteq> item \<longrightarrow> map_option hi_active (load st' p) = map_option hi_active (load st p))
         \<and> (\<forall>p. p \<notin> set P \<longrightarrow> load st' p = load st p)
         \<and> ((\<forall>j < unat (hp_size h). indexed h st j) \<longrightarrow>
              (\<forall>j < unat (hp_size h'). indexed h' st' j
                 \<or> (j = i \<and> heap_ptrs h' ! j = last P
                      \<and> unat (hi_index (the (load st' (last P)))) = unat (hp_size h) - 1))))"

lemma heapify_refilled:
  assumes wf: "heap_wf h st" and i: "unat i < unat (hp_size h)" and sm: "unat (hp_size h) < 2 ^ 31"
    and b: "index_blind (hp_cmp h)"
  defines "r \<equiv> refilled h (unat i)"
  shows "\<exists>mp st'. heap_heapify r st i = Some (r\<lparr>hp_map := mp\<rparr>, st') \<and> heapify_post r st (unat i) mp st'"
proof -
  note rw = refilled_wf [OF wf i, folded r_def]
  show ?thesis
  proof (cases "unat i < unat (hp_size r)")
    case True
    then show ?thesis
      using rw sm b by (intro heapify_refines) (auto simp: r_def refilled_def)
  next
    case False
    then have "heap_heapify r st i = Some (r\<lparr>hp_map := hp_map r\<rparr>, st)"
      using i sm rw by (simp add: heapify_beyond word_le_nat_alt)
    moreover have "heapify_post r st (unat i) (hp_map r) st"
      using False rw length_heap_ptrs [OF rw(1)] by (simp add: heapify_post_def sift_down_beyond)
    ultimately show ?thesis by blast
  qed
qed

lemma removed_indexed:
  assumes wf: "heap_wf h st" and i: "i < unat (hp_size h)"
    and post: "heapify_post (refilled h i) st i mp st1"
    and idx: "\<forall>j < unat (hp_size h). indexed h st j" and j: "j < unat (hp_size h) - 1"
  defines "h' \<equiv> (refilled h i)\<lparr>hp_map := mp\<rparr>"
  shows "indexed h' st1 j \<or> (j = i \<and> heap_ptrs h' ! j = last (heap_ptrs h)
     \<and> unat (hi_index (the (load st1 (last (heap_ptrs h))))) = unat (hp_size h) - 1)"
proof -
  note rw = refilled_wf [OF wf i] and len = length_heap_ptrs [OF wf]
  have old: "indexed (refilled h i) st k" if "k < unat (hp_size h) - 1" "k \<noteq> i" for k
    using idx that len rw(2) by (simp add: indexed_def nth_refill)
  then consider "\<forall>k < unat (hp_size h) - 1. indexed h' st1 k" | "h' = refilled h i" "st1 = st"
    using post rw(3) by (auto simp: heapify_post_def h'_def)
  then show ?thesis
  proof cases
    case 1
    then show ?thesis using j by blast
  next
    case 2
    have "last (heap_ptrs h) = heap_ptrs h ! (unat (hp_size h) - 1)"
      using last_heap_ptrs [OF wf] i by auto
    then have "unat (hi_index (the (load st (last (heap_ptrs h))))) = unat (hp_size h) - 1"
      using idx i by (simp add: indexed_def)
    then show ?thesis
      using 2 old [of j] j len rw(2) by (cases "j = i") (auto simp: nth_refill)
  qed
qed

text \<open>Removal as one equation, given the run of \<open>heap_heapify\<close> on the refilled heap.\<close>

lemma heap_remove_run:
  assumes wf: "heap_wf h st" and i: "unat i < unat (hp_size h)"
    and run: "heap_heapify (refilled h (unat i)) st i = Some (h', st1)" and v: "load st1 (heap_ptrs h ! unat i) = Some v"
  shows "heap_remove h st i
     = Some (heap_ptrs h ! unat i, h', upd_active (upd_index st1 (heap_ptrs h ! unat i) 0) (heap_ptrs h ! unat i) 0)"
proof -
  have "last (heap_ptrs h) = heap_ptrs h ! (unat (hp_size h) - 1)"
    using last_heap_ptrs [OF wf] i by auto
  then have "aread (hp_map h) (unat (hp_size h - 1)) = Some (last (heap_ptrs h))"
    using heap_wf_aread [OF wf, of "unat (hp_size h) - 1"] i unat_minus1_32 [of "hp_size h"] by simp
  then show ?thesis
    using i v run heap_wf_aread [OF wf i] heap_wf_length [OF wf i]
    by (auto simp: heap_remove_def word_le_nat_alt Let_def arr_simps refilled_def dest: load_SomeD)
qed

lemma heap_remove_ok:
  assumes wf: "heap_wf h st" and i: "unat i < unat (hp_size h)" and sm: "unat (hp_size h) < 2 ^ 31"
    and b: "index_blind (hp_cmp h)"
  shows "\<exists>h' st'. heap_remove h st i = Some (heap_ptrs h ! unat i, h', st') \<and> removed h st (unat i) h' st'"
proof -
  define P where "P = heap_ptrs h"
  define item where "item = P ! unat i"
  let ?r = "refilled h (unat i)"
  note rw = refilled_wf [OF wf i] and len = length_heap_ptrs [OF wf]
  obtain mp st1 where run: "heap_heapify ?r st i = Some (?r\<lparr>hp_map := mp\<rparr>, st1)"
    and post: "heapify_post ?r st (unat i) mp st1"
    using heapify_refilled [OF assms] by blast
  define h' where "h' = ?r\<lparr>hp_map := mp\<rparr>"
  define st' where "st' = upd_active (upd_index st1 item 0) item 0"
  have fl: "unat (hp_size h') = unat (hp_size h) - 1" "hp_cmp h' = hp_cmp h" "hp_max_size h' = hp_max_size h"
    using rw(3) by (simp_all add: h'_def refilled_def)
  have hp: "heap_wf h' st1" "heap_ptrs h' = sift_down (ptr_lt (hp_cmp h) st) (refill P (unat i)) (unat i)"
      "same_items st st1" "\<And>p. p \<notin> set (refill P (unat i)) \<Longrightarrow> load st1 p = load st p"
    using post rw(2) by (auto simp: heapify_post_def h'_def refilled_def P_def)
  have dP: "distinct P" "unat i < length P" using wf i len by (auto simp: heap_wf_def P_def)
  have "mset (heap_ptrs h') = mset (refill P (unat i))"
    unfolding hp(2) by (cases "unat i < length (refill P (unat i))") (simp_all add: mset_sift_down sift_down_beyond)
  then have st: "set (heap_ptrs h') = set P - {item}"
    using mset_eq_setD refill_distinct(2) [OF dP(2,1)] by (auto simp: item_def)
  obtain v where v: "load st1 item = Some v"
    using heap_wf_load [OF wf i] same_items_None [OF hp(3)] by (metis item_def P_def not_None_eq)
  have ke: "same_keys st st'"
    unfolding st'_def using same_keys_trans [OF same_items_keys [OF hp(3)] same_keys_upd [OF v]] .
  have ld: "load st' p = load st1 p" if "p \<noteq> item" for p
    using that by (simp add: st'_def)
  have ix: "indexed h' st' j = indexed h' st1 j" if "j < unat (hp_size h')" for j
    using st ld that length_heap_ptrs [OF hp(1)] by (metis DiffD2 indexed_def insertI1 nth_mem)
  have "heap_wf h' st'"
    using hp(1) heap_wf_same_keys [OF same_keys_upd [OF v]] by (simp add: st'_def)
  moreover have "indexed h' st' j \<or> (j = unat i \<and> heap_ptrs h' ! j = last P
      \<and> unat (hi_index (the (load st' (last P)))) = unat (hp_size h) - 1)"
    if "\<forall>j < unat (hp_size h). indexed h st j" "j < unat (hp_size h')" for j
  proof -
    have "heap_ptrs h' ! j \<noteq> item"
      using st that length_heap_ptrs [OF hp(1)] by (metis DiffD2 insertI1 nth_mem)
    then show ?thesis
      using removed_indexed [OF wf i post that(1), of j, folded h'_def P_def] that(2) fl(1) ix ld by auto
  qed
  moreover have "map_option (\<lambda>v. (hi_index v, hi_active v)) (load st' item) = Some (0, 0)"
    using v by (auto simp: st'_def upd_index_apply dest: load_SomeD)
  moreover have "map_option hi_active (load st' p) = map_option hi_active (load st p)" if "p \<noteq> item" for p
    using ld [OF that] same_items_active [OF hp(3)] by simp
  moreover have "load st' p = load st p" if "p \<notin> set P" for p
  proof -
    have "item \<in> set P" using dP(2) by (simp add: item_def)
    then have "p \<noteq> item" "p \<notin> set (refill P (unat i))"
      unfolding refill_distinct(2) [OF dP(2,1)] using that by auto
    then show ?thesis using ld hp(4) by simp
  qed
  ultimately have "removed h st (unat i) h' st'"
    unfolding removed_def Let_def item_def [symmetric] P_def [symmetric] using fl hp(2) ke by blast
  moreover have "heap_remove h st i = Some (item, h', st')"
    using heap_remove_run [OF wf i run] v by (simp add: item_def P_def h'_def st'_def)
  ultimately show ?thesis by (auto simp: item_def P_def)
qed

text \<open>When the moved item stays in the gap, \<open>heap_heapify\<close> writes nothing.\<close>

lemma heap_remove_stays:
  assumes wf: "heap_wf h st" and i: "unat i < unat (hp_size h) - 1" and sm: "unat (hp_size h) < 2 ^ 31"
    and stay: "\<forall>j < unat (hp_size h) - 1. 0 < j \<and> par j = unat i \<longrightarrow>
      \<not> ptr_lt (hp_cmp h) st (heap_ptrs h ! j) (last (heap_ptrs h))"
  defines "item \<equiv> heap_ptrs h ! unat i"
  shows "heap_remove h st i = Some (item, refilled h (unat i), upd_active (upd_index st item 0) item 0)"
proof -
  note len = length_heap_ptrs [OF wf]
  have i': "unat i < unat (hp_size h)" using i by simp
  note rw = refilled_wf [OF wf i']
  have "smallest_of (ptr_lt (hp_cmp h) st) (refill (heap_ptrs h) (unat i)) (unat i) = unat i"
    using stay i len by (auto simp: smallest_of_def Let_def nth_refill par_def)
  then have run: "heap_heapify (refilled h (unat i)) st i = Some (refilled h (unat i), st)"
    using heapify_step [OF rw(1), of i] i rw sm by (simp add: refilled_def)
  have "last (heap_ptrs h) = heap_ptrs h ! (unat (hp_size h) - 1)"
    using last_heap_ptrs [OF wf] i' by auto
  then have "aread (hp_map h) (unat (hp_size h - 1)) = Some (last (heap_ptrs h))"
    using heap_wf_aread [OF wf, of "unat (hp_size h) - 1"] i unat_minus1_32 [of "hp_size h"] by simp
  moreover obtain v where v: "load st item = Some v"
    using heap_wf_load [OF wf i'] by (auto simp: item_def)
  moreover have "load (upd_index st item 0) item = Some ((the (st item))\<lparr>hi_index := 0\<rparr>)"
    using v by (auto dest: load_SomeD)
  ultimately show ?thesis
    using i' run heap_wf_aread [OF wf i'] heap_wf_length [OF wf i']
    by (simp add: heap_remove_def word_le_nat_alt Let_def arr_simps refilled_def flip: item_def)
qed

section \<open>The order of the items\<close>

text \<open>
  What the heap relies on in its comparison callback: a strict weak order that does not look at
  the position and activity fields the heap itself writes.
\<close>

locale item_order = weak_order cmp
  for cmp :: "'x heapitem_scheme \<Rightarrow> 'x heapitem_scheme \<Rightarrow> bool" +
  assumes blind: "index_blind cmp"
begin

lemma ptr_order: "weak_order (ptr_lt cmp st)"
  by unfold_locales (auto simp: ptr_lt_def dest: asym neg_trans)

lemma ptr_order_dual: "weak_order (\<lambda>p q. ptr_lt cmp st q p)"
  by unfold_locales (auto simp: ptr_lt_def dest: asym neg_trans)

text \<open>Appending leaves a heap with a hole at the end.\<close>

lemma hole_at_end: "min_heap lt xs \<Longrightarrow> min_heap_hole lt (xs @ [x]) (length xs) x"
proof -
  assume "min_heap lt xs"
  moreover have p: "par j < length xs" "par j \<noteq> length xs" if "j < Suc (length xs)" "0 < j" for j
    using par_less [of j] that by linarith+
  ultimately show ?thesis
    by (auto simp: min_heap_def min_heap_hole_def nth_append p)
qed

lemma insert_keeps_max:
  assumes "inserted h st item h' st'" "hp_cmp h = cmp" "min_heap (\<lambda>p q. ptr_lt cmp st q p) (heap_ptrs h)"
  shows "min_heap (\<lambda>p q. ptr_lt cmp st' q p) (heap_ptrs h')"
proof -
  have "ptr_lt cmp st' = ptr_lt cmp st"
    using assms(1) blind by (intro ptr_lt_same_keys) (auto simp: inserted_def)
  then show ?thesis
    using weak_order.sift_up_min_heap [OF ptr_order_dual hole_at_end [OF assms(3)]] assms(1,2)
    by (simp add: inserted_def)
qed

lemma max_front:
  assumes "min_heap (\<lambda>p q. ptr_lt cmp st q p) (heap_ptrs h)" "heap_wf h st" "0 < hp_size h"
  shows "heap_front h = Some (heap_ptrs h ! 0)" "p \<in> set (heap_ptrs h) \<Longrightarrow> \<not> ptr_lt cmp st (heap_ptrs h ! 0) p"
proof -
  show "heap_front h = Some (heap_ptrs h ! 0)"
    using heap_wf_aread [OF assms(2), of 0] assms(3) by (simp add: heap_front_def unat_gt_0 word_neq_0_conv)
  show "\<not> ptr_lt cmp st (heap_ptrs h ! 0) p" if "p \<in> set (heap_ptrs h)"
    using weak_order.min_heap_root [OF ptr_order_dual assms(1)] that by (auto simp: in_set_conv_nth)
qed

lemma refill_below_root: "min_heap lt xs \<Longrightarrow> min_heap_below lt (refill xs 0) 0"
  by (auto simp: min_heap_below_def min_heap_def nth_refill par_def)

lemma remove_first_keeps_min:
  assumes "removed h st 0 h' st'" "hp_cmp h = cmp" "min_heap (ptr_lt cmp st) (heap_ptrs h)"
  shows "min_heap (ptr_lt cmp st') (heap_ptrs h')"
proof -
  have "ptr_lt cmp st' = ptr_lt cmp st"
    using assms(1) blind by (intro ptr_lt_same_keys) (auto simp: removed_def Let_def)
  moreover have "min_heap (ptr_lt cmp st) (sift_down (ptr_lt cmp st) (refill (heap_ptrs h) 0) 0)"
  proof (cases "refill (heap_ptrs h) 0 = []")
    case True
    then show ?thesis by (simp add: sift_down_beyond min_heap_def)
  next
    case False
    then have "0 < length (refill (heap_ptrs h) 0)"
      by (metis length_greater_0_conv)
    then show ?thesis
      by (rule weak_order.sift_down_min_heap [OF ptr_order refill_below_root [OF assms(3)]])
  qed
  ultimately show ?thesis
    using assms(1,2) by (simp add: removed_def Let_def)
qed

lemma min_front:
  assumes "min_heap (ptr_lt cmp st) (heap_ptrs h)" "p \<in> set (heap_ptrs h)"
  shows "\<not> ptr_lt cmp st p (heap_ptrs h ! 0)"
  using weak_order.min_heap_root [OF ptr_order assms(1)] assms(2) by (auto simp: in_set_conv_nth)

end

section \<open>Properties\<close>

text \<open>
  C9: \<open>heap_insert\<close> of an item that is not in a well-formed heap succeeds unless the array is full
  and \<^verbatim>\<open>malloc\<close> fails. The result is well formed and holds exactly the old items and the new one,
  which becomes active; if every item knew its position, every item still does; and no other part
  of any item changes.
\<close>

theorem heap_insert_correct:
  assumes "heap_wf h st" "load st item \<noteq> None" "item \<notin> set (heap_ptrs h)" "index_blind (hp_cmp h)"
    and "unat (hp_max_size h) + 100 < 2 ^ 32" "heap_full h \<longrightarrow> ok"
  shows "\<exists>h' st'. heap_insert ok h st item = Some (0, h', st') \<and> heap_wf h' st'
     \<and> unat (heap_size h') = unat (heap_size h) + 1
     \<and> mset (heap_ptrs h') = add_mset item (mset (heap_ptrs h))
     \<and> map_option hi_active (load st' item) = Some 1 \<and> same_keys st st'
     \<and> (\<forall>p. p \<notin> set (heap_ptrs h') \<longrightarrow> load st' p = load st p)
     \<and> ((\<forall>j < unat (hp_size h). indexed h st j) \<longrightarrow> (\<forall>j < unat (hp_size h'). indexed h' st' j))"
proof -
  obtain h' st' where r: "heap_insert ok h st item = Some (0, h', st')" "inserted h st item h' st'"
    using heap_insert_ok [OF assms] by blast
  have "mset (heap_ptrs h') = add_mset item (mset (heap_ptrs h))"
    using r(2) mset_sift_up [of "length (heap_ptrs h)" "heap_ptrs h @ [item]"]
    by (simp add: inserted_def)
  with r show ?thesis
    by (auto simp: inserted_def heap_size_def)
qed

text \<open>
  When the array is full and no larger one can be had, \<open>heap_insert\<close> reports \<open>-1\<close> and changes
  neither the heap nor any item.
\<close>

theorem heap_insert_no_memory:
  assumes "heap_full h"
  shows "heap_insert False h st item = Some (-1, h, st)"
  using assms by (simp add: heap_insert_def heap_increase_size_def)

text \<open>
  C10: With a strict weak order as callback, \<open>heap_insert\<close> keeps the heap ordered so that no parent
  compares below its child. The front of such a heap is therefore an item that compares below no
  other one: the one that \<^verbatim>\<open>heap_heapify\<close>, which moves items that compare below others up,
  would put last.
\<close>

theorem heap_insert_largest_first:
  assumes "item_order (hp_cmp h)" "heap_wf h st" "load st item \<noteq> None" "item \<notin> set (heap_ptrs h)"
    and "unat (hp_max_size h) + 100 < 2 ^ 32" "heap_full h \<longrightarrow> ok"
    and "min_heap (\<lambda>p q. ptr_lt (hp_cmp h) st q p) (heap_ptrs h)"
  shows "\<exists>h' st' f. heap_insert ok h st item = Some (0, h', st')
     \<and> min_heap (\<lambda>p q. ptr_lt (hp_cmp h') st' q p) (heap_ptrs h')
     \<and> heap_front h' = Some f \<and> (\<forall>p \<in> insert item (set (heap_ptrs h)). \<not> ptr_lt (hp_cmp h) st f p)"
proof -
  note o = assms(1)
  obtain h' st' where r: "heap_insert ok h st item = Some (0, h', st')" "inserted h st item h' st'"
    using heap_insert_ok [OF assms(2-4) item_order.blind [OF o] assms(5,6)] by blast
  have c: "hp_cmp h' = hp_cmp h" "heap_wf h' st'" "0 < hp_size h'" and sk: "same_keys st st'"
    using r(2) by (auto simp: inserted_def word_less_nat_alt)
  have mx: "min_heap (\<lambda>p q. ptr_lt (hp_cmp h) st' q p) (heap_ptrs h')"
    using item_order.insert_keeps_max [OF o r(2) refl assms(7)] .
  note fr = item_order.max_front [OF o mx c(2,3)]
  have "mset (heap_ptrs h') = add_mset item (mset (heap_ptrs h))"
    using r(2) mset_sift_up [of "length (heap_ptrs h)" "heap_ptrs h @ [item]"]
    by (simp add: inserted_def)
  then have "set (heap_ptrs h') = insert item (set (heap_ptrs h))"
    by (metis set_mset_add_mset_insert set_mset_mset)
  moreover have "ptr_lt (hp_cmp h) st' = ptr_lt (hp_cmp h) st"
    using item_order.blind [OF o] sk by (rule ptr_lt_same_keys)
  ultimately show ?thesis
    using r(1) mx fr c(1) by (intro exI [of _ h'] exI [of _ st'] exI [of _ "heap_ptrs h' ! 0"]) auto
qed

text \<open>
  C11: \<open>heap_heapify\<close> ends on every well-formed heap of fewer than \<open>2\<^sup>3\<^sup>1\<close> items, faults nowhere,
  permutes the pointers, and turns an array that is a heap except that the item at \<open>i\<close> may be too
  large for its place into a heap.
\<close>

theorem heap_heapify_restores:
  assumes "item_order (hp_cmp h)" "heap_wf h st" "unat i < unat (hp_size h)" "unat (hp_size h) < 2 ^ 31"
    and "min_heap_below (ptr_lt (hp_cmp h) st) (heap_ptrs h) (unat i)"
  shows "\<exists>mp st'. heap_heapify h st i = Some (h\<lparr>hp_map := mp\<rparr>, st') \<and> heap_wf (h\<lparr>hp_map := mp\<rparr>) st'
     \<and> mset (heap_ptrs (h\<lparr>hp_map := mp\<rparr>)) = mset (heap_ptrs h) \<and> same_keys st st'
     \<and> min_heap (ptr_lt (hp_cmp h) st') (heap_ptrs (h\<lparr>hp_map := mp\<rparr>))"
proof -
  note o = assms(1) and len = length_heap_ptrs [OF assms(2)]
  obtain mp st' where r: "heap_heapify h st i = Some (h\<lparr>hp_map := mp\<rparr>, st')" "heapify_post h st (unat i) mp st'"
    using heapify_refines [OF assms(2-4) item_order.blind [OF o]] by blast
  have sk: "same_keys st st'"
    using r(2) by (auto simp: heapify_post_def intro: same_items_keys)
  have "ptr_lt (hp_cmp h) st' = ptr_lt (hp_cmp h) st"
    using item_order.blind [OF o] sk by (rule ptr_lt_same_keys)
  moreover have "min_heap (ptr_lt (hp_cmp h) st) (sift_down (ptr_lt (hp_cmp h) st) (heap_ptrs h) (unat i))"
    using weak_order.sift_down_min_heap [OF item_order.ptr_order [OF o] assms(5)] assms(3) len by simp
  ultimately show ?thesis
    using r sk mset_sift_down [of "unat i" "heap_ptrs h"] assms(3) len by (auto simp: heapify_post_def)
qed

text \<open>
  C12: \<open>heap_remove\<close> of a position in use takes exactly the item there out of a well-formed heap of
  fewer than \<open>2\<^sup>3\<^sup>1\<close> items, marks it inactive and returns it; a position that is not in use gives
  the null pointer and changes nothing. Of the remaining items every one knows its position,
  except that the item moved into the gap still records the last position when it stays in the
  gap.
\<close>

theorem heap_remove_correct:
  assumes "heap_wf h st" "unat (hp_size h) < 2 ^ 31" "index_blind (hp_cmp h)"
  shows "(unat i < unat (hp_size h) \<longrightarrow> (\<exists>h' st'. heap_remove h st i = Some (heap_ptrs h ! unat i, h', st')
        \<and> heap_wf h' st' \<and> mset (heap_ptrs h') = mset (heap_ptrs h) - {#heap_ptrs h ! unat i#}
        \<and> same_keys st st' \<and> map_option hi_active (load st' (heap_ptrs h ! unat i)) = Some 0
        \<and> (\<forall>p. p \<notin> set (heap_ptrs h) \<longrightarrow> load st' p = load st p)
        \<and> ((\<forall>j < unat (hp_size h). indexed h st j) \<longrightarrow>
             (\<forall>j < unat (hp_size h'). indexed h' st' j \<or>
                (j = unat i \<and> heap_ptrs h' ! j = last (heap_ptrs h)
                 \<and> unat (hi_index (the (load st' (last (heap_ptrs h))))) = unat (hp_size h'))))))
     \<and> (unat (hp_size h) \<le> unat i \<longrightarrow> heap_remove h st i = Some (NULL, h, st))"
proof (intro conjI impI)
  assume i: "unat i < unat (hp_size h)"
  note len = length_heap_ptrs [OF assms(1)]
  obtain h' st' where r: "heap_remove h st i = Some (heap_ptrs h ! unat i, h', st')" "removed h st (unat i) h' st'"
    using heap_remove_ok [OF assms(1) i assms(2,3)] by blast
  have "mset (heap_ptrs h') = mset (refill (heap_ptrs h) (unat i))"
    using r(2) by (cases "unat i < length (refill (heap_ptrs h) (unat i))")
      (auto simp: removed_def Let_def mset_sift_down sift_down_beyond)
  then have "mset (heap_ptrs h') = mset (heap_ptrs h) - {#heap_ptrs h ! unat i#}"
    using mset_refill i len by metis
  with r show "\<exists>h' st'. heap_remove h st i = Some (heap_ptrs h ! unat i, h', st')
        \<and> heap_wf h' st' \<and> mset (heap_ptrs h') = mset (heap_ptrs h) - {#heap_ptrs h ! unat i#}
        \<and> same_keys st st' \<and> map_option hi_active (load st' (heap_ptrs h ! unat i)) = Some 0
        \<and> (\<forall>p. p \<notin> set (heap_ptrs h) \<longrightarrow> load st' p = load st p)
        \<and> ((\<forall>j < unat (hp_size h). indexed h st j) \<longrightarrow>
             (\<forall>j < unat (hp_size h'). indexed h' st' j \<or>
                (j = unat i \<and> heap_ptrs h' ! j = last (heap_ptrs h)
                 \<and> unat (hi_index (the (load st' (last (heap_ptrs h))))) = unat (hp_size h'))))"
    by (auto simp: removed_def Let_def)
next
  assume "unat (hp_size h) \<le> unat i"
  then show "heap_remove h st i = Some (NULL, h, st)"
    by (simp add: heap_remove_def word_le_nat_alt)
qed

text \<open>
  C13: On a heap in the order that \<open>heap_heapify\<close> restores, \<open>heap_remove_first\<close> returns an item that
  no item of the heap compares below, and the rest is a heap in the same order: repeated removal
  delivers the items in ascending order.
\<close>

theorem heap_remove_first_least:
  assumes "item_order (hp_cmp h)" "heap_wf h st" "0 < unat (hp_size h)" "unat (hp_size h) < 2 ^ 31"
    and "min_heap (ptr_lt (hp_cmp h) st) (heap_ptrs h)"
  shows "\<exists>f h' st'. heap_remove_first h st = Some (f, h', st') \<and> heap_front h = Some f
     \<and> (\<forall>p \<in> set (heap_ptrs h). \<not> ptr_lt (hp_cmp h) st p f)
     \<and> heap_wf h' st' \<and> set (heap_ptrs h') = set (heap_ptrs h) - {f}
     \<and> min_heap (ptr_lt (hp_cmp h') st') (heap_ptrs h')"
proof -
  note o = assms(1) and len = length_heap_ptrs [OF assms(2)]
  obtain h' st' where r: "heap_remove h st 0 = Some (heap_ptrs h ! 0, h', st')" "removed h st 0 h' st'"
    using heap_remove_ok [OF assms(2) _ assms(4) item_order.blind [OF o], of 0] assms(3) by auto
  have "set (heap_ptrs h') = set (refill (heap_ptrs h) 0)"
    using r(2) mset_eq_setD [OF mset_sift_down [of 0 "refill (heap_ptrs h) 0"]]
    by (cases "0 < length (refill (heap_ptrs h) 0)") (auto simp: removed_def Let_def sift_down_beyond)
  then have "set (heap_ptrs h') = set (heap_ptrs h) - {heap_ptrs h ! 0}"
    using refill_distinct(2) [of 0 "heap_ptrs h"] assms(2,3) len by (auto simp: heap_wf_def)
  moreover have "heap_front h = Some (heap_ptrs h ! 0)"
    using heap_wf_aread [OF assms(2), of 0] assms(3) by (simp add: heap_front_def)
  moreover have "heap_wf h' st'" "hp_cmp h' = hp_cmp h"
    using r(2) by (auto simp: removed_def Let_def)
  ultimately show ?thesis
    using r item_order.min_front [OF o assms(5)] item_order.remove_first_keeps_min [OF o r(2) refl assms(5)]
    by (auto simp: heap_remove_first_def)
qed

text \<open>
  The item that fills the gap left by \<open>heap_remove\<close> keeps its old position number when no
  child compares below it. That number is then the size of the heap, so a later removal of this
  item by the position it records finds nothing: it returns the null pointer and the item stays in.
\<close>

theorem heap_remove_stale_index:
  assumes "heap_wf h st" "unat i < unat (hp_size h) - 1" "unat (hp_size h) < 2 ^ 31"
    and "\<forall>j < unat (hp_size h). indexed h st j"
    and "\<forall>j < unat (hp_size h) - 1. 0 < j \<and> par j = unat i \<longrightarrow>
      \<not> ptr_lt (hp_cmp h) st (heap_ptrs h ! j) (last (heap_ptrs h))"
  shows "\<exists>h' st' v. heap_remove h st i = Some (heap_ptrs h ! unat i, h', st')
     \<and> heap_ptrs h' ! unat i = last (heap_ptrs h) \<and> load st' (last (heap_ptrs h)) = Some v
     \<and> hi_index v = heap_size h' \<and> heap_remove h' st' (hi_index v) = Some (NULL, h', st')"
proof -
  note wf = assms(1) and len = length_heap_ptrs [OF assms(1)]
  define n where "n = unat (hp_size h) - 1"
  have n: "unat i < n" "n < unat (hp_size h)" "last (heap_ptrs h) = heap_ptrs h ! n"
    using assms(2) last_heap_ptrs [OF wf] by (auto simp: n_def)
  then have ne: "heap_ptrs h ! n \<noteq> heap_ptrs h ! unat i"
    using wf len by (auto simp: heap_wf_def nth_eq_iff_index_eq)
  obtain v where v: "load st (heap_ptrs h ! n) = Some v"
    using heap_wf_load [OF wf n(2)] by blast
  have rw: "heap_ptrs (refilled h (unat i)) = refill (heap_ptrs h) (unat i)"
      "unat (hp_size (refilled h (unat i))) = n"
    using refilled_wf [OF wf, of "unat i"] n by (auto simp: n_def)
  have "unat (hi_index v) = n"
    using assms(4) n(2) v by (auto simp: indexed_def)
  then have "hi_index v = hp_size (refilled h (unat i))"
    using rw(2) by (simp add: word_unat_eq_iff)
  then show ?thesis
    using heap_remove_stays [OF wf assms(2,3,5)] v ne n rw(1) len
    by (auto simp: heap_remove_def heap_size_def nth_refill n_def)
qed

text \<open>
  \<open>heap_remove\<close> only moves the filling item down. Taking an item other than the front out of a
  heap in which the last item compares below the parent of the gap leaves the two in the wrong
  order: the result is not a heap.
\<close>

theorem heap_remove_breaks_order:
  assumes "item_order (hp_cmp h)" "heap_wf h st" "0 < unat i" "unat i < unat (hp_size h) - 1" "unat (hp_size h) < 2 ^ 31"
    and "min_heap (ptr_lt (hp_cmp h) st) (heap_ptrs h)"
    and "ptr_lt (hp_cmp h) st (last (heap_ptrs h)) (heap_ptrs h ! par (unat i))"
  shows "\<exists>f h' st'. heap_remove h st i = Some (f, h', st') \<and> \<not> min_heap (ptr_lt (hp_cmp h') st') (heap_ptrs h')"
proof -
  note o = assms(1) and wf = assms(2) and i = assms(3,4) and len = length_heap_ptrs [OF assms(2)]
  note w = item_order.ptr_order [OF o, of st]
  have i': "unat i < unat (hp_size h)" using i by simp
  note rw = refilled_wf [OF wf i']
  have "\<not> ptr_lt (hp_cmp h) st (heap_ptrs h ! unat i) (heap_ptrs h ! par (unat i))"
    using assms(6) i len by (simp add: min_heap_def)
  then have lt: "ptr_lt (hp_cmp h) st (last (heap_ptrs h)) (heap_ptrs h ! unat i)"
    using assms(7) weak_order.neg_trans [OF w] by blast
  have "\<not> ptr_lt (hp_cmp h) st (heap_ptrs h ! j) (last (heap_ptrs h))"
    if j: "j < unat (hp_size h) - 1" "0 < j" "par j = unat i" for j
  proof
    assume "ptr_lt (hp_cmp h) st (heap_ptrs h ! j) (last (heap_ptrs h))"
    then have "ptr_lt (hp_cmp h) st (heap_ptrs h ! j) (heap_ptrs h ! par j)"
      using lt weak_order.lt_trans [OF w] j(3) by metis
    moreover have "j < length (heap_ptrs h)" using j(1) len by linarith
    ultimately show False
      using assms(6) j(2) by (simp add: min_heap_def)
  qed
  then have run: "heap_remove h st i = Some (heap_ptrs h ! unat i, refilled h (unat i),
      upd_active (upd_index st (heap_ptrs h ! unat i) 0) (heap_ptrs h ! unat i) 0)" (is "_ = Some (_, ?h, ?st)")
    using heap_remove_stays [OF wf i(2) assms(5)] by blast
  obtain v where "load st (heap_ptrs h ! unat i) = Some v"
    using heap_wf_load [OF wf i'] by blast
  then have "ptr_lt (hp_cmp h) ?st = ptr_lt (hp_cmp h) st"
    by (intro ptr_lt_same_keys [OF item_order.blind [OF o]] same_keys_upd)
  then have "\<not> min_heap (ptr_lt (hp_cmp ?h) ?st) (heap_ptrs ?h)"
    using assms(7) i rw(2) len par_less [of "unat i"]
    by (auto simp: min_heap_def refilled_def [of h] nth_refill intro!: exI [of _ "unat i"])
  with run show ?thesis by blast
qed

section \<open>Witnesses\<close>

text \<open>Items with an integer key, a heap of six of them in the order of their keys, and a heap of two in the opposite order.\<close>

definition key_lt :: "int heapitem_scheme \<Rightarrow> int heapitem_scheme \<Rightarrow> bool" where
  "key_lt a b \<longleftrightarrow> heapitem.more a < heapitem.more b"

definition example_item :: "u32 \<Rightarrow> int \<Rightarrow> int heapitem_scheme" where
  "example_item i k = \<lparr>hi_index = i, hi_active = 1, \<dots> = k\<rparr>"

definition example_items :: "int imem" where
  "example_items = [1 \<mapsto> example_item 0 10, 2 \<mapsto> example_item 1 20, 3 \<mapsto> example_item 2 15,
     4 \<mapsto> example_item 3 30, 5 \<mapsto> example_item 4 40, 6 \<mapsto> example_item 5 16, 7 \<mapsto> example_item 0 12]"

definition example_heap :: "int iheap" where
  "example_heap = \<lparr>hp_max_size = 6, hp_size = 6, hp_cmp = key_lt,
     hp_map = [Some 1, Some 2, Some 3, Some 4, Some 5, Some 6]\<rparr>"

definition example_heap_max :: "int iheap" where
  "example_heap_max = \<lparr>hp_max_size = 3, hp_size = 2, hp_cmp = key_lt, hp_map = [Some 2, Some 1, None]\<rparr>"

lemma key_lt_order: "item_order key_lt"
  by unfold_locales (auto simp: key_lt_def index_blind_def)

lemma less_Suc_conv: "(\<forall>j < Suc n. P j) \<longleftrightarrow> P n \<and> (\<forall>j < n. P j)"
  using less_Suc_eq by auto

lemma example_heap_facts:
  "hp_cmp example_heap = key_lt" "unat (hp_size example_heap) = 6" "unat (hp_max_size example_heap) = 6"
  "heap_ptrs example_heap = [1, 2, 3, 4, 5, 6]" "heap_full example_heap"
  by (simp_all add: example_heap_def heap_ptrs_def heap_full_def)

lemma example_heap_load:
  "load example_items 1 = Some (example_item 0 10)" "load example_items (Suc 0) = Some (example_item 0 10)"
  "load example_items 2 = Some (example_item 1 20)" "load example_items 3 = Some (example_item 2 15)"
  "load example_items 4 = Some (example_item 3 30)" "load example_items 5 = Some (example_item 4 40)"
  "load example_items 6 = Some (example_item 5 16)" "load example_items 7 = Some (example_item 0 12)"
  by (simp_all add: example_items_def load_def)

lemma example_heap_wf: "heap_wf example_heap example_items"
  unfolding heap_wf_def example_heap_facts
  by (simp add: example_heap_load, simp add: example_heap_def)

lemma example_heap_indexed: "\<forall>j < unat (hp_size example_heap). indexed example_heap example_items j"
  by (simp add: example_heap_facts indexed_def eval_nat_numeral less_Suc_conv, simp add: example_heap_load example_item_def flip: One_nat_def)

lemma example_min_heap: "min_heap (ptr_lt key_lt example_items) (heap_ptrs example_heap)"
  unfolding min_heap_def example_heap_facts
  by (simp add: eval_nat_numeral less_Suc_conv par_def, simp add: ptr_lt_def example_heap_load key_lt_def example_item_def
      flip: One_nat_def)

theorem heap_insert_correct_witness:
  "\<exists>h' st'. heap_insert True example_heap example_items 7 = Some (0, h', st') \<and> heap_wf h' st'
     \<and> unat (heap_size h') = 7 \<and> mset (heap_ptrs h') = {#1, 2, 3, 4, 5, 6, 7#}"
  using heap_insert_correct [of example_heap example_items 7 True, OF example_heap_wf] item_order.blind [OF key_lt_order]
  by (auto simp: example_heap_facts example_heap_load heap_size_def)

theorem heap_insert_no_memory_witness:
  "heap_insert False example_heap example_items 7 = Some (-1, example_heap, example_items)"
  by (rule heap_insert_no_memory) (simp add: example_heap_facts)

lemma example_heap_max_facts:
  "hp_cmp example_heap_max = key_lt" "unat (hp_size example_heap_max) = 2" "unat (hp_max_size example_heap_max) = 3"
  "heap_ptrs example_heap_max = [2, 1]" "\<not> heap_full example_heap_max" "heap_wf example_heap_max example_items"
  by (simp_all add: example_heap_max_def heap_ptrs_def heap_full_def heap_wf_def example_heap_load)

lemma example_max_heap: "min_heap (\<lambda>p q. ptr_lt key_lt example_items q p) (heap_ptrs example_heap_max)"
  unfolding min_heap_def example_heap_max_facts
  by (simp add: eval_nat_numeral less_Suc_conv par_def, simp add: ptr_lt_def example_heap_load key_lt_def example_item_def
      flip: One_nat_def)

theorem heap_insert_largest_first_witness:
  "\<exists>h' st' f. heap_insert False example_heap_max example_items 4 = Some (0, h', st')
     \<and> heap_front h' = Some f \<and> (\<forall>p \<in> {1, 2, 4}. \<not> ptr_lt key_lt example_items f p)"
  using heap_insert_largest_first [of example_heap_max example_items 4 False] key_lt_order example_max_heap
  by (auto simp: example_heap_max_facts example_heap_load insert_commute)

theorem heap_heapify_restores_witness:
  "\<exists>mp st'. heap_heapify example_heap example_items 0 = Some (example_heap\<lparr>hp_map := mp\<rparr>, st')
     \<and> min_heap (ptr_lt key_lt st') (heap_ptrs (example_heap\<lparr>hp_map := mp\<rparr>))"
proof -
  have "min_heap_below (ptr_lt key_lt example_items) (heap_ptrs example_heap) 0"
    using example_min_heap by (simp add: min_heap_def min_heap_below_def)
  then show ?thesis
    using heap_heapify_restores [of example_heap example_items 0] key_lt_order example_heap_wf
    by (auto simp: example_heap_facts)
qed

theorem heap_remove_correct_witness:
  "\<exists>h' st'. heap_remove example_heap example_items 3 = Some (4, h', st') \<and> heap_wf h' st'
     \<and> mset (heap_ptrs h') = {#1, 2, 3, 5, 6#}"
  using heap_remove_correct [of example_heap example_items 3] example_heap_wf item_order.blind [OF key_lt_order]
  by (auto simp: example_heap_facts)

theorem heap_remove_first_least_witness:
  "\<exists>h' st'. heap_remove_first example_heap example_items = Some (1, h', st')
     \<and> set (heap_ptrs h') = {2, 3, 4, 5, 6} \<and> min_heap (ptr_lt (hp_cmp h') st') (heap_ptrs h')"
proof -
  have "heap_front example_heap = Some 1" by (simp add: heap_front_def example_heap_def aread_def)
  then show ?thesis
    using heap_remove_first_least [of example_heap example_items] example_heap_wf key_lt_order example_min_heap
    by (auto simp: example_heap_facts)
qed

lemma example_gap:
  "\<forall>j < unat (hp_size example_heap) - 1. 0 < j \<and> par j = unat (3 :: u32) \<longrightarrow>
      \<not> ptr_lt (hp_cmp example_heap) example_items (heap_ptrs example_heap ! j) (last (heap_ptrs example_heap))"
  by (auto simp: example_heap_facts par_def)

theorem heap_remove_stale_index_witness:
  "\<exists>h' st' v. heap_remove example_heap example_items 3 = Some (4, h', st') \<and> heap_ptrs h' ! 3 = 6
     \<and> load st' 6 = Some v \<and> heap_remove h' st' (hi_index v) = Some (NULL, h', st')"
  using heap_remove_stale_index [of example_heap example_items 3, OF example_heap_wf _ _ example_heap_indexed example_gap]
  by (auto simp: example_heap_facts)

theorem heap_remove_breaks_order_witness:
  "\<exists>f h' st'. heap_remove example_heap example_items 3 = Some (f, h', st')
     \<and> \<not> min_heap (ptr_lt (hp_cmp h') st') (heap_ptrs h')"
  using heap_remove_breaks_order [of example_heap example_items 3] example_heap_wf key_lt_order example_min_heap
  by (simp add: example_heap_facts par_def, simp add: ptr_lt_def example_heap_load key_lt_def example_item_def flip: One_nat_def)

end
