(* ===== verification/Ckit_Time.thy ===== *)
theory Ckit_Time
  imports Ckit_Prelude "HOL-Library.Signed_Division"
begin

text \<open>
  \<^verbatim>\<open>include/ckit/time.h\<close>: normalisation, arithmetic and comparison of \<^verbatim>\<open>struct timespec\<close>
  and \<^verbatim>\<open>struct timeval\<close>. The fields are signed \<^verbatim>\<open>long\<close> and \<^verbatim>\<open>time_t\<close> of 64 bits, words read by \<open>sint\<close>;
  every sum and difference that a macro stores goes through \<open>fit\<close>, so a macro whose arithmetic overflows is \<open>None\<close>.
  Division and remainder truncate towards zero, as C's do (\<open>sdiv\<close>, \<open>smod\<close>).

  The two families share one contract, the locale \<open>clock_arith\<close>: a value is in normal form or
  not, a normal value counts a number of units, and the operations compute on the counts as long as the result
  is a second away from the ends of what a value can count.
\<close>

section \<open>Definitions\<close>

subsection \<open>struct timespec\<close>

record timespec =
  tv_sec :: s64
  tv_nsec :: s64

definition NSEC_PER_SEC :: int where
  "NSEC_PER_SEC = 1000000000"

definition timespec_normalize :: "timespec \<Rightarrow> timespec option" where
  "timespec_normalize t =
     (if NSEC_PER_SEC \<le> sint (tv_nsec t) then do {
        n \<leftarrow> fit (sint (tv_nsec t) - NSEC_PER_SEC);
        s \<leftarrow> fit (sint (tv_sec t) + 1);
        Some (t\<lparr>tv_nsec := n, tv_sec := s\<rparr>)
      } else if sint (tv_nsec t) < 0 then do {
        n \<leftarrow> fit (sint (tv_nsec t) + NSEC_PER_SEC);
        s \<leftarrow> fit (sint (tv_sec t) - 1);
        Some (t\<lparr>tv_nsec := n, tv_sec := s\<rparr>)
      } else Some t)"

definition timespec_add_nsec :: "timespec \<Rightarrow> s64 \<Rightarrow> timespec option" where
  "timespec_add_nsec t nsec = do {
     s \<leftarrow> fit (sint (tv_sec t) + sint nsec sdiv NSEC_PER_SEC);
     n \<leftarrow> fit (sint (tv_nsec t) + sint nsec smod NSEC_PER_SEC);
     timespec_normalize (t\<lparr>tv_sec := s, tv_nsec := n\<rparr>)
   }"

definition timespec_add :: "timespec \<Rightarrow> timespec \<Rightarrow> timespec option" where
  "timespec_add t1 t2 = do {
     n \<leftarrow> fit (sint (tv_nsec t1) + sint (tv_nsec t2));
     s \<leftarrow> fit (sint (tv_sec t1) + sint (tv_sec t2));
     timespec_normalize (t1\<lparr>tv_sec := s, tv_nsec := n\<rparr>)
   }"

definition timespec_sub :: "timespec \<Rightarrow> timespec \<Rightarrow> timespec option" where
  "timespec_sub t1 t2 = do {
     n \<leftarrow> fit (sint (tv_nsec t1) - sint (tv_nsec t2));
     s \<leftarrow> fit (sint (tv_sec t1) - sint (tv_sec t2));
     timespec_normalize (t1\<lparr>tv_sec := s, tv_nsec := n\<rparr>)
   }"

definition timespec_nz :: "timespec \<Rightarrow> bool" where
  "timespec_nz t \<longleftrightarrow> tv_sec t \<noteq> 0 \<or> tv_nsec t \<noteq> 0"

definition timespec_lt :: "timespec \<Rightarrow> timespec \<Rightarrow> bool" where
  "timespec_lt t1 t2 \<longleftrightarrow>
     sint (tv_sec t1) < sint (tv_sec t2) \<or> (tv_sec t1 = tv_sec t2 \<and> sint (tv_nsec t1) < sint (tv_nsec t2))"

definition timespec_gt :: "timespec \<Rightarrow> timespec \<Rightarrow> bool" where
  "timespec_gt t1 t2 \<longleftrightarrow> timespec_lt t2 t1"

definition timespec_ge :: "timespec \<Rightarrow> timespec \<Rightarrow> bool" where
  "timespec_ge t1 t2 \<longleftrightarrow> \<not> timespec_lt t1 t2"

definition timespec_le :: "timespec \<Rightarrow> timespec \<Rightarrow> bool" where
  "timespec_le t1 t2 \<longleftrightarrow> \<not> timespec_gt t1 t2"

definition timespec_eq :: "timespec \<Rightarrow> timespec \<Rightarrow> bool" where
  "timespec_eq t1 t2 \<longleftrightarrow> tv_sec t1 = tv_sec t2 \<and> tv_nsec t1 = tv_nsec t2"

subsection \<open>struct timeval\<close>

text \<open>The seconds field, also called \<^verbatim>\<open>tv_sec\<close> in C, is \<open>tval_sec\<close> here.\<close>

record timeval =
  tval_sec :: s64
  tv_usec :: s64

definition USEC_PER_SEC :: int where
  "USEC_PER_SEC = 1000000"

definition timeval_normalize :: "timeval \<Rightarrow> timeval option" where
  "timeval_normalize t =
     (if USEC_PER_SEC \<le> sint (tv_usec t) then do {
        n \<leftarrow> fit (sint (tv_usec t) - USEC_PER_SEC);
        s \<leftarrow> fit (sint (tval_sec t) + 1);
        Some (t\<lparr>tv_usec := n, tval_sec := s\<rparr>)
      } else if sint (tv_usec t) < 0 then do {
        n \<leftarrow> fit (sint (tv_usec t) + USEC_PER_SEC);
        s \<leftarrow> fit (sint (tval_sec t) - 1);
        Some (t\<lparr>tv_usec := n, tval_sec := s\<rparr>)
      } else Some t)"

definition timeval_add_usec :: "timeval \<Rightarrow> s64 \<Rightarrow> timeval option" where
  "timeval_add_usec t usec = do {
     s \<leftarrow> fit (sint (tval_sec t) + sint usec sdiv USEC_PER_SEC);
     n \<leftarrow> fit (sint (tv_usec t) + sint usec smod USEC_PER_SEC);
     timeval_normalize (t\<lparr>tval_sec := s, tv_usec := n\<rparr>)
   }"

definition timeval_sub_usec :: "timeval \<Rightarrow> s64 \<Rightarrow> timeval option" where
  "timeval_sub_usec t usec = do {
     s \<leftarrow> fit (sint (tval_sec t) - sint usec sdiv USEC_PER_SEC);
     n \<leftarrow> fit (sint (tv_usec t) - sint usec smod USEC_PER_SEC);
     timeval_normalize (t\<lparr>tval_sec := s, tv_usec := n\<rparr>)
   }"

definition timeval_add :: "timeval \<Rightarrow> timeval \<Rightarrow> timeval option" where
  "timeval_add t1 t2 = do {
     n \<leftarrow> fit (sint (tv_usec t1) + sint (tv_usec t2));
     s \<leftarrow> fit (sint (tval_sec t1) + sint (tval_sec t2));
     timeval_normalize (t1\<lparr>tval_sec := s, tv_usec := n\<rparr>)
   }"

definition timeval_sub :: "timeval \<Rightarrow> timeval \<Rightarrow> timeval option" where
  "timeval_sub t1 t2 = do {
     n \<leftarrow> fit (sint (tv_usec t1) - sint (tv_usec t2));
     s \<leftarrow> fit (sint (tval_sec t1) - sint (tval_sec t2));
     timeval_normalize (t1\<lparr>tval_sec := s, tv_usec := n\<rparr>)
   }"

definition timeval_nz :: "timeval \<Rightarrow> bool" where
  "timeval_nz t \<longleftrightarrow> tval_sec t \<noteq> 0 \<or> tv_usec t \<noteq> 0"

definition timeval_lt :: "timeval \<Rightarrow> timeval \<Rightarrow> bool" where
  "timeval_lt t1 t2 \<longleftrightarrow>
     sint (tval_sec t1) < sint (tval_sec t2) \<or> (tval_sec t1 = tval_sec t2 \<and> sint (tv_usec t1) < sint (tv_usec t2))"

definition timeval_gt :: "timeval \<Rightarrow> timeval \<Rightarrow> bool" where
  "timeval_gt t1 t2 \<longleftrightarrow> timeval_lt t2 t1"

definition timeval_ge :: "timeval \<Rightarrow> timeval \<Rightarrow> bool" where
  "timeval_ge t1 t2 \<longleftrightarrow> \<not> timeval_lt t1 t2"

definition timeval_le :: "timeval \<Rightarrow> timeval \<Rightarrow> bool" where
  "timeval_le t1 t2 \<longleftrightarrow> \<not> timeval_gt t1 t2"

definition timeval_eq :: "timeval \<Rightarrow> timeval \<Rightarrow> bool" where
  "timeval_eq t1 t2 \<longleftrightarrow> tval_sec t1 = tval_sec t2 \<and> tv_usec t1 = tv_usec t2"

subsection \<open>Specification: normal forms, what they count, and counts that no operation overflows on\<close>

definition ts_normal :: "timespec \<Rightarrow> bool" where
  "ts_normal t \<longleftrightarrow> 0 \<le> sint (tv_nsec t) \<and> sint (tv_nsec t) < NSEC_PER_SEC"

definition ts_nsecs :: "timespec \<Rightarrow> int" where
  "ts_nsecs t = sint (tv_sec t) * NSEC_PER_SEC + sint (tv_nsec t)"

definition ts_fits :: "int \<Rightarrow> bool" where
  "ts_fits u \<longleftrightarrow> (1 - 2 ^ 63) * NSEC_PER_SEC \<le> u \<and> u < (2 ^ 63 - 1) * NSEC_PER_SEC"

definition tval_normal :: "timeval \<Rightarrow> bool" where
  "tval_normal t \<longleftrightarrow> 0 \<le> sint (tv_usec t) \<and> sint (tv_usec t) < USEC_PER_SEC"

definition tval_usecs :: "timeval \<Rightarrow> int" where
  "tval_usecs t = sint (tval_sec t) * USEC_PER_SEC + sint (tv_usec t)"

definition tval_fits :: "int \<Rightarrow> bool" where
  "tval_fits u \<longleftrightarrow> (1 - 2 ^ 63) * USEC_PER_SEC \<le> u \<and> u < (2 ^ 63 - 1) * USEC_PER_SEC"

section \<open>The contract of a clock value\<close>

locale clock_arith =
  fixes normal :: "'t \<Rightarrow> bool"
    and units :: "'t \<Rightarrow> int"
    and fits :: "int \<Rightarrow> bool"
    and addu :: "'t \<Rightarrow> s64 \<Rightarrow> 't option"
    and add :: "'t \<Rightarrow> 't \<Rightarrow> 't option"
    and sub :: "'t \<Rightarrow> 't \<Rightarrow> 't option"
    and lt :: "'t \<Rightarrow> 't \<Rightarrow> bool"
    and eq :: "'t \<Rightarrow> 't \<Rightarrow> bool"
  assumes units_inj: "normal a \<Longrightarrow> normal b \<Longrightarrow> units a = units b \<Longrightarrow> a = b"
    and addu_ok: "normal a \<Longrightarrow> fits (units a + sint n) \<Longrightarrow> \<exists>c. addu a n = Some c \<and> normal c \<and> units c = units a + sint n"
    and add_ok: "normal a \<Longrightarrow> normal b \<Longrightarrow> fits (units a + units b) \<Longrightarrow> \<exists>c. add a b = Some c \<and> normal c \<and> units c = units a + units b"
    and sub_ok: "normal a \<Longrightarrow> normal b \<Longrightarrow> fits (units a - units b) \<Longrightarrow> \<exists>c. sub a b = Some c \<and> normal c \<and> units c = units a - units b"
    and lt_units: "normal a \<Longrightarrow> normal b \<Longrightarrow> lt a b \<longleftrightarrow> units a < units b"
    and eq_same: "eq a b \<longleftrightarrow> a = b"
begin

text \<open>The value an operation computes is determined by its count.\<close>

lemma addu_is: "normal a \<Longrightarrow> normal c \<Longrightarrow> fits (units c) \<Longrightarrow> units c = units a + sint n \<Longrightarrow> addu a n = Some c"
  by (metis addu_ok units_inj)

lemma add_is: "normal a \<Longrightarrow> normal b \<Longrightarrow> normal c \<Longrightarrow> fits (units c) \<Longrightarrow> units c = units a + units b \<Longrightarrow> add a b = Some c"
  by (metis add_ok units_inj)

lemma sub_is: "normal a \<Longrightarrow> normal b \<Longrightarrow> normal c \<Longrightarrow> fits (units c) \<Longrightarrow> units c = units a - units b \<Longrightarrow> sub a b = Some c"
  by (metis sub_ok units_inj)

lemma sub_add_cancel:
  assumes "normal a" "normal b" "fits (units a)" "fits (units a + units b)"
  shows "do { c \<leftarrow> add a b; sub c b } = Some a"
proof -
  obtain c where c: "add a b = Some c" "normal c" "units c = units a + units b" using add_ok assms by blast
  have "sub c b = Some a" by (rule sub_is) (simp_all add: c assms)
  then show ?thesis using c(1) by simp
qed

lemma add_sub_cancel:
  assumes "normal a" "normal b" "fits (units a)" "fits (units a - units b)"
  shows "do { c \<leftarrow> sub a b; add c b } = Some a"
proof -
  obtain c where c: "sub a b = Some c" "normal c" "units c = units a - units b" using sub_ok assms by blast
  have "add c b = Some a" by (rule add_is) (simp_all add: c assms)
  then show ?thesis using c(1) by simp
qed

lemma add_commute: "normal a \<Longrightarrow> normal b \<Longrightarrow> fits (units a + units b) \<Longrightarrow> add a b = add b a"
  using add_ok [of a b] add_is [of b a] by (auto simp: add.commute)

lemma lt_trichotomy:
  "normal a \<Longrightarrow> normal b \<Longrightarrow>
     (lt a b \<and> \<not> eq a b \<and> \<not> lt b a) \<or> (\<not> lt a b \<and> eq a b \<and> \<not> lt b a)
     \<or> (\<not> lt a b \<and> \<not> eq a b \<and> lt b a)"
  using lt_units units_inj by (fastforce simp: eq_same)

lemma addu_back:
  assumes "normal a" "fits (units a)" "fits (units a + sint n)" "sint m = - sint n"
  shows "do { c \<leftarrow> addu a n; addu c m } = Some a"
proof -
  obtain c where c: "addu a n = Some c" "normal c" "units c = units a + sint n" using addu_ok assms by blast
  have "addu c m = Some a" by (rule addu_is) (simp_all add: c assms)
  then show ?thesis using c(1) by simp
qed

lemma addu_addu:
  assumes "normal a" "fits (units a + sint m)" "fits (units a + sint m + sint n)" "sint k = sint m + sint n"
  shows "do { c \<leftarrow> addu a m; addu c n } = addu a k"
proof -
  obtain c where c: "addu a m = Some c" "normal c" "units c = units a + sint m" using addu_ok assms by blast
  obtain d where "addu c n = Some d" "normal d" "units d = units c + sint n" using addu_ok [of c n] c assms by auto
  then show ?thesis using addu_is [of a d k] c assms by (simp add: add.assoc)
qed

end

section \<open>Both families meet the contract\<close>

lemma smod_bounds: "0 < (b :: int) \<Longrightarrow> - b < a smod b \<and> a smod b < b"
  using smod_int_range [of b a] by auto

lemmas ts_defs = ts_normal_def ts_nsecs_def NSEC_PER_SEC_def timespec_normalize_def

lemma timespec_room:
  assumes "- NSEC_PER_SEC \<le> n" "n < 2 * NSEC_PER_SEC" "ts_fits (s * NSEC_PER_SEC + n)"
  shows "in_long s" "in_long n" "NSEC_PER_SEC \<le> n \<Longrightarrow> in_long (n - NSEC_PER_SEC) \<and> in_long (s + 1)" "n < 0 \<Longrightarrow> in_long (n + NSEC_PER_SEC) \<and> in_long (s - 1)"
  using assms by (simp_all add: ts_fits_def in_long_def NSEC_PER_SEC_def)

lemma timespec_normalize_ok:
  assumes "- NSEC_PER_SEC \<le> sint (tv_nsec t)" "sint (tv_nsec t) < 2 * NSEC_PER_SEC" "ts_fits (ts_nsecs t)"
  shows "\<exists>r. timespec_normalize t = Some r \<and> ts_normal r \<and> ts_nsecs r = ts_nsecs t"
proof -
  note l = timespec_room [OF assms(1,2) assms(3) [unfolded ts_nsecs_def]]
  consider "NSEC_PER_SEC \<le> sint (tv_nsec t)" | "sint (tv_nsec t) < 0" | "0 \<le> sint (tv_nsec t)" "sint (tv_nsec t) < NSEC_PER_SEC" by linarith
  then show ?thesis
  proof cases
    case 1
    then obtain n s :: s64 where "fit (sint (tv_nsec t) - NSEC_PER_SEC) = Some n" "sint n = sint (tv_nsec t) - NSEC_PER_SEC"
        "fit (sint (tv_sec t) + 1) = Some s" "sint s = sint (tv_sec t) + 1"
      using l(3) fit_long by blast
    then show ?thesis using 1 assms(2) by (simp add: timespec_normalize_def ts_normal_def ts_nsecs_def distrib_right)
  next
    case 2
    then obtain n s :: s64 where "fit (sint (tv_nsec t) + NSEC_PER_SEC) = Some n" "sint n = sint (tv_nsec t) + NSEC_PER_SEC"
        "fit (sint (tv_sec t) - 1) = Some s" "sint s = sint (tv_sec t) - 1"
      using l(4) fit_long by blast
    moreover have "\<not> NSEC_PER_SEC \<le> sint (tv_nsec t)" using 2 by (simp add: NSEC_PER_SEC_def)
    ultimately show ?thesis using 2 assms(1) by (simp add: timespec_normalize_def ts_normal_def ts_nsecs_def left_diff_distrib)
  next
    case 3
    then show ?thesis by (simp add: timespec_normalize_def ts_normal_def)
  qed
qed

text \<open>All three operations compute the two fields and normalise them.\<close>

lemma timespec_compute_ok:
  assumes "- NSEC_PER_SEC \<le> n" "n < 2 * NSEC_PER_SEC" "s * NSEC_PER_SEC + n = u" "ts_fits u"
  shows "\<exists>ws wn c. fit s = Some ws \<and> fit n = Some wn \<and> timespec_normalize (t\<lparr>tv_sec := ws, tv_nsec := wn\<rparr>) = Some c
     \<and> ts_normal c \<and> ts_nsecs c = u"
proof -
  have "in_long s" "in_long n" using timespec_room(1,2) assms by blast+
  then obtain ws wn :: s64 where w: "fit s = Some ws" "sint ws = s" "fit n = Some wn" "sint wn = n"
    using fit_long by blast
  then have "ts_nsecs (t\<lparr>tv_sec := ws, tv_nsec := wn\<rparr>) = u" using assms(3) by (simp add: ts_nsecs_def)
  then show ?thesis using timespec_normalize_ok [of "t\<lparr>tv_sec := ws, tv_nsec := wn\<rparr>"] w assms by auto
qed

lemma timespec_add_nsec_ok:
  assumes "ts_normal a" "ts_fits (ts_nsecs a + sint n)"
  shows "\<exists>c. timespec_add_nsec a n = Some c \<and> ts_normal c \<and> ts_nsecs c = ts_nsecs a + sint n"
proof -
  let ?s = "sint (tv_sec a) + sint n sdiv NSEC_PER_SEC" and ?n = "sint (tv_nsec a) + sint n smod NSEC_PER_SEC"
  have "- NSEC_PER_SEC < sint n smod NSEC_PER_SEC \<and> sint n smod NSEC_PER_SEC < NSEC_PER_SEC"
    by (rule smod_bounds) (simp add: NSEC_PER_SEC_def)
  then have "- NSEC_PER_SEC \<le> ?n" "?n < 2 * NSEC_PER_SEC" using assms(1) by (auto simp: ts_normal_def)
  moreover have "?s * NSEC_PER_SEC + ?n = ts_nsecs a + sint n"
    using sdiv_mult_smod_eq [of "sint n" NSEC_PER_SEC] by (simp add: ts_nsecs_def distrib_right)
  ultimately show ?thesis
    unfolding timespec_add_nsec_def using timespec_compute_ok [OF _ _ _ assms(2)] by fastforce
qed

lemma timespec_add_ok:
  assumes "ts_normal a" "ts_normal b" "ts_fits (ts_nsecs a + ts_nsecs b)"
  shows "\<exists>c. timespec_add a b = Some c \<and> ts_normal c \<and> ts_nsecs c = ts_nsecs a + ts_nsecs b"
proof -
  let ?s = "sint (tv_sec a) + sint (tv_sec b)" and ?n = "sint (tv_nsec a) + sint (tv_nsec b)"
  have "- NSEC_PER_SEC \<le> ?n" "?n < 2 * NSEC_PER_SEC" using assms(1,2) by (auto simp: ts_normal_def)
  moreover have "?s * NSEC_PER_SEC + ?n = ts_nsecs a + ts_nsecs b" by (simp add: ts_nsecs_def distrib_right)
  ultimately show ?thesis
    unfolding timespec_add_def using timespec_compute_ok [OF _ _ _ assms(3)] by fastforce
qed

lemma timespec_sub_ok:
  assumes "ts_normal a" "ts_normal b" "ts_fits (ts_nsecs a - ts_nsecs b)"
  shows "\<exists>c. timespec_sub a b = Some c \<and> ts_normal c \<and> ts_nsecs c = ts_nsecs a - ts_nsecs b"
proof -
  let ?s = "sint (tv_sec a) - sint (tv_sec b)" and ?n = "sint (tv_nsec a) - sint (tv_nsec b)"
  have "- NSEC_PER_SEC \<le> ?n" "?n < 2 * NSEC_PER_SEC" using assms(1,2) by (auto simp: ts_normal_def)
  moreover have "?s * NSEC_PER_SEC + ?n = ts_nsecs a - ts_nsecs b" by (simp add: ts_nsecs_def left_diff_distrib)
  ultimately show ?thesis
    unfolding timespec_sub_def using timespec_compute_ok [OF _ _ _ assms(3)] by fastforce
qed

lemma timespec_overflow:
  "\<not> in_long (sint (tv_sec a) + sint (tv_sec b)) \<Longrightarrow> timespec_add a b = None"
  "\<not> in_long (sint (tv_sec a) - sint (tv_sec b)) \<Longrightarrow> timespec_sub a b = None"
  by (simp_all add: timespec_add_def timespec_sub_def fit_64)

lemma ts_nsecs_inj:
  assumes "ts_normal a" "ts_normal b" "ts_nsecs a = ts_nsecs b"
  shows "a = b"
  using assms mixed_radix_unique [of "sint (tv_sec a)" NSEC_PER_SEC "sint (tv_nsec a)" "sint (tv_sec b)" "sint (tv_nsec b)"]
  by (intro timespec.equality) (simp_all add: ts_normal_def ts_nsecs_def sint_inj)

lemma timespec_lt_units:
  assumes "ts_normal a" "ts_normal b"
  shows "timespec_lt a b \<longleftrightarrow> ts_nsecs a < ts_nsecs b"
  using assms by (auto simp: timespec_lt_def ts_normal_def ts_nsecs_def NSEC_PER_SEC_def simp flip: sint_inj)

interpretation ts: clock_arith ts_normal ts_nsecs ts_fits timespec_add_nsec timespec_add timespec_sub timespec_lt timespec_eq
  by unfold_locales
    (use timespec_add_nsec_ok timespec_add_ok timespec_sub_ok timespec_lt_units ts_nsecs_inj in \<open>auto simp: timespec_eq_def\<close>)

lemmas tval_defs = tval_normal_def tval_usecs_def USEC_PER_SEC_def timeval_normalize_def

lemma timeval_room:
  assumes "- USEC_PER_SEC \<le> n" "n < 2 * USEC_PER_SEC" "tval_fits (s * USEC_PER_SEC + n)"
  shows "in_long s" "in_long n" "USEC_PER_SEC \<le> n \<Longrightarrow> in_long (n - USEC_PER_SEC) \<and> in_long (s + 1)" "n < 0 \<Longrightarrow> in_long (n + USEC_PER_SEC) \<and> in_long (s - 1)"
  using assms by (simp_all add: tval_fits_def in_long_def USEC_PER_SEC_def)

lemma timeval_normalize_ok:
  assumes "- USEC_PER_SEC \<le> sint (tv_usec t)" "sint (tv_usec t) < 2 * USEC_PER_SEC" "tval_fits (tval_usecs t)"
  shows "\<exists>r. timeval_normalize t = Some r \<and> tval_normal r \<and> tval_usecs r = tval_usecs t"
proof -
  note l = timeval_room [OF assms(1,2) assms(3) [unfolded tval_usecs_def]]
  consider "USEC_PER_SEC \<le> sint (tv_usec t)" | "sint (tv_usec t) < 0" | "0 \<le> sint (tv_usec t)" "sint (tv_usec t) < USEC_PER_SEC" by linarith
  then show ?thesis
  proof cases
    case 1
    then obtain n s :: s64 where "fit (sint (tv_usec t) - USEC_PER_SEC) = Some n" "sint n = sint (tv_usec t) - USEC_PER_SEC"
        "fit (sint (tval_sec t) + 1) = Some s" "sint s = sint (tval_sec t) + 1"
      using l(3) fit_long by blast
    then show ?thesis using 1 assms(2) by (simp add: timeval_normalize_def tval_normal_def tval_usecs_def distrib_right)
  next
    case 2
    then obtain n s :: s64 where "fit (sint (tv_usec t) + USEC_PER_SEC) = Some n" "sint n = sint (tv_usec t) + USEC_PER_SEC"
        "fit (sint (tval_sec t) - 1) = Some s" "sint s = sint (tval_sec t) - 1"
      using l(4) fit_long by blast
    moreover have "\<not> USEC_PER_SEC \<le> sint (tv_usec t)" using 2 by (simp add: USEC_PER_SEC_def)
    ultimately show ?thesis using 2 assms(1) by (simp add: timeval_normalize_def tval_normal_def tval_usecs_def left_diff_distrib)
  next
    case 3
    then show ?thesis by (simp add: timeval_normalize_def tval_normal_def)
  qed
qed

text \<open>All three operations compute the two fields and normalise them.\<close>

lemma timeval_compute_ok:
  assumes "- USEC_PER_SEC \<le> n" "n < 2 * USEC_PER_SEC" "s * USEC_PER_SEC + n = u" "tval_fits u"
  shows "\<exists>ws wn c. fit s = Some ws \<and> fit n = Some wn \<and> timeval_normalize (t\<lparr>tval_sec := ws, tv_usec := wn\<rparr>) = Some c
     \<and> tval_normal c \<and> tval_usecs c = u"
proof -
  have "in_long s" "in_long n" using timeval_room(1,2) assms by blast+
  then obtain ws wn :: s64 where w: "fit s = Some ws" "sint ws = s" "fit n = Some wn" "sint wn = n"
    using fit_long by blast
  then have "tval_usecs (t\<lparr>tval_sec := ws, tv_usec := wn\<rparr>) = u" using assms(3) by (simp add: tval_usecs_def)
  then show ?thesis using timeval_normalize_ok [of "t\<lparr>tval_sec := ws, tv_usec := wn\<rparr>"] w assms by auto
qed

lemma timeval_add_usec_ok:
  assumes "tval_normal a" "tval_fits (tval_usecs a + sint n)"
  shows "\<exists>c. timeval_add_usec a n = Some c \<and> tval_normal c \<and> tval_usecs c = tval_usecs a + sint n"
proof -
  let ?s = "sint (tval_sec a) + sint n sdiv USEC_PER_SEC" and ?n = "sint (tv_usec a) + sint n smod USEC_PER_SEC"
  have "- USEC_PER_SEC < sint n smod USEC_PER_SEC \<and> sint n smod USEC_PER_SEC < USEC_PER_SEC"
    by (rule smod_bounds) (simp add: USEC_PER_SEC_def)
  then have "- USEC_PER_SEC \<le> ?n" "?n < 2 * USEC_PER_SEC" using assms(1) by (auto simp: tval_normal_def)
  moreover have "?s * USEC_PER_SEC + ?n = tval_usecs a + sint n"
    using sdiv_mult_smod_eq [of "sint n" USEC_PER_SEC] by (simp add: tval_usecs_def distrib_right)
  ultimately show ?thesis
    unfolding timeval_add_usec_def using timeval_compute_ok [OF _ _ _ assms(2)] by fastforce
qed

lemma timeval_add_ok:
  assumes "tval_normal a" "tval_normal b" "tval_fits (tval_usecs a + tval_usecs b)"
  shows "\<exists>c. timeval_add a b = Some c \<and> tval_normal c \<and> tval_usecs c = tval_usecs a + tval_usecs b"
proof -
  let ?s = "sint (tval_sec a) + sint (tval_sec b)" and ?n = "sint (tv_usec a) + sint (tv_usec b)"
  have "- USEC_PER_SEC \<le> ?n" "?n < 2 * USEC_PER_SEC" using assms(1,2) by (auto simp: tval_normal_def)
  moreover have "?s * USEC_PER_SEC + ?n = tval_usecs a + tval_usecs b" by (simp add: tval_usecs_def distrib_right)
  ultimately show ?thesis
    unfolding timeval_add_def using timeval_compute_ok [OF _ _ _ assms(3)] by fastforce
qed

lemma timeval_sub_ok:
  assumes "tval_normal a" "tval_normal b" "tval_fits (tval_usecs a - tval_usecs b)"
  shows "\<exists>c. timeval_sub a b = Some c \<and> tval_normal c \<and> tval_usecs c = tval_usecs a - tval_usecs b"
proof -
  let ?s = "sint (tval_sec a) - sint (tval_sec b)" and ?n = "sint (tv_usec a) - sint (tv_usec b)"
  have "- USEC_PER_SEC \<le> ?n" "?n < 2 * USEC_PER_SEC" using assms(1,2) by (auto simp: tval_normal_def)
  moreover have "?s * USEC_PER_SEC + ?n = tval_usecs a - tval_usecs b" by (simp add: tval_usecs_def left_diff_distrib)
  ultimately show ?thesis
    unfolding timeval_sub_def using timeval_compute_ok [OF _ _ _ assms(3)] by fastforce
qed

lemma timeval_overflow:
  "\<not> in_long (sint (tval_sec a) + sint (tval_sec b)) \<Longrightarrow> timeval_add a b = None"
  "\<not> in_long (sint (tval_sec a) - sint (tval_sec b)) \<Longrightarrow> timeval_sub a b = None"
  by (simp_all add: timeval_add_def timeval_sub_def fit_64)

lemma tval_usecs_inj:
  assumes "tval_normal a" "tval_normal b" "tval_usecs a = tval_usecs b"
  shows "a = b"
  using assms mixed_radix_unique [of "sint (tval_sec a)" USEC_PER_SEC "sint (tv_usec a)" "sint (tval_sec b)" "sint (tv_usec b)"]
  by (intro timeval.equality) (simp_all add: tval_normal_def tval_usecs_def sint_inj)

lemma timeval_lt_units:
  assumes "tval_normal a" "tval_normal b"
  shows "timeval_lt a b \<longleftrightarrow> tval_usecs a < tval_usecs b"
  using assms by (auto simp: timeval_lt_def tval_normal_def tval_usecs_def USEC_PER_SEC_def simp flip: sint_inj)

interpretation tv: clock_arith tval_normal tval_usecs tval_fits timeval_add_usec timeval_add timeval_sub timeval_lt timeval_eq
  by unfold_locales
    (use timeval_add_usec_ok timeval_add_ok timeval_sub_ok timeval_lt_units tval_usecs_inj in \<open>auto simp: timeval_eq_def\<close>)

lemma timeval_sub_usec_ok:
  assumes "tval_normal a" "tval_fits (tval_usecs a - sint n)"
  shows "\<exists>c. timeval_sub_usec a n = Some c \<and> tval_normal c \<and> tval_usecs c = tval_usecs a - sint n"
proof -
  let ?s = "sint (tval_sec a) - sint n sdiv USEC_PER_SEC" and ?n = "sint (tv_usec a) - sint n smod USEC_PER_SEC"
  have "- USEC_PER_SEC < sint n smod USEC_PER_SEC \<and> sint n smod USEC_PER_SEC < USEC_PER_SEC"
    by (rule smod_bounds) (simp add: USEC_PER_SEC_def)
  then have "- USEC_PER_SEC \<le> ?n" "?n < 2 * USEC_PER_SEC" using assms(1) by (auto simp: tval_normal_def)
  moreover have "?s * USEC_PER_SEC + ?n = tval_usecs a - sint n"
    using sdiv_mult_smod_eq [of "sint n" USEC_PER_SEC] by (simp add: tval_usecs_def left_diff_distrib)
  ultimately show ?thesis
    unfolding timeval_sub_usec_def using timeval_compute_ok [OF _ _ _ assms(2)] by fastforce
qed

section \<open>Properties\<close>

text \<open>
  \<open>timespec_add_nsec\<close> is exact for every \<^verbatim>\<open>long\<close> number of nanoseconds whose sum with the value can be counted: the result is in
  normal form, its distance from the argument is the number added, it is later exactly when the number is positive, and adding the
  opposite number gives the argument back.
\<close>

theorem timespec_add_nsec_exact:
  assumes "ts_normal t" "ts_fits (ts_nsecs t + sint n)"
  shows "\<exists>c. timespec_add_nsec t n = Some c \<and> ts_normal c \<and> ts_nsecs c = ts_nsecs t + sint n
    \<and> (timespec_lt t c \<longleftrightarrow> 0 < sint n)
    \<and> (ts_fits (ts_nsecs t) \<and> sint m = - sint n \<longrightarrow> timespec_add_nsec c m = Some t)"
proof -
  obtain c where c: "timespec_add_nsec t n = Some c" "ts_normal c" "ts_nsecs c = ts_nsecs t + sint n"
    using timespec_add_nsec_ok assms by blast
  moreover have "timespec_lt t c \<longleftrightarrow> 0 < sint n" using ts.lt_units [OF assms(1) c(2)] c(3) by simp
  moreover have "timespec_add_nsec c m = Some t" if "ts_fits (ts_nsecs t)" "sint m = - sint n"
    by (rule ts.addu_is) (simp_all add: c assms that)
  ultimately show ?thesis by blast
qed

theorem timespec_add_nsec_exact_witness:
  "\<exists>c. timespec_add_nsec \<lparr>tv_sec = 5, tv_nsec = 1\<rparr> (-1500000000) = Some c \<and> ts_nsecs c = 3500000001
     \<and> timespec_add_nsec c 1500000000 = Some \<lparr>tv_sec = 5, tv_nsec = 1\<rparr>"
proof -
  have "ts_normal \<lparr>tv_sec = 5, tv_nsec = 1\<rparr>" "ts_fits (ts_nsecs \<lparr>tv_sec = 5, tv_nsec = 1\<rparr> + sint (-1500000000 :: s64))"
    by (simp_all add: ts_defs ts_fits_def)
  from timespec_add_nsec_exact [OF this, of 1500000000] show ?thesis by (auto simp: ts_defs ts_fits_def)
qed

text \<open>
  C36: On values in normal form the comparison macros are the comparisons of the counted nanoseconds. A difference that can be counted is
  exact and in normal form, and its seconds are negative exactly when the first operand is the earlier one; \<open>timespec_add\<close> and \<open>timespec_sub\<close> undo each
  other then. If the sum or the difference of the seconds is not a \<^verbatim>\<open>long\<close>, the macro overflows.
\<close>

theorem timespec_sub_order:
  assumes "ts_normal a" "ts_normal b"
  shows "(timespec_lt a b \<longleftrightarrow> ts_nsecs a < ts_nsecs b)
    \<and> (timespec_gt a b \<longleftrightarrow> ts_nsecs a > ts_nsecs b)
    \<and> (timespec_le a b \<longleftrightarrow> ts_nsecs a \<le> ts_nsecs b)
    \<and> (timespec_ge a b \<longleftrightarrow> ts_nsecs a \<ge> ts_nsecs b)
    \<and> (timespec_eq a b \<longleftrightarrow> ts_nsecs a = ts_nsecs b)
    \<and> (ts_fits (ts_nsecs a - ts_nsecs b) \<longrightarrow> (\<exists>c. timespec_sub a b = Some c \<and> ts_normal c
         \<and> ts_nsecs c = ts_nsecs a - ts_nsecs b \<and> (sint (tv_sec c) < 0 \<longleftrightarrow> timespec_lt a b)))
    \<and> (ts_fits (ts_nsecs a) \<and> ts_fits (ts_nsecs a + ts_nsecs b) \<longrightarrow> do { c \<leftarrow> timespec_add a b; timespec_sub c b } = Some a)
    \<and> (ts_fits (ts_nsecs a) \<and> ts_fits (ts_nsecs a - ts_nsecs b) \<longrightarrow> do { c \<leftarrow> timespec_sub a b; timespec_add c b } = Some a)
    \<and> (\<not> in_long (sint (tv_sec a) + sint (tv_sec b)) \<longrightarrow> timespec_add a b = None)
    \<and> (\<not> in_long (sint (tv_sec a) - sint (tv_sec b)) \<longrightarrow> timespec_sub a b = None)"
proof -
  have "sint (tv_sec c) < 0 \<longleftrightarrow> ts_nsecs c < 0" if "ts_normal c" for c
    using that by (auto simp: ts_normal_def ts_nsecs_def NSEC_PER_SEC_def)
  then have "ts_fits (ts_nsecs a - ts_nsecs b) \<longrightarrow> (\<exists>c. timespec_sub a b = Some c \<and> ts_normal c
         \<and> ts_nsecs c = ts_nsecs a - ts_nsecs b \<and> (sint (tv_sec c) < 0 \<longleftrightarrow> timespec_lt a b))"
    using ts.sub_ok [OF assms] ts.lt_units [OF assms] by fastforce
  moreover have "timespec_eq a b \<longleftrightarrow> ts_nsecs a = ts_nsecs b" using ts.units_inj [OF assms] by (auto simp: ts.eq_same)
  ultimately show ?thesis
    using ts.lt_units assms ts.sub_add_cancel [OF assms] ts.add_sub_cancel [OF assms] timespec_overflow [of a b]
    by (simp add: timespec_gt_def timespec_le_def timespec_ge_def not_less)
qed

theorem timespec_sub_order_witness:
  "(\<exists>c. timespec_sub \<lparr>tv_sec = 1, tv_nsec = 999999999\<rparr> \<lparr>tv_sec = 2, tv_nsec = 0\<rparr> = Some c \<and> sint (tv_sec c) < 0 \<and> ts_nsecs c = -1)
   \<and> timespec_sub \<lparr>tv_sec = -2, tv_nsec = 0\<rparr> \<lparr>tv_sec = 0x7FFFFFFFFFFFFFFF, tv_nsec = 0\<rparr> = None"
proof -
  have n: "ts_normal \<lparr>tv_sec = 1, tv_nsec = 999999999\<rparr>" "ts_normal \<lparr>tv_sec = 2, tv_nsec = 0\<rparr>"
      "ts_normal \<lparr>tv_sec = -2, tv_nsec = 0\<rparr>" "ts_normal \<lparr>tv_sec = 0x7FFFFFFFFFFFFFFF, tv_nsec = 0\<rparr>"
    by (simp_all add: ts_normal_def NSEC_PER_SEC_def)
  show ?thesis
    using timespec_sub_order [OF n(1,2)] timespec_sub_order [OF n(3,4)]
    by (auto simp: timespec_lt_def ts_fits_def ts_nsecs_def NSEC_PER_SEC_def in_long_def)
qed

text \<open>
  The \<^verbatim>\<open>timeval\<close> macros are exact in the same sense: adding or subtracting a number of microseconds keeps the normal form and moves the
  count by that number, if the result can be counted, the two undo each other, and the order macros compare the counts.
\<close>

theorem timeval_arith_exact:
  assumes "tval_normal a" "tval_normal b" "tval_fits (tval_usecs a)"
  shows "(tval_fits (tval_usecs a + sint n) \<longrightarrow> (\<exists>c. timeval_add_usec a n = Some c \<and> tval_normal c
         \<and> tval_usecs c = tval_usecs a + sint n \<and> timeval_sub_usec c n = Some a))
    \<and> (tval_fits (tval_usecs a - sint n) \<longrightarrow> (\<exists>c. timeval_sub_usec a n = Some c \<and> tval_normal c \<and> tval_usecs c = tval_usecs a - sint n))
    \<and> (tval_fits (tval_usecs a + tval_usecs b) \<longrightarrow> do { c \<leftarrow> timeval_add a b; timeval_sub c b } = Some a)
    \<and> (timeval_lt a b \<longleftrightarrow> tval_usecs a < tval_usecs b)
    \<and> (timeval_gt a b \<longleftrightarrow> tval_usecs a > tval_usecs b)
    \<and> (timeval_le a b \<longleftrightarrow> tval_usecs a \<le> tval_usecs b)
    \<and> (timeval_ge a b \<longleftrightarrow> tval_usecs a \<ge> tval_usecs b)
    \<and> (timeval_nz a \<longleftrightarrow> tval_usecs a \<noteq> 0)"
proof -
  have "timeval_sub_usec c n = Some a" if c: "tval_normal c" "tval_usecs c = tval_usecs a + sint n" for c
  proof -
    have "tval_fits (tval_usecs c - sint n)" using c(2) assms(3) by simp
    then obtain d where "timeval_sub_usec c n = Some d" "tval_normal d" "tval_usecs d = tval_usecs a"
      using timeval_sub_usec_ok [OF c(1), of n] c(2) by auto
    then show ?thesis using tval_usecs_inj assms(1) by blast
  qed
  then have "tval_fits (tval_usecs a + sint n) \<longrightarrow> (\<exists>c. timeval_add_usec a n = Some c \<and> tval_normal c
         \<and> tval_usecs c = tval_usecs a + sint n \<and> timeval_sub_usec c n = Some a)"
    using tv.addu_ok [OF assms(1)] by blast
  moreover have "timeval_nz a \<longleftrightarrow> tval_usecs a \<noteq> 0"
  proof -
    have z: "\<lparr>tval_sec = 0, tv_usec = 0\<rparr> = a \<longleftrightarrow> \<not> timeval_nz a" by (cases a) (auto simp: timeval_nz_def)
    have "tval_normal \<lparr>tval_sec = 0, tv_usec = 0\<rparr>" "tval_usecs \<lparr>tval_sec = 0, tv_usec = 0\<rparr> = 0" by (simp_all add: tval_defs)
    then show ?thesis using tval_usecs_inj assms(1) z by metis
  qed
  ultimately show ?thesis
    using tv.lt_units assms tv.sub_add_cancel [OF assms] timeval_sub_usec_ok [OF assms(1)]
    by (simp add: timeval_gt_def timeval_le_def timeval_ge_def not_less)
qed

theorem timeval_arith_exact_witness:
  "\<exists>c. timeval_sub_usec \<lparr>tval_sec = 2, tv_usec = 0\<rparr> 1 = Some c \<and> tval_usecs c = 1999999"
proof -
  have n: "tval_normal \<lparr>tval_sec = 2, tv_usec = 0\<rparr>" "tval_fits (tval_usecs \<lparr>tval_sec = 2, tv_usec = 0\<rparr>)"
    by (simp_all add: tval_defs tval_fits_def)
  show ?thesis
    using timeval_arith_exact [OF n(1) n(1) n(2), of 1] by (auto simp: tval_defs tval_fits_def)
qed

end
