(* ===== verification/Ckit_Atomic.thy ===== *)
theory Ckit_Atomic
  imports Ckit_Prelude
begin

text \<open>
  \<^verbatim>\<open>include/ckit/atomic.h\<close>: an atomic counter on a 32-bit \<^verbatim>\<open>int\<close>. The \<^verbatim>\<open>__sync\<close> builtins wrap
  around and return the new value. Each operation is one indivisible step, so what several
  threads do to a counter is a sequence of operations; \<open>run_atomic\<close> executes one.

  The counters of the library are reference counts (hash table, hash elements, packet buffers)
  and the number of threads waiting on a signal. The locale \<open>refcount\<close> is what the owners of a
  count rely on.
\<close>

section \<open>Definitions\<close>

record atomic_t =
  at_value :: u32

definition atomic_set :: "atomic_t \<Rightarrow> u32 \<Rightarrow> atomic_t" where
  "atomic_set a val = a\<lparr>at_value := val\<rparr>"

definition atomic_inc :: "atomic_t \<Rightarrow> u32 \<times> atomic_t" where
  "atomic_inc a = (at_value a + 1, a\<lparr>at_value := at_value a + 1\<rparr>)"

definition atomic_dec :: "atomic_t \<Rightarrow> u32 \<times> atomic_t" where
  "atomic_dec a = (at_value a - 1, a\<lparr>at_value := at_value a - 1\<rparr>)"

text \<open>The value as a C \<^verbatim>\<open>int\<close>.\<close>

definition atomic_read :: "atomic_t \<Rightarrow> int" where
  "atomic_read a = sint (at_value a)"

definition atomic_dec_and_test :: "atomic_t \<Rightarrow> bool \<times> atomic_t" where
  "atomic_dec_and_test a = (let (v, a') = atomic_dec a in (v = 0, a'))"

subsection \<open>Sequences of operations\<close>

datatype atomic_op = Inc | Dec_test

fun atomic_step :: "atomic_op \<Rightarrow> atomic_t \<Rightarrow> bool \<times> atomic_t" where
  "atomic_step Inc a = (False, snd (atomic_inc a))"
| "atomic_step Dec_test a = atomic_dec_and_test a"

text \<open>The results of the operations in order, and the counter at the end.\<close>

fun run_atomic :: "atomic_op list \<Rightarrow> atomic_t \<Rightarrow> bool list \<times> atomic_t" where
  "run_atomic [] a = ([], a)"
| "run_atomic (x # xs) a =
     (let (b, a') = atomic_step x a; (bs, a'') = run_atomic xs a' in (b # bs, a''))"

text \<open>The number of references that \<open>xs\<close> leaves of \<open>n\<close>; \<open>within n xs\<close>: \<open>xs\<close> drops no reference it does not hold.\<close>

fun refs :: "nat \<Rightarrow> atomic_op list \<Rightarrow> nat" where
  "refs n [] = n"
| "refs n (Inc # xs) = refs (n + 1) xs"
| "refs n (Dec_test # xs) = refs (n - 1) xs"

fun within :: "nat \<Rightarrow> atomic_op list \<Rightarrow> bool" where
  "within n [] \<longleftrightarrow> True"
| "within n (Inc # xs) \<longleftrightarrow> 0 < n \<and> n + 1 < 2 ^ 31 \<and> within (n + 1) xs"
| "within n (Dec_test # xs) \<longleftrightarrow> 0 < n \<and> within (n - 1) xs"

section \<open>Reference counts\<close>

definition counts :: "atomic_t \<Rightarrow> nat \<Rightarrow> bool" where
  "counts a n \<longleftrightarrow> unat (at_value a) = n \<and> n < 2 ^ 31"

locale refcount =
  fixes holds :: "'c \<Rightarrow> nat \<Rightarrow> bool" and acquire :: "'c \<Rightarrow> 'c" and release :: "'c \<Rightarrow> bool \<times> 'c"
  assumes acquire_holds: "holds c n \<Longrightarrow> 0 < n \<Longrightarrow> n + 1 < 2 ^ 31 \<Longrightarrow> holds (acquire c) (n + 1)"
    and release_holds: "holds c n \<Longrightarrow> 0 < n \<Longrightarrow> holds (snd (release c)) (n - 1)"
    and release_last: "holds c n \<Longrightarrow> 0 < n \<Longrightarrow> fst (release c) \<longleftrightarrow> n = 1"
begin

lemma acquire_release: "holds c n \<Longrightarrow> 0 < n \<Longrightarrow> n + 1 < 2 ^ 31 \<Longrightarrow>
    \<not> fst (release (acquire c)) \<and> holds (snd (release (acquire c))) n"
  using acquire_holds [of c n] release_holds [of "acquire c" "n + 1"] release_last [of "acquire c" "n + 1"] by simp

end

lemma counts_read: "counts a n \<Longrightarrow> atomic_read a = int n"
  by (auto simp: counts_def atomic_read_def sint_small)

interpretation rc: refcount counts "\<lambda>a. snd (atomic_inc a)" atomic_dec_and_test
proof (unfold_locales, goal_cases)
  case (1 c n)
  then show ?case by (auto simp: counts_def atomic_inc_def unat_plus1_32)
next
  case (2 c n)
  then show ?case
    by (auto simp: counts_def atomic_dec_and_test_def atomic_dec_def unat_minus1_32)
next
  case (3 c n)
  then have "unat (at_value c - 1) = n - 1"
    by (auto simp: counts_def unat_minus1_32)
  then show ?case
    using 3 by (auto simp: counts_def atomic_dec_and_test_def atomic_dec_def word_unat_eq_iff)
qed

lemma all_less_Suc_split: "(\<forall>i < Suc n. P i) \<longleftrightarrow> P 0 \<and> (\<forall>i < n. P (Suc i))"
  using less_Suc_eq_0_disj by auto

lemma run_atomic_Cons:
  "fst (run_atomic (x # xs) a) = fst (atomic_step x a) # fst (run_atomic xs (snd (atomic_step x a)))"
  "snd (run_atomic (x # xs) a) = snd (run_atomic xs (snd (atomic_step x a)))"
  by (simp_all add: Let_def case_prod_beta)

lemma run_atomic_counts:
  "counts a n \<Longrightarrow> within n xs \<Longrightarrow> counts (snd (run_atomic xs a)) (refs n xs)
     \<and> (\<forall>i < length xs. fst (run_atomic xs a) ! i \<longleftrightarrow> xs ! i = Dec_test \<and> refs n (take (i + 1) xs) = 0)"
proof (induction n xs arbitrary: a rule: refs.induct)
  case (1 n)
  then show ?case by simp
next
  case (2 n xs)
  then have "counts (snd (atomic_inc a)) (n + 1)" using rc.acquire_holds by auto
  note IH = "2.IH" [OF this]
  show ?case
    using IH "2.prems"(2) by (simp del: run_atomic.simps add: run_atomic_Cons all_less_Suc_split)
next
  case (3 n xs)
  then have d: "counts (snd (atomic_dec_and_test a)) (n - 1)" "fst (atomic_dec_and_test a) \<longleftrightarrow> n = 1" "0 < n"
    using rc.release_holds rc.release_last by auto
  note IH = "3.IH" [OF d(1)]
  show ?case
    using IH d(2,3) "3.prems"(2)
    by (simp del: run_atomic.simps add: run_atomic_Cons all_less_Suc_split) linarith
qed

lemma refs_zero: "within n xs \<Longrightarrow> refs n (take i xs) = 0 \<Longrightarrow> i \<le> length xs \<Longrightarrow> i = length xs"
proof (induction n xs arbitrary: i rule: refs.induct)
  case (1 n)
  then show ?case by simp
next
  case (2 n xs)
  then show ?case using "2.IH" [of "i - 1"] by (cases i) auto
next
  case (3 n xs)
  then show ?case using "3.IH" [of "i - 1"] by (cases i) auto
qed

section \<open>Properties\<close>

text \<open>
  Reference counting on the atomic counter is exact: whatever the interleaving of increments and
  \<open>atomic_dec_and_test\<close> by threads that hold a reference, the counter reads the number of references
  left, and a decrement reports zero exactly if it drops the last reference, which at most the
  last operation of the sequence does.
\<close>

theorem atomic_refcount_exact:
  assumes "unat (at_value a) = n" "n < 2 ^ 31" "within n xs"
  shows "atomic_read (snd (run_atomic xs a)) = int (refs n xs)
     \<and> (\<forall>i < length xs. fst (run_atomic xs a) ! i \<longleftrightarrow> i + 1 = length xs \<and> xs ! i = Dec_test \<and> refs n xs = 0)"
proof -
  have "counts a n" using assms by (simp add: counts_def)
  then have r: "counts (snd (run_atomic xs a)) (refs n xs)"
      "\<forall>i < length xs. fst (run_atomic xs a) ! i \<longleftrightarrow> xs ! i = Dec_test \<and> refs n (take (i + 1) xs) = 0"
    using run_atomic_counts assms(3) by auto
  have "refs n (take (i + 1) xs) = 0 \<longleftrightarrow> i + 1 = length xs \<and> refs n xs = 0" if "i < length xs" for i
    using refs_zero [OF assms(3), of "i + 1"] that by auto
  then show ?thesis using r counts_read by auto
qed

theorem atomic_refcount_exact_witness:
  "fst (run_atomic [Inc, Dec_test, Dec_test] \<lparr>at_value = 1\<rparr>) ! 2
     \<and> \<not> fst (run_atomic [Inc, Dec_test, Dec_test] \<lparr>at_value = 1\<rparr>) ! 1"
  using atomic_refcount_exact [of "\<lparr>at_value = 1\<rparr>" 1 "[Inc, Dec_test, Dec_test]"]
  by (simp add: all_less_Suc_split del: run_atomic.simps) (simp add: numeral_2_eq_2 del: run_atomic.simps)

end
