(* ===== verification/Ckit_Signal.thy ===== *)
theory Ckit_Signal
  imports Ckit_Atomic
begin

text \<open>
  \<^verbatim>\<open>src/signal.c\<close> and \<^verbatim>\<open>include/ckit/signal.h\<close>: a signal is a pipe whose read end does not block. The
  descriptors' kernel object is modelled beside the struct: the values in flight (every read and
  write moves one \<^verbatim>\<open>int\<close>, which is below \<^verbatim>\<open>PIPE_BUF\<close> and therefore atomic), how many fit, which
  ends are open and the mode of the read end. \<open>sys_read\<close>, \<open>sys_write\<close> and \<open>sys_poll\<close> are the POSIX
  calls on it; \<open>None\<close> is a call that blocks forever.

  What other threads do while a thread sleeps in \<^verbatim>\<open>poll\<close> is a list of events, one per call. The
  interleaving of the test and the write in \<^verbatim>\<open>signal_raise_val\<close> is a step relation.
\<close>

section \<open>Definitions\<close>

subsection \<open>The pipe\<close>

record pipe =
  pp_queue :: "int list"
  pp_cap :: nat
  pp_rd :: bool
  pp_wr :: bool
  pp_nonblock :: bool

datatype read_result = Rd_value int | Rd_again | Rd_eof | Rd_error

fun rd_size :: "read_result \<Rightarrow> int" where
  "rd_size (Rd_value v) = 4"
| "rd_size Rd_again = -1"
| "rd_size Rd_eof = 0"
| "rd_size Rd_error = -1"

definition sys_read :: "pipe \<Rightarrow> (read_result \<times> pipe) option" where
  "sys_read p =
     (if \<not> pp_rd p then Some (Rd_error, p)
      else case pp_queue p of
        v # vs \<Rightarrow> Some (Rd_value v, p\<lparr>pp_queue := vs\<rparr>)
      | [] \<Rightarrow> if \<not> pp_wr p then Some (Rd_eof, p) else if pp_nonblock p then Some (Rd_again, p) else None)"

definition sys_write :: "pipe \<Rightarrow> int \<Rightarrow> (int \<times> pipe) option" where
  "sys_write p v =
     (if \<not> pp_wr p \<or> \<not> pp_rd p then Some (-1, p)
      else if length (pp_queue p) < pp_cap p then Some (4, p\<lparr>pp_queue := pp_queue p @ [v]\<rparr>)
      else None)"

text \<open>
  While a thread sleeps in \<^verbatim>\<open>poll\<close> the time runs out, the call fails, or it is woken; the pipe then
  holds whatever the other threads have left in it when the thread runs again.
\<close>

datatype os_event = Ev_timeout | Ev_error | Ev_wake "int list"

definition sys_ready :: "pipe \<Rightarrow> bool" where
  "sys_ready p \<longleftrightarrow> pp_queue p \<noteq> [] \<or> \<not> pp_wr p \<or> \<not> pp_rd p"

fun sys_sleep :: "pipe \<Rightarrow> int \<Rightarrow> os_event list \<Rightarrow> (int \<times> pipe \<times> os_event list) option" where
  "sys_sleep p timeout [] = None"
| "sys_sleep p timeout (Ev_timeout # ev) = (if timeout > 0 then Some (0, p, ev) else sys_sleep p timeout ev)"
| "sys_sleep p timeout (Ev_error # ev) = Some (-1, p, ev)"
| "sys_sleep p timeout (Ev_wake q # ev) = Some (1, p\<lparr>pp_queue := q\<rparr>, ev)"

definition sys_poll :: "pipe \<Rightarrow> int \<Rightarrow> os_event list \<Rightarrow> (int \<times> pipe \<times> os_event list) option" where
  "sys_poll p timeout ev =
     (if sys_ready p then Some (1, p, ev) else if timeout = 0 then Some (0, p, ev) else sys_sleep p timeout ev)"

subsection \<open>The signal\<close>

record signal =
  sg_fd :: "int \<times> int"
  sg_waiting :: atomic_t
  sg_pipe :: pipe

text \<open>
  \<open>fds\<close> is what \<^verbatim>\<open>pipe\<close> returns (\<open>None\<close> for \<open>-1\<close>), \<open>fok\<close> whether \<^verbatim>\<open>fcntl\<close> succeeds, \<open>cap\<close> the
  capacity of the new pipe; \<open>s\<close> is \<open>None\<close> for the null pointer.
\<close>

definition signal_init :: "(int \<times> int) option \<Rightarrow> bool \<Rightarrow> nat \<Rightarrow> signal option \<Rightarrow> int \<times> signal option" where
  "signal_init fds fok cap s = (case s of
       None \<Rightarrow> (-1, None)
     | Some s \<Rightarrow> (case fds of
         None \<Rightarrow> (-1, Some s)
       | Some fd \<Rightarrow>
           let s = s\<lparr>sg_fd := fd, sg_pipe := \<lparr>pp_queue = [], pp_cap = cap, pp_rd = True, pp_wr = True, pp_nonblock = fok\<rparr>\<rparr>;
               ret = (if fok then 0 else -1);
               s = (if fok then s else s\<lparr>sg_pipe := (sg_pipe s)\<lparr>pp_rd := False, pp_wr := False\<rparr>\<rparr>)
           in (ret, Some (s\<lparr>sg_waiting := atomic_set (sg_waiting s) 0\<rparr>))))"

definition signal_destroy :: "signal \<Rightarrow> signal" where
  "signal_destroy s = s\<lparr>sg_pipe := (sg_pipe s)\<lparr>pp_rd := False, pp_wr := False\<rparr>\<rparr>"

text \<open>The loop of \<^verbatim>\<open>signal_clear_val\<close>: the last result, the value read last and the pipe.\<close>

function clear_loop :: "pipe \<Rightarrow> int \<Rightarrow> (read_result \<times> int \<times> pipe) option" where
  "clear_loop p val = (case sys_read p of
       None \<Rightarrow> None
     | Some (Rd_value v, p') \<Rightarrow> clear_loop p' v
     | Some (n, p') \<Rightarrow> Some (n, val, p'))"
  by pat_completeness auto

termination clear_loop
  by (relation "measure (\<lambda>(p, val). length (pp_queue p))")
    (auto simp: sys_read_def split: if_splits list.splits)

declare clear_loop.simps [simp del]

definition signal_clear_val :: "signal \<Rightarrow> int \<Rightarrow> (int \<times> int \<times> signal) option" where
  "signal_clear_val s val = do {
     (n, val, p) \<leftarrow> clear_loop (sg_pipe s) val;
     Some ((if rd_size n > 0 then 1 else 0), val, s\<lparr>sg_pipe := p\<rparr>)
   }"

text \<open>The local variable \<^verbatim>\<open>val\<close> is not initialised; its value is not used.\<close>

definition signal_clear :: "signal \<Rightarrow> (int \<times> signal) option" where
  "signal_clear s = do { (ret, val, s) \<leftarrow> signal_clear_val s 0; Some (ret, s) }"

definition signal_get_fd :: "signal \<Rightarrow> int" where
  "signal_get_fd s = fst (sg_fd s)"

text \<open>The \<^verbatim>\<open>do\<close> loop of \<^verbatim>\<open>signal_wait_val\<close>: the results are \<open>ret\<close>, \<open>*val\<close>, the pipe and the events left.\<close>

partial_function (option) signal_wait_loop ::
  "pipe \<Rightarrow> os_event list \<Rightarrow> int \<Rightarrow> int \<Rightarrow> int \<Rightarrow> (int \<times> int \<times> pipe \<times> os_event list) option" where
  "signal_wait_loop p ev timeout val ret = do {
     (n, p) \<leftarrow> sys_read p;
     case n of
       Rd_value v \<Rightarrow> Some (1, v, p, ev)
     | Rd_eof \<Rightarrow> signal_wait_loop p ev timeout val 0
     | Rd_error \<Rightarrow> Some (ret, val, p, ev)
     | Rd_again \<Rightarrow> do {
         (r, p, ev) \<leftarrow> sys_poll p timeout ev;
         if r \<le> 0 then Some (r, val, p, ev) else signal_wait_loop p ev timeout val r
       }
   }"

definition signal_wait_val ::
  "signal \<Rightarrow> int \<Rightarrow> os_event list \<Rightarrow> int option \<Rightarrow> (int \<times> int option \<times> signal \<times> os_event list) option" where
  "signal_wait_val s timeout ev val = do {
     let s = s\<lparr>sg_waiting := snd (atomic_inc (sg_waiting s))\<rparr>;
     let v0 = (case val of None \<Rightarrow> 0 | Some v \<Rightarrow> v);
     (ret, v, p, ev) \<leftarrow> signal_wait_loop (sg_pipe s) ev timeout v0 0;
     (_, s) \<leftarrow> signal_clear (s\<lparr>sg_pipe := p\<rparr>);
     Some (ret, (if val = None then None else Some v), s\<lparr>sg_waiting := snd (atomic_dec (sg_waiting s))\<rparr>, ev)
   }"

definition signal_wait :: "signal \<Rightarrow> int \<Rightarrow> os_event list \<Rightarrow> (int \<times> signal \<times> os_event list) option" where
  "signal_wait s timeout ev = do { (ret, _, s, ev) \<leftarrow> signal_wait_val s timeout ev None; Some (ret, s, ev) }"

definition signal_is_raised :: "signal \<Rightarrow> bool" where
  "signal_is_raised s = (case sys_poll (sg_pipe s) 0 [] of Some (r, _) \<Rightarrow> r > 0 | None \<Rightarrow> False)"

definition signal_raise_val :: "signal \<Rightarrow> int \<Rightarrow> (int \<times> signal) option" where
  "signal_raise_val s val =
     (if signal_is_raised s then Some (0, s)
      else do { (ret, p) \<leftarrow> sys_write (sg_pipe s) val; Some (ret, s\<lparr>sg_pipe := p\<rparr>) })"

text \<open>
  The two steps of the call, between which other threads run: the test, which makes the call return 0 if the signal is raised, and the write.
\<close>

definition raise_begin :: "signal \<Rightarrow> int option" where
  "raise_begin s = (if signal_is_raised s then Some 0 else None)"

definition raise_finish :: "signal \<Rightarrow> int \<Rightarrow> (int \<times> signal) option" where
  "raise_finish s val = do { (ret, p) \<leftarrow> sys_write (sg_pipe s) val; Some (ret, s\<lparr>sg_pipe := p\<rparr>) }"

definition signal_raise :: "signal \<Rightarrow> (int \<times> signal) option" where
  "signal_raise s = signal_raise_val s 0"

definition signal_num_waiting :: "signal \<Rightarrow> u32" where
  "signal_num_waiting s = at_value (sg_waiting s)"

subsection \<open>Specification\<close>

text \<open>A signal in use, and its content.\<close>

definition signal_open :: "signal \<Rightarrow> bool" where
  "signal_open s \<longleftrightarrow> pp_rd (sg_pipe s) \<and> pp_wr (sg_pipe s) \<and> pp_nonblock (sg_pipe s)"

definition raised_vals :: "signal \<Rightarrow> int list" where
  "raised_vals s = pp_queue (sg_pipe s)"

text \<open>
  The threads \<open>T\<close> raise, clear and wait concurrently. A thread makes a whole call of \<open>signal_raise_val\<close> or is interrupted between its two steps;
  \<open>pend\<close> are the threads that have found the signal not raised and have not yet written.
\<close>

inductive raise_step :: "nat set \<Rightarrow> signal \<times> nat set \<Rightarrow> signal \<times> nat set \<Rightarrow> bool" for T where
  raise_whole: "t \<in> T \<Longrightarrow> t \<notin> pend \<Longrightarrow> signal_raise_val s v = Some (r, s') \<Longrightarrow> raise_step T (s, pend) (s', pend)"
| raise_check: "t \<in> T \<Longrightarrow> t \<notin> pend \<Longrightarrow> raise_begin s = None \<Longrightarrow> raise_step T (s, pend) (s, insert t pend)"
| raise_write: "t \<in> pend \<Longrightarrow> raise_finish s v = Some (r, s') \<Longrightarrow> raise_step T (s, pend) (s', pend - {t})"
| clear_read: "sys_read (sg_pipe s) = Some (n, p) \<Longrightarrow> raise_step T (s, pend) (s\<lparr>sg_pipe := p\<rparr>, pend)"
| wait_enter: "raise_step T (s, pend) (s\<lparr>sg_waiting := snd (atomic_inc (sg_waiting s))\<rparr>, pend)"
| wait_leave: "raise_step T (s, pend) (s\<lparr>sg_waiting := snd (atomic_dec (sg_waiting s))\<rparr>, pend)"

inductive_cases raise_stepE: "raise_step T (s, pend) (s', pend')"

section \<open>Lemmas\<close>

lemma is_raised_iff: "signal_is_raised s \<longleftrightarrow> sys_ready (sg_pipe s)"
  by (simp add: signal_is_raised_def sys_poll_def)

lemma open_raised: "signal_open s \<Longrightarrow> signal_is_raised s \<longleftrightarrow> raised_vals s \<noteq> []"
  by (simp add: is_raised_iff sys_ready_def signal_open_def raised_vals_def)

lemma raise_split:
  "signal_raise_val s v = (case raise_begin s of Some ret \<Rightarrow> Some (ret, s) | None \<Rightarrow> raise_finish s v)"
  by (simp add: signal_raise_val_def raise_begin_def raise_finish_def)

lemma raise_finish_open:
  assumes "signal_open s" "length (raised_vals s) < pp_cap (sg_pipe s)"
  shows "\<exists>s'. raise_finish s v = Some (4, s') \<and> raised_vals s' = raised_vals s @ [v]"
  using assms by (simp add: raise_finish_def sys_write_def signal_open_def raised_vals_def)

lemma raise_finish_result:
  assumes "raise_finish s v = Some (r, s')" "signal_open s"
  shows "signal_open s'" "raised_vals s' = raised_vals s @ [v]" "pp_cap (sg_pipe s') = pp_cap (sg_pipe s)"
  using assms by (auto simp: raise_finish_def sys_write_def signal_open_def raised_vals_def bind_Some_iff split: if_splits)

lemma clear_loop_open:
  "pp_rd p \<Longrightarrow> pp_wr p \<Longrightarrow> pp_nonblock p \<Longrightarrow>
     clear_loop p val = Some (Rd_again, last (val # pp_queue p), p\<lparr>pp_queue := []\<rparr>)"
proof (induction "pp_queue p" arbitrary: p val)
  case Nil
  then show ?case by (subst clear_loop.simps) (auto simp: sys_read_def)
next
  case (Cons v vs)
  then have "clear_loop p val = clear_loop (p\<lparr>pp_queue := vs\<rparr>) v"
    by (subst clear_loop.simps) (simp add: sys_read_def flip: Cons.hyps(2))
  also have "\<dots> = Some (Rd_again, last (v # vs), p\<lparr>pp_queue := []\<rparr>)"
    using Cons.hyps(1) [of "p\<lparr>pp_queue := vs\<rparr>" v] Cons.prems by simp
  finally show ?case by (simp flip: Cons.hyps(2))
qed

lemma clear_loop_size: "clear_loop p val = Some (n, v, p') \<Longrightarrow> rd_size n \<le> 0"
proof (induction p val rule: clear_loop.induct)
  case (1 p val)
  then show ?case
    by (subst (asm) clear_loop.simps) (auto split: option.splits read_result.splits)
qed

lemma signal_clear_open:
  "signal_open s \<Longrightarrow> signal_clear s = Some (0, s\<lparr>sg_pipe := (sg_pipe s)\<lparr>pp_queue := []\<rparr>\<rparr>)"
  by (simp add: signal_clear_def signal_clear_val_def clear_loop_open signal_open_def)

text \<open>
  Before the decisive event a waiter may be woken in vain any number of times; a waiter without a
  time limit ignores the passing of time.
\<close>

definition spurious :: "int \<Rightarrow> os_event \<Rightarrow> bool" where
  "spurious timeout x \<longleftrightarrow> x = Ev_wake [] \<or> (timeout < 0 \<and> x = Ev_timeout)"

definition idle :: "pipe \<Rightarrow> bool" where
  "idle p \<longleftrightarrow> pp_rd p \<and> pp_wr p \<and> pp_nonblock p \<and> pp_queue p = []"

lemma wait_loop_value:
  "pp_rd p \<Longrightarrow> pp_queue p = v # vs \<Longrightarrow> signal_wait_loop p ev timeout val ret = Some (1, v, p\<lparr>pp_queue := vs\<rparr>, ev)"
  by (subst signal_wait_loop.simps) (simp add: sys_read_def)

lemma wait_loop_idle:
  assumes "idle p" "timeout \<noteq> 0"
  shows "signal_wait_loop p ev timeout val ret = do {
     (r, p, ev) \<leftarrow> sys_sleep p timeout ev;
     if r \<le> 0 then Some (r, val, p, ev) else signal_wait_loop p ev timeout val r }"
  using assms by (subst signal_wait_loop.simps) (simp add: idle_def sys_read_def sys_poll_def sys_ready_def)

lemma wait_loop_step:
  assumes "idle p" "timeout \<noteq> 0"
  shows "signal_wait_loop p (Ev_wake (v # vs) # ev) timeout val ret = Some (1, v, p\<lparr>pp_queue := vs\<rparr>, ev)"
    "signal_wait_loop p (Ev_error # ev) timeout val ret = Some (-1, val, p, ev)"
    "timeout > 0 \<Longrightarrow> signal_wait_loop p (Ev_timeout # ev) timeout val ret = Some (0, val, p, ev)"
    "signal_wait_loop p (Ev_wake [] # ev) timeout val ret = signal_wait_loop p ev timeout val 1"
    "timeout < 0 \<Longrightarrow> signal_wait_loop p (Ev_timeout # ev) timeout val ret = signal_wait_loop p ev timeout val ret"
proof -
  have [simp]: "p\<lparr>pp_queue := []\<rparr> = p" using assms(1) by (simp add: idle_def)
  note st = wait_loop_idle [OF assms]
  show "signal_wait_loop p (Ev_error # ev) timeout val ret = Some (-1, val, p, ev)"
    "timeout > 0 \<Longrightarrow> signal_wait_loop p (Ev_timeout # ev) timeout val ret = Some (0, val, p, ev)"
    "signal_wait_loop p (Ev_wake [] # ev) timeout val ret = signal_wait_loop p ev timeout val 1"
    by (simp_all add: st [of "_ # _"])
  show "signal_wait_loop p (Ev_wake (v # vs) # ev) timeout val ret = Some (1, v, p\<lparr>pp_queue := vs\<rparr>, ev)"
    using assms(1) by (simp add: st [of "_ # _"] wait_loop_value idle_def)
  show "timeout < 0 \<Longrightarrow> signal_wait_loop p (Ev_timeout # ev) timeout val ret = signal_wait_loop p ev timeout val ret"
    by (simp add: st)
qed

lemma wait_loop_spurious:
  assumes "idle p" "timeout \<noteq> 0" "\<forall>x \<in> set sp. spurious timeout x"
  shows "signal_wait_loop p (sp @ Ev_wake (v # vs) # ev) timeout val ret = Some (1, v, p\<lparr>pp_queue := vs\<rparr>, ev)"
    "signal_wait_loop p (sp @ Ev_error # ev) timeout val ret = Some (-1, val, p, ev)"
    "timeout > 0 \<Longrightarrow> signal_wait_loop p (sp @ Ev_timeout # ev) timeout val ret = Some (0, val, p, ev)"
  using assms(3)
  by (induction sp arbitrary: ret) (auto simp: spurious_def wait_loop_step [OF assms(1,2)])

text \<open>At the end of the file the loop reads again at once, for ever.\<close>

lemma wait_loop_eof: "pp_rd p \<Longrightarrow> \<not> pp_wr p \<Longrightarrow> pp_queue p = [] \<Longrightarrow> signal_wait_loop p ev timeout val ret = None"
proof -
  have "\<not> (pp_rd p \<and> \<not> pp_wr p \<and> pp_queue p = [])" if "signal_wait_loop p ev timeout val ret = Some y" for y
  proof (rule signal_wait_loop.raw_induct [OF _ that, of "\<lambda>p ev timeout val ret y. \<not> (pp_rd p \<and> \<not> pp_wr p \<and> pp_queue p = [])"], goal_cases)
    case (1 f p ev timeout val ret y)
    note IH = "1"(1) [of p ev timeout val 0 y]
    show ?case using IH "1"(2) by (auto simp: sys_read_def bind_Some_iff)
  qed
  then show "pp_rd p \<Longrightarrow> \<not> pp_wr p \<Longrightarrow> pp_queue p = [] \<Longrightarrow> signal_wait_loop p ev timeout val ret = None"
    by (metis not_None_eq)
qed

text \<open>The invariant of the concurrent system: values in flight and writers about to write are at most the threads.\<close>

definition raise_inv :: "nat set \<Rightarrow> signal \<times> nat set \<Rightarrow> bool" where
  "raise_inv T = (\<lambda>(s, pend). signal_open s \<and> pend \<subseteq> T \<and> length (raised_vals s) + card pend \<le> card T
     \<and> card T \<le> pp_cap (sg_pipe s))"

lemma raise_inv_step:
  assumes "finite T" "raise_step T x y" "raise_inv T x"
  shows "raise_inv T y"
  using assms(2,3)
proof (cases rule: raise_step.cases)
  case (raise_whole t pend s v r s')
  show ?thesis
  proof (cases "signal_is_raised s")
    case True
    then show ?thesis using raise_whole assms(3) by (simp add: signal_raise_val_def)
  next
    case False
    have inv: "signal_open s" "pend \<subseteq> T" "card T \<le> pp_cap (sg_pipe s)" using raise_whole assms(3) by (auto simp: raise_inv_def)
    have "raised_vals s = []" "raise_finish s v = Some (r, s')"
      using raise_whole False open_raised [OF inv(1)] by (simp_all add: raise_split raise_begin_def)
    moreover have "card pend < card T" using raise_whole inv(2) assms(1) by (intro psubset_card_mono) auto
    ultimately show ?thesis using raise_whole inv raise_finish_result [of s v r s'] by (simp add: raise_inv_def)
  qed
next
  case (raise_check t pend s)
  then have fin: "finite (insert t pend)" "insert t pend \<subseteq> T" and "raised_vals s = []"
    using assms finite_subset by (auto simp: raise_inv_def open_raised raise_begin_def split: if_splits)
  then show ?thesis
    using raise_check assms card_mono [OF assms(1) fin(2)] by (auto simp: raise_inv_def)
next
  case (raise_write t pend s v r s')
  then have "finite pend" using assms finite_subset by (auto simp: raise_inv_def)
  then have "card pend = Suc (card (pend - {t}))"
    using raise_write by (metis card_Suc_Diff1)
  then show ?thesis
    using raise_write assms(3) raise_finish_result [of s v r s'] by (auto simp: raise_inv_def)
next
  case (clear_read s n p pend)
  then show ?thesis
    using assms(3) by (auto simp: raise_inv_def sys_read_def signal_open_def raised_vals_def split: if_splits list.splits)
qed (use assms(3) in \<open>auto simp: raise_inv_def signal_open_def raised_vals_def\<close>)

lemma raise_inv_reach: "(raise_step T)\<^sup>*\<^sup>* x y \<Longrightarrow> finite T \<Longrightarrow> raise_inv T x \<Longrightarrow> raise_inv T y"
  by (induction rule: rtranclp_induct) (auto dest: raise_inv_step)

section \<open>Properties\<close>

text \<open>
  \<open>signal_init\<close> on a struct either reports success and gives a signal in use that is not raised
  and that nobody waits on, or reports \<open>-1\<close>; if it created a pipe and failed later, both ends are
  closed again.
\<close>

theorem signal_init_outcome:
  "\<exists>ret s'. signal_init fds fok cap (Some s) = (ret, Some s')
     \<and> (if fds \<noteq> None \<and> fok
        then ret = 0 \<and> signal_open s' \<and> \<not> signal_is_raised s' \<and> signal_num_waiting s' = 0
           \<and> signal_get_fd s' = fst (the fds)
        else ret = -1 \<and> (fds = None \<and> s' = s \<or> fds \<noteq> None \<and> \<not> pp_rd (sg_pipe s') \<and> \<not> pp_wr (sg_pipe s')))"
  by (auto simp: signal_init_def signal_open_def is_raised_iff sys_ready_def signal_num_waiting_def
      signal_get_fd_def atomic_set_def Let_def split: option.splits)

text \<open>
  C22: Raising a signal in use returns the four bytes written and leaves exactly the new value in the
  pipe; raising a raised signal returns 0 and changes nothing, so values do not pile up. Clearing
  empties the pipe and delivers the value read last, and always returns 0: the result does not say
  whether the signal was raised.
\<close>

theorem signal_raise_clear:
  assumes "signal_open s" "0 < pp_cap (sg_pipe s)"
  shows "(\<not> signal_is_raised s \<longrightarrow> (\<exists>s'. signal_raise_val s v = Some (4, s') \<and> raised_vals s' = [v]
           \<and> signal_open s' \<and> signal_is_raised s' \<and> signal_num_waiting s' = signal_num_waiting s))
     \<and> (signal_is_raised s \<longrightarrow> signal_raise_val s v = Some (0, s))
     \<and> (\<exists>s'. signal_clear_val s x = Some (0, last (x # raised_vals s), s') \<and> \<not> signal_is_raised s'
           \<and> signal_open s' \<and> signal_num_waiting s' = signal_num_waiting s)"
  using assms
  by (auto simp: signal_raise_val_def is_raised_iff sys_ready_def sys_write_def signal_open_def raised_vals_def
      signal_clear_val_def clear_loop_open signal_num_waiting_def)

text \<open>
  C20: A thread that waits on a raised signal returns 1 with the first value at once. A thread that
  waits on a signal that is not raised sleeps through any number of wake-ups that find the pipe
  empty; it returns 1 and the value when one finds a value, 0 when its time runs out, and \<open>-1\<close> when
  \<^verbatim>\<open>poll\<close> fails. Afterwards the signal is not raised and the number of waiting threads is what it was.
\<close>

theorem signal_wait_val_correct:
  assumes "signal_open s" "timeout \<noteq> 0" "\<forall>x \<in> set sp. spurious timeout x"
  defines "s' \<equiv> s\<lparr>sg_pipe := (sg_pipe s)\<lparr>pp_queue := []\<rparr>\<rparr>"
  shows "(raised_vals s = v # vs \<longrightarrow> signal_wait_val s timeout ev (Some x) = Some (1, Some v, s', ev))
     \<and> (\<not> signal_is_raised s \<longrightarrow>
          signal_wait_val s timeout (sp @ Ev_wake (v # vs) # ev) (Some x) = Some (1, Some v, s', ev)
        \<and> (timeout > 0 \<longrightarrow> signal_wait_val s timeout (sp @ Ev_timeout # ev) (Some x) = Some (0, Some x, s', ev))
        \<and> signal_wait_val s timeout (sp @ Ev_error # ev) (Some x) = Some (-1, Some x, s', ev))
     \<and> \<not> signal_is_raised s' \<and> signal_num_waiting s' = signal_num_waiting s"
proof -
  have cl: "signal_clear (s\<lparr>sg_waiting := a, sg_pipe := (sg_pipe s)\<lparr>pp_queue := q\<rparr>\<rparr>)
      = Some (0, s'\<lparr>sg_waiting := a\<rparr>)" for a q
    using assms(1) by (subst signal_clear_open) (auto simp: signal_open_def s'_def)
  have cl0: "signal_clear (s\<lparr>sg_waiting := a\<rparr>) = Some (0, s'\<lparr>sg_waiting := a\<rparr>)" for a
    using cl [where a = a and q = "pp_queue (sg_pipe s)"] by simp
  note defs = signal_wait_val_def Let_def atomic_inc_def atomic_dec_def
  have "signal_wait_val s timeout ev (Some x) = Some (1, Some v, s', ev)" if "raised_vals s = v # vs"
    using that assms(1) cl by (simp add: defs wait_loop_value raised_vals_def signal_open_def) (simp add: s'_def)
  moreover have
    "signal_wait_val s timeout (sp @ Ev_wake (v # vs) # ev) (Some x) = Some (1, Some v, s', ev)"
    "timeout > 0 \<longrightarrow> signal_wait_val s timeout (sp @ Ev_timeout # ev) (Some x) = Some (0, Some x, s', ev)"
    "signal_wait_val s timeout (sp @ Ev_error # ev) (Some x) = Some (-1, Some x, s', ev)"
    if r: "\<not> signal_is_raised s"
  proof -
    have i: "idle (sg_pipe s)"
      using r assms(1) by (simp add: idle_def signal_open_def is_raised_iff sys_ready_def)
    show "signal_wait_val s timeout (sp @ Ev_wake (v # vs) # ev) (Some x) = Some (1, Some v, s', ev)"
      "timeout > 0 \<longrightarrow> signal_wait_val s timeout (sp @ Ev_timeout # ev) (Some x) = Some (0, Some x, s', ev)"
      "signal_wait_val s timeout (sp @ Ev_error # ev) (Some x) = Some (-1, Some x, s', ev)"
      using wait_loop_spurious [OF i assms(2,3)] cl cl0 by (simp_all add: defs) (simp_all add: s'_def)
  qed
  moreover have "\<not> signal_is_raised s'" "signal_num_waiting s' = signal_num_waiting s"
    using assms(1) by (auto simp: s'_def is_raised_iff sys_ready_def signal_open_def signal_num_waiting_def)
  ultimately show ?thesis by blast
qed

text \<open>
  If the write end of an empty pipe is closed while its read end is open, \<open>signal_wait_val\<close> never
  returns: every read gives 0 and the loop reads again at once, whatever the timeout.
\<close>

theorem signal_wait_val_eof_spins:
  assumes "pp_rd (sg_pipe s)" "\<not> pp_wr (sg_pipe s)" "raised_vals s = []"
  shows "signal_wait_val s timeout ev val = None"
  using assms wait_loop_eof by (simp add: signal_wait_val_def raised_vals_def Let_def)

text \<open>
  C21: The test and the write of \<open>signal_raise_val\<close> are not one atomic step, and the write end blocks
  when the pipe is full. Still, as long as the pipe holds one value per thread, no interleaving of
  raising, clearing and waiting threads makes a raising thread block: a thread that calls \<open>signal_raise_val\<close> without interruption returns, a thread that
  was interrupted before its write writes its value at once, and the values in flight never exceed the number of threads.
\<close>

theorem signal_raise_never_blocks:
  assumes "finite T" "card T \<le> pp_cap (sg_pipe s)" "signal_open s" "raised_vals s = []"
    and "(raise_step T)\<^sup>*\<^sup>* (s, {}) (s', pend)"
  shows "length (raised_vals s') \<le> card T
     \<and> (\<forall>t \<in> T - pend. \<forall>v. \<exists>r s2. signal_raise_val s' v = Some (r, s2))
     \<and> (\<forall>t \<in> pend. \<forall>v. \<exists>s2. raise_finish s' v = Some (4, s2) \<and> raised_vals s2 = raised_vals s' @ [v])"
proof (intro conjI ballI allI)
  have inv: "raise_inv T (s', pend)"
    using raise_inv_reach [OF assms(5,1)] assms by (simp add: raise_inv_def)
  then show "length (raised_vals s') \<le> card T" by (simp add: raise_inv_def)
  fix t v
  show "\<exists>r s2. signal_raise_val s' v = Some (r, s2)" if "t \<in> T - pend"
  proof (cases "signal_is_raised s'")
    case False
    have "0 < card T" using that assms(1) by (auto simp: card_gt_0_iff)
    then have "length (raised_vals s') < pp_cap (sg_pipe s')" using False inv by (simp add: raise_inv_def open_raised)
    then show ?thesis using raise_finish_open [of s' v] inv False by (auto simp: raise_inv_def raise_split raise_begin_def)
  qed (simp add: signal_raise_val_def)
  assume "t \<in> pend"
  then have "0 < card pend" using assms(1) inv finite_subset by (auto simp: raise_inv_def card_gt_0_iff)
  then show "\<exists>s2. raise_finish s' v = Some (4, s2) \<and> raised_vals s2 = raised_vals s' @ [v]"
    using raise_finish_open [of s' v] inv by (auto simp: raise_inv_def)
qed

section \<open>Witnesses\<close>

definition example_signal :: "int list \<Rightarrow> signal" where
  "example_signal q = \<lparr>sg_fd = (3, 4), sg_waiting = \<lparr>at_value = 0\<rparr>,
     sg_pipe = \<lparr>pp_queue = q, pp_cap = 16384, pp_rd = True, pp_wr = True, pp_nonblock = True\<rparr>\<rparr>"

lemma example_signal_open: "signal_open (example_signal q)" "raised_vals (example_signal q) = q"
    "pp_cap (sg_pipe (example_signal q)) = 16384"
  by (simp_all add: signal_open_def example_signal_def raised_vals_def)

theorem signal_raise_clear_witness:
  "\<exists>s'. signal_raise_val (example_signal []) 7 = Some (4, s') \<and> raised_vals s' = [7]"
proof -
  have "\<not> signal_is_raised (example_signal [])" by (simp add: open_raised example_signal_open)
  then show ?thesis
    using signal_raise_clear [of "example_signal []" 7 0] example_signal_open by auto
qed

theorem signal_wait_val_correct_witness:
  "\<exists>s'. signal_wait_val (example_signal []) 5 [Ev_wake [], Ev_wake [9]] (Some 0) = Some (1, Some 9, s', [])
     \<and> \<not> signal_is_raised s'"
proof -
  have "\<not> signal_is_raised (example_signal [])" by (simp add: open_raised example_signal_open)
  then show ?thesis
    using signal_wait_val_correct [of "example_signal []" 5 "[Ev_wake []]" 9 "[]" "[]" 0] example_signal_open
    by (auto simp: spurious_def)
qed

theorem signal_wait_val_eof_spins_witness:
  "signal_wait_val ((example_signal [])\<lparr>sg_pipe := (sg_pipe (example_signal []))\<lparr>pp_wr := False\<rparr>\<rparr>) 5 [] None = None"
  by (rule signal_wait_val_eof_spins) (simp_all add: example_signal_def raised_vals_def)

theorem signal_raise_never_blocks_witness:
  "(\<exists>s2. raise_finish (example_signal []) 7 = Some (4, s2) \<and> raised_vals s2 = [7])
   \<and> (\<exists>r s2. signal_raise_val (example_signal []) 8 = Some (r, s2))"
proof -
  have "raise_step {1, 2} (example_signal [], {}) (example_signal [], {1})"
    by (rule raise_check) (auto simp: raise_begin_def open_raised example_signal_open)
  then have "(raise_step {1, 2})\<^sup>*\<^sup>* (example_signal [], {}) (example_signal [], {1})"
    by blast
  then show ?thesis
    using signal_raise_never_blocks [of "{1, 2}" "example_signal []" "example_signal []" "{1}"]
    by (auto simp: example_signal_open)
qed

end
