(* ===== verification/Ckit_Timer.thy ===== *)
theory Ckit_Timer
  imports Ckit_Heap Ckit_Time Ckit_Signal
begin

text \<open>
  \<^verbatim>\<open>src/timer.c\<close> and \<^verbatim>\<open>include/ckit/timer.h\<close>: a queue of timers ordered by their timeout, on the
  heap of \<open>Ckit_Heap\<close>, with a signal that tells the main thread to look at the queue again. The
  struct starts with its heap item, so a timer extends the record \<open>heapitem\<close> and the address of the
  item is the address of the timer.

  What the code gets from outside is an argument: the clock reading (\<open>None\<close> when \<^verbatim>\<open>clock_gettime\<close>
  fails), the calling thread, the results of \<^verbatim>\<open>malloc\<close>, \<^verbatim>\<open>pipe\<close> and \<^verbatim>\<open>fcntl\<close>, and the effect of a
  callback. The mutex is a flag; locking a locked mutex does not return (\<open>None\<close>).
\<close>

section \<open>Definitions\<close>

record timer = heapitem +
  t_timeout :: timespec
  t_expires :: s64
  t_callback :: addr
  t_destruct :: addr
  t_data :: addr

record timer_queue =
  tq_queue :: "timer heap"
  tq_lock :: bool
  tq_signal :: signal
  tq_thr :: nat

type_synonym tmem = "timer mem"

datatype signal_result = TIMER_SIGNAL_ERROR | TIMER_SIGNAL_NONE | TIMER_SIGNAL_SET | TIMER_SIGNAL_EXIT

text \<open>The argument of the three macros is taken as a \<^verbatim>\<open>long\<close>.\<close>

definition timer_secs :: "s64 \<Rightarrow> s64 option" where
  "timer_secs s = fit (sint s * 1000000)"

definition timer_msecs :: "s64 \<Rightarrow> s64 option" where
  "timer_msecs s = fit (sint s * 1000)"

definition timer_usecs :: "s64 \<Rightarrow> s64" where
  "timer_usecs s = s"

definition gettime :: "timespec option \<Rightarrow> timespec option \<Rightarrow> int \<times> timespec option" where
  "gettime now ts = (case now of None \<Rightarrow> (-1, ts) | Some t \<Rightarrow> (0, Some t))"

definition heap_cmp :: "timer \<Rightarrow> timer \<Rightarrow> bool" where
  "heap_cmp t1 t2 = timespec_lt (t_timeout t1) (t_timeout t2)"

definition timer_scheduled :: "timer \<Rightarrow> bool" where
  "timer_scheduled t \<longleftrightarrow> hi_active t \<noteq> 0"

text \<open>The struct after \<^verbatim>\<open>memset\<close>.\<close>

definition zero_timer :: timer where
  "zero_timer = \<lparr>hi_index = 0, hi_active = 0, t_timeout = \<lparr>tv_sec = 0, tv_nsec = 0\<rparr>, t_expires = 0,
     t_callback = NULL, t_destruct = NULL, t_data = NULL\<rparr>"

definition timer_init :: "tmem \<Rightarrow> addr \<Rightarrow> tmem option" where
  "timer_init st t = store st t zero_timer"

text \<open>\<open>p\<close> is the block \<^verbatim>\<open>malloc\<close> returns; its content is indeterminate.\<close>

definition timer_new_callback :: "addr \<Rightarrow> timer \<Rightarrow> tmem \<Rightarrow> addr \<Rightarrow> addr \<Rightarrow> (addr \<times> tmem) option" where
  "timer_new_callback p junk st callback data =
     (if p = NULL then Some (NULL, st)
      else do {
        st \<leftarrow> timer_init (st(p \<mapsto> junk)) p;
        v \<leftarrow> load st p;
        st \<leftarrow> store st p (v\<lparr>t_callback := callback\<rparr>);
        v \<leftarrow> load st p;
        st \<leftarrow> store st p (v\<lparr>t_data := data\<rparr>);
        Some (p, st)
      })"

definition timer_free :: "tmem \<Rightarrow> addr \<Rightarrow> tmem" where
  "timer_free st t = st(t := None)"

definition mutex_lock :: "timer_queue \<Rightarrow> timer_queue option" where
  "mutex_lock tq = (if tq_lock tq then None else Some (tq\<lparr>tq_lock := True\<rparr>))"

definition mutex_unlock :: "timer_queue \<Rightarrow> timer_queue" where
  "mutex_unlock tq = tq\<lparr>tq_lock := False\<rparr>"

definition timer_queue_get_signal :: "timer_queue \<Rightarrow> int" where
  "timer_queue_get_signal tq = signal_get_fd (tq_signal tq)"

definition timer_queue_signal_raise :: "timer_queue \<Rightarrow> (int \<times> timer_queue) option" where
  "timer_queue_signal_raise tq = do {
     (ret, s) \<leftarrow> signal_raise (tq_signal tq);
     Some (ret, tq\<lparr>tq_signal := s\<rparr>)
   }"

definition timer_queue_signal_lower :: "timer_queue \<Rightarrow> (signal_result \<times> timer_queue) option" where
  "timer_queue_signal_lower tq = do {
     (ret, val, s) \<leftarrow> signal_clear_val (tq_signal tq) 0;
     Some ((if ret = -1 then TIMER_SIGNAL_ERROR
            else if ret = 0 then TIMER_SIGNAL_NONE
            else if val = 0 then TIMER_SIGNAL_EXIT
            else if val = -1 then TIMER_SIGNAL_ERROR
            else TIMER_SIGNAL_SET), tq\<lparr>tq_signal := s\<rparr>)
   }"

text \<open>\<^verbatim>\<open>_timer_del\<close>\<close>

definition timer_del_locked :: "nat \<Rightarrow> timer_queue \<Rightarrow> tmem \<Rightarrow> addr \<Rightarrow> (timer_queue \<times> tmem) option" where
  "timer_del_locked self tq st t = do {
     v \<leftarrow> load st t;
     let index = hi_index v;
     (_, q, st) \<leftarrow> heap_remove (tq_queue tq) st index;
     let tq = tq\<lparr>tq_queue := q\<rparr>;
     if index = 0 \<and> tq_thr tq \<noteq> self then do {
       (_, tq) \<leftarrow> timer_queue_signal_raise tq;
       Some (tq, st)
     } else Some (tq, st)
   }"

definition timer_del :: "nat \<Rightarrow> timer_queue \<Rightarrow> tmem \<Rightarrow> addr \<Rightarrow> (timer_queue \<times> tmem) option" where
  "timer_del self tq st t = do {
     tq \<leftarrow> mutex_lock tq;
     (tq, st) \<leftarrow> timer_del_locked self tq st t;
     Some (mutex_unlock tq, st)
   }"

text \<open>
  The part of \<^verbatim>\<open>timer_mod\<close> that takes a scheduled timer out, lines 114 to 119. The conversion of the argument from \<^verbatim>\<open>unsigned long\<close> to \<^verbatim>\<open>long\<close>
  keeps the bits.
\<close>

definition timer_mod_unschedule ::
  "nat \<Rightarrow> timer_queue \<Rightarrow> tmem \<Rightarrow> addr \<Rightarrow> u64 \<Rightarrow> (bool \<times> timer_queue \<times> tmem) option" where
  "timer_mod_unschedule self tq st t expires = do {
     v \<leftarrow> load st t;
     if timer_scheduled v then do {
       let was_first = (hi_index v = 0);
       (tq, st) \<leftarrow> timer_del self tq st t;
       v \<leftarrow> load st t;
       st \<leftarrow> store st t (v\<lparr>t_expires := expires\<rparr>);
       Some (was_first, tq, st)
     } else Some (False, tq, st)
   }"

definition timer_mod ::
  "bool \<Rightarrow> timespec option \<Rightarrow> nat \<Rightarrow> timer_queue \<Rightarrow> tmem \<Rightarrow> addr \<Rightarrow> u64 \<Rightarrow> (int \<times> timer_queue \<times> tmem) option" where
  "timer_mod ok now self tq st t expires = do {
     (was_first, tq, st) \<leftarrow> timer_mod_unschedule self tq st t expires;
     v \<leftarrow> load st t;
     ts \<leftarrow> snd (gettime now (Some (t_timeout v)));
     nsec \<leftarrow> fit (sint (t_expires v) * 1000);
     ts \<leftarrow> timespec_add_nsec ts nsec;
     st \<leftarrow> store st t (v\<lparr>t_timeout := ts\<rparr>);
     tq \<leftarrow> mutex_lock tq;
     (ret, q, st) \<leftarrow> heap_insert ok (tq_queue tq) st t;
     let tq = tq\<lparr>tq_queue := q\<rparr>;
     if ret \<noteq> 0 then Some (-1, mutex_unlock tq, st)
     else do {
       v \<leftarrow> load st t;
       tq \<leftarrow> (if tq_thr tq \<noteq> self \<and> (hi_index v = 0 \<or> was_first)
              then do { (_, tq) \<leftarrow> timer_queue_signal_raise tq; Some tq } else Some tq);
       Some (1, mutex_unlock tq, st)
     }
   }"

definition timer_add ::
  "bool \<Rightarrow> timespec option \<Rightarrow> nat \<Rightarrow> timer_queue \<Rightarrow> tmem \<Rightarrow> addr \<Rightarrow> (int \<times> timer_queue \<times> tmem) option" where
  "timer_add ok now self tq st t = do {
     v \<leftarrow> load st t;
     if timer_scheduled v then Some (-1, tq, st)
     else timer_mod ok now self tq st t (t_expires v)
   }"

definition timer_set_expires :: "tmem \<Rightarrow> addr \<Rightarrow> s64 \<Rightarrow> tmem option" where
  "timer_set_expires st t e = do { v \<leftarrow> load st t; store st t (v\<lparr>t_expires := e\<rparr>) }"

definition timer_schedule_secs ::
  "bool \<Rightarrow> timespec option \<Rightarrow> nat \<Rightarrow> timer_queue \<Rightarrow> tmem \<Rightarrow> addr \<Rightarrow> s64 \<Rightarrow> (int \<times> timer_queue \<times> tmem) option" where
  "timer_schedule_secs ok now self tq st t s = do {
     e \<leftarrow> timer_secs s;
     st \<leftarrow> timer_set_expires st t e;
     timer_add ok now self tq st t
   }"

definition timer_schedule_msecs ::
  "bool \<Rightarrow> timespec option \<Rightarrow> nat \<Rightarrow> timer_queue \<Rightarrow> tmem \<Rightarrow> addr \<Rightarrow> s64 \<Rightarrow> (int \<times> timer_queue \<times> tmem) option" where
  "timer_schedule_msecs ok now self tq st t s = do {
     e \<leftarrow> timer_msecs s;
     st \<leftarrow> timer_set_expires st t e;
     timer_add ok now self tq st t
   }"

text \<open>
  The second component of the results is what the code writes to \<^verbatim>\<open>*timeout\<close>, if anything. A failed
  clock reading leaves the local variable \<^verbatim>\<open>now\<close> indeterminate.
\<close>

definition timer_next_timeout ::
  "timespec option \<Rightarrow> timer_queue \<Rightarrow> tmem \<Rightarrow> (int \<times> u64 option \<times> timer_queue) option" where
  "timer_next_timeout now tq st = do {
     tq \<leftarrow> mutex_lock tq;
     if heap_empty (tq_queue tq) then do {
       (_, tq) \<leftarrow> timer_queue_signal_lower (mutex_unlock tq);
       Some (0, None, tq)
     } else do {
       n \<leftarrow> snd (gettime now None);
       t \<leftarrow> heap_front (tq_queue tq);
       v \<leftarrow> load st t;
       later \<leftarrow> timespec_sub (t_timeout v) n;
       usec \<leftarrow> fit (sint (tv_sec later) * 1000000);
       timeout \<leftarrow> fit (sint (usec :: s64) + sint (tv_nsec later) sdiv 1000);
       (_, tq) \<leftarrow> timer_queue_signal_lower (mutex_unlock tq);
       Some (1, Some timeout, tq)
     }
   }"

definition timer_next_timeout_timespec ::
  "timespec option \<Rightarrow> timer_queue \<Rightarrow> tmem \<Rightarrow> (int \<times> timespec option \<times> timer_queue) option" where
  "timer_next_timeout_timespec now tq st = do {
     tq \<leftarrow> mutex_lock tq;
     if heap_empty (tq_queue tq) then Some (0, None, mutex_unlock tq)
     else do {
       n \<leftarrow> snd (gettime now None);
       t \<leftarrow> heap_front (tq_queue tq);
       v \<leftarrow> load st t;
       timeout \<leftarrow> timespec_sub (t_timeout v) n;
       let timeout = (if sint (tv_sec timeout) < 0 then timeout\<lparr>tv_nsec := 0, tv_sec := 0\<rparr> else timeout);
       Some (1, Some timeout, mutex_unlock tq)
     }
   }"

text \<open>The local \<^verbatim>\<open>ts\<close> is indeterminate unless the call above wrote it.\<close>

definition timer_next_timeout_timeval ::
  "timespec option \<Rightarrow> timer_queue \<Rightarrow> tmem \<Rightarrow> (int \<times> timeval \<times> timer_queue) option" where
  "timer_next_timeout_timeval now tq st = do {
     (ret, ts, tq) \<leftarrow> timer_next_timeout_timespec now tq st;
     ts \<leftarrow> ts;
     Some (ret, \<lparr>tval_sec = tv_sec ts, tv_usec = word_of_int (sint (tv_nsec ts) sdiv 1000)\<rparr>, tq)
   }"

text \<open>
  \<open>call f t s\<close> is the effect of calling the function at \<open>f\<close> on the timer \<open>t\<close> in the state \<open>s\<close>. A callback may change the queue, the timers and anything else
  of the program, which is the third part of the state.
\<close>

type_synonym 'w tstate = "timer_queue \<times> tmem \<times> 'w"
type_synonym 'w tcall = "addr \<Rightarrow> addr \<Rightarrow> 'w tstate \<Rightarrow> 'w tstate option"

text \<open>The macro \<^verbatim>\<open>timer_destroy\<close>, given the functions that destructor pointers stand for.\<close>

definition timer_destroy :: "'w tcall \<Rightarrow> 'w tstate \<Rightarrow> addr \<Rightarrow> 'w tstate option" where
  "timer_destroy call s t = (case s of (tq, st, w) \<Rightarrow> do {
     v \<leftarrow> load st t;
     if t_destruct v \<noteq> NULL then call (t_destruct v) t (tq, st, w) else Some (tq, st, w)
   })"

definition timer_handle_timeout :: "'w tcall \<Rightarrow> timer_queue \<Rightarrow> tmem \<Rightarrow> 'w \<Rightarrow> (int \<times> 'w tstate) option" where
  "timer_handle_timeout call tq st w = do {
     tq \<leftarrow> mutex_lock tq;
     if heap_empty (tq_queue tq) then Some (-1, mutex_unlock tq, st, w)
     else do {
       (t, q, st) \<leftarrow> heap_remove_first (tq_queue tq) st;
       let tq = mutex_unlock (tq\<lparr>tq_queue := q\<rparr>);
       v \<leftarrow> load st t;
       s \<leftarrow> (if t_callback v \<noteq> NULL then call (t_callback v) t (tq, st, w) else Some (tq, st, w));
       Some (0, s)
     }
   }"

text \<open>The loop of \<^verbatim>\<open>timer_list_destroy\<close>. A destructor may add timers, so it need not end.\<close>

partial_function (option) timer_destroy_loop :: "'w tcall \<Rightarrow> timer_queue \<Rightarrow> tmem \<Rightarrow> 'w \<Rightarrow> 'w tstate option" where
  "timer_destroy_loop call tq st w =
     (if heap_empty (tq_queue tq) then Some (tq, st, w)
      else do {
        (t, q, st) \<leftarrow> heap_remove_first (tq_queue tq) st;
        let tq = tq\<lparr>tq_queue := q\<rparr>;
        v \<leftarrow> load st t;
        (tq, st, w) \<leftarrow> (if t_destruct v \<noteq> NULL then call (t_destruct v) t (tq, st, w) else Some (tq, st, w));
        timer_destroy_loop call tq st w
      })"

definition timer_list_destroy :: "'w tcall \<Rightarrow> timer_queue \<Rightarrow> tmem \<Rightarrow> 'w \<Rightarrow> 'w tstate option" where
  "timer_list_destroy call tq st w = do {
     tq \<leftarrow> mutex_lock tq;
     (tq, st, w) \<leftarrow> timer_destroy_loop call tq st w;
     Some (mutex_unlock tq, st, w)
   }"

text \<open>The signal after \<^verbatim>\<open>memset\<close>: no pipe is open yet.\<close>

definition zero_signal :: signal where
  "zero_signal = \<lparr>sg_fd = (0, 0), sg_waiting = \<lparr>at_value = 0\<rparr>,
     sg_pipe = \<lparr>pp_queue = [], pp_cap = 0, pp_rd = False, pp_wr = False, pp_nonblock = False\<rparr>\<rparr>"

definition timer_queue_init :: "(int \<times> int) option \<Rightarrow> bool \<Rightarrow> nat \<Rightarrow> bool \<Rightarrow> nat \<Rightarrow> int \<times> timer_queue" where
  "timer_queue_init fds fok cap ok self =
     (let (ret, s) = signal_init fds fok cap (Some zero_signal)
      in (ret, \<lparr>tq_queue = snd (heap_init ok 0 heap_cmp), tq_lock = False, tq_signal = the s, tq_thr = self\<rparr>))"

definition timer_queue_fini :: "'w tcall \<Rightarrow> timer_queue \<Rightarrow> tmem \<Rightarrow> 'w \<Rightarrow> 'w tstate option" where
  "timer_queue_fini call tq st w = do {
     (tq, st, w) \<leftarrow> timer_list_destroy call (tq\<lparr>tq_signal := signal_destroy (tq_signal tq)\<rparr>) st w;
     Some (tq\<lparr>tq_queue := heap_fini (tq_queue tq)\<rparr>, st, w)
   }"

subsection \<open>Specification\<close>

text \<open>Exactly the timers in \<open>P\<close> are scheduled; a timer queue in use.\<close>

definition scheduled_are :: "addr set \<Rightarrow> tmem \<Rightarrow> bool" where
  "scheduled_are P st \<longleftrightarrow> (\<forall>p v. load st p = Some v \<longrightarrow> (timer_scheduled v \<longleftrightarrow> p \<in> P))"

definition tq_timers :: "timer_queue \<Rightarrow> addr set" where
  "tq_timers tq = set (heap_ptrs (tq_queue tq))"

definition tq_ok :: "timer_queue \<Rightarrow> tmem \<Rightarrow> bool" where
  "tq_ok tq st \<longleftrightarrow> heap_wf (tq_queue tq) st \<and> hp_cmp (tq_queue tq) = heap_cmp
     \<and> \<not> tq_lock tq \<and> signal_open (tq_signal tq) \<and> 0 < pp_cap (sg_pipe (tq_signal tq))
     \<and> scheduled_are (tq_timers tq) st"

definition deadline :: "tmem \<Rightarrow> addr \<Rightarrow> int" where
  "deadline st p = ts_nsecs (t_timeout (the (load st p)))"

definition tq_small :: "timer_queue \<Rightarrow> bool" where
  "tq_small tq \<longleftrightarrow> unat (hp_max_size (tq_queue tq)) + 100 < 2 ^ 31"

text \<open>The order that insertion keeps: no timer has an earlier deadline than one below it.\<close>

definition latest_first :: "timer_queue \<Rightarrow> tmem \<Rightarrow> bool" where
  "latest_first tq st \<longleftrightarrow> min_heap (\<lambda>p q. ptr_lt heap_cmp st q p) (heap_ptrs (tq_queue tq))"

text \<open>A delay of \<open>e\<close> microseconds from \<open>n\<close> on that neither the product with 1000 nor the clock arithmetic overflows on.\<close>

definition delay_ok :: "timespec \<Rightarrow> s64 \<Rightarrow> bool" where
  "delay_ok n e \<longleftrightarrow> in_long (sint e * 1000) \<and> ts_fits (ts_nsecs n + sint e * 1000)"

text \<open>The recorded position of a timer is right.\<close>

definition placed :: "timer_queue \<Rightarrow> tmem \<Rightarrow> addr \<Rightarrow> bool" where
  "placed tq st t \<longleftrightarrow> (\<exists>v. load st t = Some v \<and> unat (hi_index v) < unat (hp_size (tq_queue tq))
     \<and> heap_ptrs (tq_queue tq) ! unat (hi_index v) = t)"

section \<open>Lemmas\<close>

interpretation tmo: item_order heap_cmp
  by unfold_locales (auto simp: heap_cmp_def timespec_lt_def index_blind_def simp flip: sint_inj)

lemma heap_wf_cong: "\<forall>p. load st' p = None \<longleftrightarrow> load st p = None \<Longrightarrow> heap_wf h st' \<longleftrightarrow> heap_wf h st"
  by (simp add: heap_wf_def)

lemma same_keys_field:
  assumes "same_keys st st'" "\<And>v. f (v\<lparr>hi_index := 0, hi_active := 0\<rparr>) = f v"
  shows "map_option f (load st' p) = map_option f (load st p)"
proof -
  have "map_option f (map_option (\<lambda>v. v\<lparr>hi_index := 0, hi_active := 0\<rparr>) (load st' p))
      = map_option f (map_option (\<lambda>v. v\<lparr>hi_index := 0, hi_active := 0\<rparr>) (load st p))"
    using assms(1) by (simp add: same_keys_def)
  then show ?thesis by (simp add: option.map_comp comp_def assms(2))
qed

lemma same_keys_deadline: "same_keys st st' \<Longrightarrow> deadline st' p = deadline st p"
  using same_keys_field [of st st' t_timeout p]
  by (cases "load st p"; cases "load st' p") (auto simp: deadline_def)

lemma signal_raise_open:
  assumes "signal_open (tq_signal tq)" "0 < pp_cap (sg_pipe (tq_signal tq))"
  shows "\<exists>r s. timer_queue_signal_raise tq = Some (r, tq\<lparr>tq_signal := s\<rparr>) \<and> signal_open s
     \<and> pp_cap (sg_pipe s) = pp_cap (sg_pipe (tq_signal tq)) \<and> signal_is_raised s"
proof (cases "signal_is_raised (tq_signal tq)")
  case True
  then show ?thesis
    using assms by (auto simp: timer_queue_signal_raise_def signal_raise_def signal_raise_val_def
        intro!: exI [of _ "tq_signal tq"])
next
  case False
  then show ?thesis
    using assms by (auto simp: timer_queue_signal_raise_def signal_raise_def signal_raise_val_def is_raised_iff
        sys_ready_def sys_write_def signal_open_def)
qed

lemma mutex_unlock_locked:
  assumes "\<not> tq_lock tq"
  shows "mutex_unlock (tq\<lparr>tq_lock := True\<rparr>) = tq"
    "mutex_unlock (tq\<lparr>tq_lock := True, tq_queue := q\<rparr>) = tq\<lparr>tq_queue := q\<rparr>"
    "mutex_unlock (tq\<lparr>tq_lock := True, tq_queue := q, tq_signal := s\<rparr>) = tq\<lparr>tq_queue := q, tq_signal := s\<rparr>"
  using assms by (auto simp: mutex_unlock_def intro!: timer_queue.equality)

lemma tq_ok_lock: "tq_ok tq st \<Longrightarrow> mutex_lock tq = Some (tq\<lparr>tq_lock := True\<rparr>)"
  by (simp add: tq_ok_def mutex_lock_def)

lemma inserted_set:
  assumes "inserted h st p h' st'"
  shows "set (heap_ptrs h') = insert p (set (heap_ptrs h))"
proof -
  have "mset (heap_ptrs h') = add_mset p (mset (heap_ptrs h))"
    using assms mset_sift_up [of "length (heap_ptrs h)" "heap_ptrs h @ [p]"] by (simp add: inserted_def)
  then show ?thesis by (metis set_mset_add_mset_insert set_mset_mset)
qed

lemma scheduled_are_change:
  assumes "scheduled_are P st" "\<forall>p. p \<noteq> t \<longrightarrow> map_option hi_active (load st' p) = map_option hi_active (load st p)"
    and "\<forall>v. load st' t = Some v \<longrightarrow> (timer_scheduled v \<longleftrightarrow> t \<in> P')" "P' - {t} = P - {t}"
  shows "scheduled_are P' st'"
  unfolding scheduled_are_def
proof (intro allI impI)
  fix p v assume v: "load st' p = Some v"
  show "timer_scheduled v \<longleftrightarrow> p \<in> P'"
  proof (cases "p = t")
    case True
    then show ?thesis using v assms(3) by simp
  next
    case False
    then obtain w where "load st p = Some w" "hi_active w = hi_active v"
      using assms(2) v by (metis (no_types, lifting) map_option_eq_Some)
    moreover have "p \<in> P' \<longleftrightarrow> p \<in> P" using assms(4) False by blast
    ultimately show ?thesis
      using assms(1) unfolding scheduled_are_def timer_scheduled_def by metis
  qed
qed

lemma delay_ok_due:
  assumes "ts_normal n" "delay_ok n e"
  shows "\<exists>x ts. fit (sint e * 1000) = Some x \<and> timespec_add_nsec n x = Some ts \<and> ts_normal ts \<and> ts_nsecs ts = ts_nsecs n + sint e * 1000"
proof -
  obtain x :: s64 where x: "fit (sint e * 1000) = Some x" "sint x = sint e * 1000"
    using assms(2) fit_long by (auto simp: delay_ok_def)
  then show ?thesis using timespec_add_nsec_ok [OF assms(1), of x] assms(2) by (simp add: delay_ok_def)
qed

text \<open>A timer that is not scheduled goes into the queue with a new timeout.\<close>

definition armed :: "tmem \<Rightarrow> addr \<Rightarrow> timespec \<Rightarrow> tmem" where
  "armed st t ts = st(t \<mapsto> (the (st t))\<lparr>t_timeout := ts\<rparr>)"

lemma armed_load:
  "load st t = Some v \<Longrightarrow> load (armed st t ts) p = (if p = t then Some (v\<lparr>t_timeout := ts\<rparr>) else load st p)"
  by (auto simp: armed_def load_def split: if_splits)

lemma placed_front:
  assumes "heap_wf (tq_queue tq) st" "placed tq st t" "load st t = Some v"
  shows "hi_index v = 0 \<longleftrightarrow> heap_front (tq_queue tq) = Some t"
proof -
  let ?P = "heap_ptrs (tq_queue tq)" and ?i = "unat (hi_index v)"
  have i: "?i < length ?P" "?P ! ?i = t" "0 < length ?P" "distinct ?P"
    using assms length_heap_ptrs [OF assms(1)] by (auto simp: placed_def heap_wf_def)
  then have "?P ! 0 = t \<longleftrightarrow> ?i = 0" using nth_eq_iff_index_eq [of ?P 0 ?i] by auto
  then show ?thesis
    using heap_wf_aread [OF assms(1), of 0] i(3) length_heap_ptrs [OF assms(1)] by (auto simp: heap_front_def word_unat_eq_iff)
qed

lemma inserted_sched:
  assumes ins: "inserted h (armed st t n) t h' st'" and v: "load st t = Some v"
    and sch: "scheduled_are (set (heap_ptrs h)) st"
  shows "scheduled_are (set (heap_ptrs h')) st'"
proof (rule scheduled_are_change [OF sch])
  show "\<forall>p. p \<noteq> t \<longrightarrow> map_option hi_active (load st' p) = map_option hi_active (load st p)"
    using ins v by (simp add: inserted_def armed_load)
  show "\<forall>v. load st' t = Some v \<longrightarrow> timer_scheduled v = (t \<in> set (heap_ptrs h'))"
    unfolding inserted_set [OF ins] using ins by (auto simp: inserted_def timer_scheduled_def)
  show "set (heap_ptrs h') - {t} = set (heap_ptrs h) - {t}"
    unfolding inserted_set [OF ins] by blast
qed

lemma timer_mod_tail:
  assumes un: "timer_mod_unschedule self tq0 st0 t e = Some (first, tq, st)"
    and ok: "tq_ok tq st" "tq_small tq" and v: "load st t = Some v" "\<not> timer_scheduled v"
    and mem: "heap_full (tq_queue tq) \<longrightarrow> ok"
    and ts: "fit (sint (t_expires v) * 1000) = Some x" "timespec_add_nsec n x = Some ts"
  shows "\<exists>tq' st'. timer_mod ok (Some n) self tq0 st0 t e = Some (1, tq', st')
     \<and> inserted (tq_queue tq) (armed st t ts) t (tq_queue tq') st' \<and> tq_ok tq' st' \<and> tq_thr tq' = tq_thr tq \<and> placed tq' st' t
     \<and> (if tq_thr tq \<noteq> self \<and> (heap_front (tq_queue tq') = Some t \<or> first) then signal_is_raised (tq_signal tq')
        else tq_signal tq' = tq_signal tq)"
proof -
  let ?st = "armed st t ts"
  have t: "t \<notin> set (heap_ptrs (tq_queue tq))" "t \<noteq> NULL" "st t = Some v"
    using ok(1) v by (auto simp: tq_ok_def scheduled_are_def tq_timers_def dest: load_SomeD)
  have ld: "load ?st t \<noteq> None" "\<forall>p. load ?st p = None \<longleftrightarrow> load st p = None"
    using v by (auto simp: armed_load)
  have wf: "heap_wf (tq_queue tq) ?st"
    using ok(1) heap_wf_cong [OF ld(2)] by (simp add: tq_ok_def)
  obtain q st' where ins: "heap_insert ok (tq_queue tq) ?st t = Some (0, q, st')" "inserted (tq_queue tq) ?st t q st'"
    using heap_insert_ok [OF wf ld(1) t(1) _ _ mem] ok tmo.blind by (auto simp: tq_ok_def tq_small_def)
  obtain v' where v': "load st' t = Some v'"
    using ins(2) by (auto simp: inserted_def)
  define raise where "raise \<longleftrightarrow> tq_thr tq \<noteq> self \<and> (hi_index v' = 0 \<or> first)"
  let ?tq = "tq\<lparr>tq_lock := True, tq_queue := q\<rparr>"
  obtain r s where rs: "timer_queue_signal_raise ?tq = Some (r, ?tq\<lparr>tq_signal := s\<rparr>)" "signal_open s"
      "pp_cap (sg_pipe s) = pp_cap (sg_pipe (tq_signal tq))" "signal_is_raised s"
    using signal_raise_open [of ?tq] ok(1) by (auto simp: tq_ok_def)
  define tq' where "tq' = (if raise then tq\<lparr>tq_queue := q, tq_signal := s\<rparr> else tq\<lparr>tq_queue := q\<rparr>)"
  have nl: "\<not> tq_lock tq" using ok(1) by (simp add: tq_ok_def)
  have run: "timer_mod ok (Some n) self tq0 st0 t e = Some (1, tq', st')"
    using un v t ins(1) v' rs(1) nl ok(1) ts
    by (simp add: timer_mod_def gettime_def mem_simps tq_ok_lock
        mutex_unlock_locked tq'_def raise_def armed_def)
  have "scheduled_are (set (heap_ptrs q)) st'"
    using inserted_sched [OF ins(2) v(1)] ok(1) by (simp add: tq_ok_def tq_timers_def)
  moreover have q: "heap_wf q st'" "hp_cmp q = hp_cmp (tq_queue tq)" "recorded q st' t"
    using ins(2) unfolding inserted_def by blast+
  ultimately have "tq_ok tq' st'"
    using ok(1) rs(2,3) by (simp add: tq_ok_def tq'_def tq_timers_def)
  moreover have tq': "tq_queue tq' = q" "tq_thr tq' = tq_thr tq" "placed tq' st' t"
    using q(3) by (simp_all add: tq'_def placed_def recorded_def)
  moreover have "hi_index v' = 0 \<longleftrightarrow> heap_front q = Some t"
    using placed_front [OF _ tq'(3) v'] q(1) tq'(1) by simp
  then have "if tq_thr tq \<noteq> self \<and> (heap_front q = Some t \<or> first) then signal_is_raised (tq_signal tq') else tq_signal tq' = tq_signal tq"
    using rs(4) by (simp add: tq'_def raise_def)
  ultimately show ?thesis
    using run ins(2) by auto
qed

text \<open>Taking out the timer at position \<open>i\<close>.\<close>

lemma removed_set:
  assumes rm: "removed h st i h' st'" and wf: "heap_wf h st" and i: "i < unat (hp_size h)"
  shows "set (heap_ptrs h') = set (heap_ptrs h) - {heap_ptrs h ! i}"
proof -
  note len = length_heap_ptrs [OF wf]
  have "heap_ptrs h' = sift_down (ptr_lt (hp_cmp h) st) (refill (heap_ptrs h) i) i"
    using rm by (simp add: removed_def Let_def)
  then have "mset (heap_ptrs h') = mset (refill (heap_ptrs h) i)"
    by (cases "i < length (refill (heap_ptrs h) i)") (simp_all add: mset_sift_down sift_down_beyond)
  then have "set (heap_ptrs h') = set (refill (heap_ptrs h) i)"
    by (rule mset_eq_setD)
  then show ?thesis
    using refill_distinct(2) [of i "heap_ptrs h"] wf i len by (simp add: heap_wf_def)
qed

lemma removed_sched:
  assumes rm: "removed h st i h' st'" and wf: "heap_wf h st" and i: "i < unat (hp_size h)"
    and sch: "scheduled_are (set (heap_ptrs h)) st"
  shows "scheduled_are (set (heap_ptrs h')) st'"
proof (rule scheduled_are_change [OF sch])
  show "\<forall>p. p \<noteq> heap_ptrs h ! i \<longrightarrow> map_option hi_active (load st' p) = map_option hi_active (load st p)"
    using rm by (simp add: removed_def Let_def)
  show "\<forall>v. load st' (heap_ptrs h ! i) = Some v \<longrightarrow> timer_scheduled v = (heap_ptrs h ! i \<in> set (heap_ptrs h'))"
    unfolding removed_set [OF rm wf i] using rm by (auto simp: removed_def Let_def timer_scheduled_def)
  show "set (heap_ptrs h') - {heap_ptrs h ! i} = set (heap_ptrs h) - {heap_ptrs h ! i}"
    unfolding removed_set [OF rm wf i] by blast
qed

lemma tq_small_size: "tq_small tq \<Longrightarrow> heap_wf (tq_queue tq) st \<Longrightarrow> unat (hp_size (tq_queue tq)) < 2 ^ 31"
  by (simp add: tq_small_def heap_wf_def)

lemma queue_remove:
  assumes ok: "tq_ok tq st" "tq_small tq" and i: "unat i < unat (hp_size (tq_queue tq))"
  shows "\<exists>q st'. heap_remove (tq_queue tq) st i = Some (heap_ptrs (tq_queue tq) ! unat i, q, st')
     \<and> removed (tq_queue tq) st (unat i) q st' \<and> heap_wf q st' \<and> hp_cmp q = heap_cmp
     \<and> hp_max_size q = hp_max_size (tq_queue tq) \<and> unat (hp_size q) = unat (hp_size (tq_queue tq)) - 1
     \<and> set (heap_ptrs q) = tq_timers tq - {heap_ptrs (tq_queue tq) ! unat i} \<and> scheduled_are (set (heap_ptrs q)) st'"
proof -
  have wf: "heap_wf (tq_queue tq) st" "hp_cmp (tq_queue tq) = heap_cmp" "scheduled_are (set (heap_ptrs (tq_queue tq))) st"
    using ok(1) by (auto simp: tq_ok_def tq_timers_def)
  have "index_blind (hp_cmp (tq_queue tq))" using wf(2) tmo.blind by simp
  then obtain q st' where r: "heap_remove (tq_queue tq) st i = Some (heap_ptrs (tq_queue tq) ! unat i, q, st')"
      "removed (tq_queue tq) st (unat i) q st'"
    using heap_remove_ok [OF wf(1) i tq_small_size [OF ok(2) wf(1)]] by blast
  then show ?thesis
    using removed_set [OF r(2) wf(1) i] removed_sched [OF r(2) wf(1) i wf(3)] wf(2)
    by (auto simp: removed_def Let_def tq_timers_def)
qed

lemma timer_del_at:
  assumes ok: "tq_ok tq st" "tq_small tq" and v: "load st t = Some v" and i: "unat (hi_index v) < unat (hp_size (tq_queue tq))"
  shows "\<exists>tq' st'. timer_del self tq st t = Some (tq', st')
     \<and> removed (tq_queue tq) st (unat (hi_index v)) (tq_queue tq') st' \<and> tq_ok tq' st' \<and> tq_small tq'
     \<and> tq_thr tq' = tq_thr tq \<and> tq_timers tq' = tq_timers tq - {heap_ptrs (tq_queue tq) ! unat (hi_index v)}
     \<and> (if hi_index v = 0 \<and> tq_thr tq \<noteq> self then signal_is_raised (tq_signal tq') else tq_signal tq' = tq_signal tq)"
proof -
  obtain q st' where r: "heap_remove (tq_queue tq) st (hi_index v) = Some (heap_ptrs (tq_queue tq) ! unat (hi_index v), q, st')"
      "removed (tq_queue tq) st (unat (hi_index v)) q st'"
    and q: "heap_wf q st'" "hp_cmp q = heap_cmp" "hp_max_size q = hp_max_size (tq_queue tq)"
      "set (heap_ptrs q) = tq_timers tq - {heap_ptrs (tq_queue tq) ! unat (hi_index v)}"
      "scheduled_are (set (heap_ptrs q)) st'"
    using queue_remove [OF ok i] by blast
  let ?tq = "tq\<lparr>tq_lock := True, tq_queue := q\<rparr>"
  obtain x s where rs: "timer_queue_signal_raise ?tq = Some (x, ?tq\<lparr>tq_signal := s\<rparr>)" "signal_open s"
      "pp_cap (sg_pipe s) = pp_cap (sg_pipe (tq_signal tq))" "signal_is_raised s"
    using signal_raise_open [of ?tq] ok(1) by (auto simp: tq_ok_def)
  define raise where "raise \<longleftrightarrow> hi_index v = 0 \<and> tq_thr tq \<noteq> self"
  define tq' where "tq' = (if raise then tq\<lparr>tq_queue := q, tq_signal := s\<rparr> else tq\<lparr>tq_queue := q\<rparr>)"
  have nl: "\<not> tq_lock tq" using ok(1) by (simp add: tq_ok_def)
  have "timer_del self tq st t = Some (tq', st')"
    using v r(1) rs(1) nl ok(1)
    by (auto simp: timer_del_def timer_del_locked_def tq_ok_lock mutex_unlock_locked tq'_def raise_def Let_def)
  moreover have "tq_ok tq' st'" "tq_small tq'" "tq_queue tq' = q" "tq_thr tq' = tq_thr tq"
      "if raise then signal_is_raised (tq_signal tq') else tq_signal tq' = tq_signal tq"
    using ok q rs(2-4) by (auto simp: tq_ok_def tq_small_def tq'_def tq_timers_def)
  ultimately show ?thesis
    using r(2) q(4) by (auto simp: raise_def tq_timers_def)
qed

text \<open>Clearing the signal never reports anything.\<close>

lemma signal_lower_none:
  assumes "timer_queue_signal_lower tq = Some (r, tq')"
  shows "r = TIMER_SIGNAL_NONE"
  using assms
  by (auto simp: timer_queue_signal_lower_def signal_clear_val_def bind_Some_iff dest: clear_loop_size split: if_splits)

lemma signal_lower_open:
  assumes "signal_open (tq_signal tq)"
  shows "timer_queue_signal_lower tq
    = Some (TIMER_SIGNAL_NONE, tq\<lparr>tq_signal := (tq_signal tq)\<lparr>sg_pipe := (sg_pipe (tq_signal tq))\<lparr>pp_queue := []\<rparr>\<rparr>\<rparr>)"
  using assms
  by (simp add: timer_queue_signal_lower_def signal_clear_val_def clear_loop_open signal_open_def)

lemma tq_front:
  assumes "tq_ok tq st" "\<not> heap_empty (tq_queue tq)"
  shows "\<exists>t v. heap_front (tq_queue tq) = Some t \<and> load st t = Some v \<and> t = heap_ptrs (tq_queue tq) ! 0 \<and> t \<in> tq_timers tq"
proof -
  have wf: "heap_wf (tq_queue tq) st" and n: "0 < unat (hp_size (tq_queue tq))"
    using assms by (auto simp: tq_ok_def heap_empty_def unat_gt_0)
  have "heap_ptrs (tq_queue tq) ! 0 \<in> tq_timers tq"
    using n length_heap_ptrs [OF wf] by (simp add: tq_timers_def)
  then show ?thesis
    using heap_wf_aread [OF wf n] heap_wf_load [OF wf n] by (auto simp: heap_front_def)
qed

lemma unschedule_idle:
  "load st t = Some v \<Longrightarrow> \<not> timer_scheduled v \<Longrightarrow> timer_mod_unschedule self tq st t e = Some (False, tq, st)"
  by (simp add: timer_mod_unschedule_def)

text \<open>Deadlines and the order of the heap.\<close>

definition all_normal :: "timer_queue \<Rightarrow> tmem \<Rightarrow> bool" where
  "all_normal tq st \<longleftrightarrow> (\<forall>p \<in> tq_timers tq. ts_normal (t_timeout (the (load st p))))"

lemma ptr_lt_deadline:
  "ts_normal (t_timeout (the (load st p))) \<Longrightarrow> ts_normal (t_timeout (the (load st q))) \<Longrightarrow>
     ptr_lt heap_cmp st p q \<longleftrightarrow> deadline st p < deadline st q"
  by (simp add: ptr_lt_def heap_cmp_def deadline_def timespec_lt_units)

lemma front_latest:
  assumes "tq_ok tq st" "\<not> heap_empty (tq_queue tq)" "latest_first tq st" "all_normal tq st"
  shows "\<exists>f. heap_front (tq_queue tq) = Some f \<and> f \<in> tq_timers tq \<and> (\<forall>p \<in> tq_timers tq. deadline st p \<le> deadline st f)"
proof -
  obtain f where f: "heap_front (tq_queue tq) = Some f" "f = heap_ptrs (tq_queue tq) ! 0" "f \<in> tq_timers tq"
    using tq_front [OF assms(1,2)] by blast
  have wf: "heap_wf (tq_queue tq) st" "0 < hp_size (tq_queue tq)"
    using assms(1,2) by (auto simp: tq_ok_def heap_empty_def word_neq_0_conv)
  have "deadline st p \<le> deadline st f" if "p \<in> tq_timers tq" for p
    using tmo.max_front(2) [OF assms(3) [unfolded latest_first_def] wf, of p] that f ptr_lt_deadline [of st f p] assms(4)
    by (auto simp: tq_timers_def all_normal_def)
  with f show ?thesis by blast
qed

lemma armed_deadline:
  assumes "load st t = Some v"
  shows "deadline (armed st t ts) t = ts_nsecs ts" "t_timeout (the (load (armed st t ts) t)) = ts"
    "p \<noteq> t \<Longrightarrow> deadline (armed st t ts) p = deadline st p"
  using assms by (auto simp: deadline_def armed_load)

lemma ptr_lt_cong: "load st' p = load st p \<Longrightarrow> load st' q = load st q \<Longrightarrow> ptr_lt c st' p q = ptr_lt c st p q"
  by (simp add: ptr_lt_def)

lemma armed_latest_first:
  assumes "latest_first tq st" "load st t = Some v" "t \<notin> tq_timers tq"
  shows "latest_first tq (armed st t n)"
proof -
  have "ptr_lt heap_cmp (armed st t n) p q = ptr_lt heap_cmp st p q" if "p \<in> tq_timers tq" "q \<in> tq_timers tq" for p q
    using that assms by (intro ptr_lt_cong) (auto simp: armed_load)
  moreover have "par i < length (heap_ptrs (tq_queue tq))" if "0 < i" "i < length (heap_ptrs (tq_queue tq))" for i
    using par_less [of i] that by simp
  ultimately show ?thesis
    using assms(1) by (auto simp: latest_first_def min_heap_def tq_timers_def)
qed

lemma same_keys_normal:
  assumes "same_keys st st'"
  shows "ts_normal (t_timeout (the (load st' p))) = ts_normal (t_timeout (the (load st p)))"
  using same_keys_field [OF assms, of t_timeout p] by (cases "load st p"; cases "load st' p") auto

lemma tq_ok_upd:
  assumes "tq_ok tq st" "load st t = Some v" "hi_active w = hi_active v"
  shows "tq_ok tq (st(t \<mapsto> w))"
proof -
  have "t \<noteq> NULL" using assms(2) by (auto dest: load_SomeD)
  then have "\<forall>p. load (st(t \<mapsto> w)) p = None \<longleftrightarrow> load st p = None"
    using assms(2) by (auto simp: mem_simps)
  moreover have "scheduled_are (tq_timers tq) (st(t \<mapsto> w))"
    using assms \<open>t \<noteq> NULL\<close> by (auto simp: tq_ok_def scheduled_are_def timer_scheduled_def mem_simps)
  ultimately show ?thesis
    using assms(1) heap_wf_cong [of "st(t \<mapsto> w)" st] by (simp add: tq_ok_def)
qed

lemma unschedule_placed:
  assumes ok: "tq_ok tq st" "tq_small tq" and t: "load st t = Some v" "timer_scheduled v" "placed tq st t"
  shows "\<exists>tq' st' w. timer_mod_unschedule self tq st t e = Some (heap_front (tq_queue tq) = Some t, tq', st') \<and> tq_ok tq' st' \<and> tq_small tq'
     \<and> tq_timers tq' = tq_timers tq - {t} \<and> load st' t = Some w \<and> \<not> timer_scheduled w \<and> t_expires w = e
     \<and> \<not> heap_full (tq_queue tq') \<and> tq_thr tq' = tq_thr tq \<and> (\<forall>p. p \<noteq> t \<longrightarrow> deadline st' p = deadline st p)"
proof -
  have i: "unat (hi_index v) < unat (hp_size (tq_queue tq))" "heap_ptrs (tq_queue tq) ! unat (hi_index v) = t"
    using t by (auto simp: placed_def)
  have fr: "hi_index v = 0 \<longleftrightarrow> heap_front (tq_queue tq) = Some t"
    using placed_front [OF _ t(3,1)] ok(1) by (simp add: tq_ok_def)
  obtain tq' st1 where d: "timer_del self tq st t = Some (tq', st1)"
      "removed (tq_queue tq) st (unat (hi_index v)) (tq_queue tq') st1" "tq_ok tq' st1" "tq_small tq'"
      "tq_thr tq' = tq_thr tq" "tq_timers tq' = tq_timers tq - {t}"
    using timer_del_at [OF ok t(1) i(1)] i(2) by blast
  have rm: "map_option (\<lambda>v. (hi_index v, hi_active v)) (load st1 t) = Some (0, 0)" "same_keys st st1"
      "unat (hp_size (tq_queue tq')) = unat (hp_size (tq_queue tq)) - 1"
      "hp_max_size (tq_queue tq') = hp_max_size (tq_queue tq)"
    using d(2) i(2) by (auto simp: removed_def Let_def)
  then obtain v1 where v1: "load st1 t = Some v1" "hi_active v1 = 0" by auto
  define st' where "st' = st1(t \<mapsto> v1\<lparr>t_expires := e\<rparr>)"
  have "t \<noteq> NULL" using v1 by (auto dest: load_SomeD)
  then have l: "load st' p = (if p = t then Some (v1\<lparr>t_expires := e\<rparr>) else load st1 p)" for p
    by (simp add: st'_def mem_simps)
  have "timer_mod_unschedule self tq st t e = Some (heap_front (tq_queue tq) = Some t, tq', st')"
    using t d(1) v1 fr by (simp add: timer_mod_unschedule_def mem_simps st'_def)
  moreover have "tq_ok tq' st'"
    using tq_ok_upd [OF d(3) v1(1)] by (simp add: st'_def)
  moreover have "\<not> heap_full (tq_queue tq')"
    using ok(1) i(1) rm(3,4) by (auto simp: heap_full_def tq_ok_def heap_wf_def word_le_nat_alt)
  moreover have "deadline st' p = deadline st p" if "p \<noteq> t" for p
    using that same_keys_deadline [OF rm(2), of p] by (simp add: deadline_def l)
  ultimately show ?thesis
    using d(4-6) l [of t] v1(2) by (auto simp: timer_scheduled_def)
qed

text \<open>What the next timeout is computed from.\<close>

lemma normal_negative: "ts_normal ts \<Longrightarrow> sint (tv_sec ts) < 0 \<longleftrightarrow> ts_nsecs ts < 0"
  by (auto simp: ts_normal_def ts_nsecs_def NSEC_PER_SEC_def)

lemma usecs_of_normal:
  assumes "ts_normal ts" "- (2 ^ 62) * 1000 \<le> ts_nsecs ts" "ts_nsecs ts < 2 ^ 63 * 1000"
  shows "\<exists>us :: s64. do { usec \<leftarrow> fit (sint (tv_sec ts) * 1000000); fit (sint (usec :: s64) + sint (tv_nsec ts) sdiv 1000) } = Some us
     \<and> sint us = ts_nsecs ts div 1000"
proof -
  have q: "sint (tv_nsec ts) sdiv 1000 = sint (tv_nsec ts) div 1000"
    using assms(1) by (simp add: ts_normal_def signed_divide_int_def sgn_if)
  have "ts_nsecs ts = sint (tv_sec ts) * 1000000 * 1000 + sint (tv_nsec ts)"
    by (simp add: ts_nsecs_def NSEC_PER_SEC_def)
  then have d: "ts_nsecs ts div 1000 = sint (tv_sec ts) * 1000000 + sint (tv_nsec ts) div 1000" by simp
  have n: "0 \<le> sint (tv_nsec ts) div 1000" "sint (tv_nsec ts) div 1000 < 1000000"
    using assms(1) by (auto simp: ts_normal_def NSEC_PER_SEC_def)
  have l: "- (2 ^ 62) \<le> ts_nsecs ts div 1000" "ts_nsecs ts div 1000 < 2 ^ 63" using assms(2,3) by auto
  then have "in_long (sint (tv_sec ts) * 1000000)" "in_long (ts_nsecs ts div 1000)" using n d by (auto simp: in_long_def)
  then obtain a b :: s64 where "fit (sint (tv_sec ts) * 1000000) = Some a" "sint a = sint (tv_sec ts) * 1000000"
      "fit (ts_nsecs ts div 1000) = Some b" "sint b = ts_nsecs ts div 1000"
    using fit_long by blast
  then show ?thesis using d q by simp
qed

lemma uint_wrap_64: "0 \<le> x \<Longrightarrow> x < 2 ^ 63 \<Longrightarrow> uint (word_of_int x :: u64) = x"
    "- (2 ^ 63) \<le> x \<Longrightarrow> x < 0 \<Longrightarrow> 2 ^ 63 \<le> uint (word_of_int x :: u64)"
proof -
  show "0 \<le> x \<Longrightarrow> x < 2 ^ 63 \<Longrightarrow> uint (word_of_int x :: u64) = x"
    by (simp add: uint_word_of_int)
  assume a: "- (2 ^ 63) \<le> x" "x < 0"
  have "x mod 2 ^ 64 = (x + 2 ^ 64) mod 2 ^ 64" by simp
  also have "\<dots> = x + 2 ^ 64" using a by (intro mod_pos_pos_trivial) auto
  finally show "2 ^ 63 \<le> uint (word_of_int x :: u64)" using a by (simp add: uint_word_of_int)
qed

lemma uint_of_sint_64:
  fixes w :: s64
  shows "0 \<le> sint w \<Longrightarrow> uint w = sint w" "sint w < 0 \<Longrightarrow> 2 ^ 63 \<le> uint w"
  using uint_wrap_64 [of "sint w"] in_long_sint [of w] by (simp_all add: in_long_def)

definition lowered :: "timer_queue \<Rightarrow> timer_queue" where
  "lowered tq = tq\<lparr>tq_signal := (tq_signal tq)\<lparr>sg_pipe := (sg_pipe (tq_signal tq))\<lparr>pp_queue := []\<rparr>\<rparr>\<rparr>"

lemma tq_lowered:
  assumes "tq_ok tq st"
  shows "timer_queue_signal_lower tq = Some (TIMER_SIGNAL_NONE, lowered tq)" "tq_ok (lowered tq) st"
    "\<not> signal_is_raised (tq_signal (lowered tq))"
  using assms signal_lower_open [of tq]
  by (auto simp: lowered_def tq_ok_def signal_open_def is_raised_iff sys_ready_def tq_timers_def)

text \<open>
  Destruction. The destructors run with the mutex of the queue locked, so one that calls an operation of the queue never returns. A destructor that leaves the queue
  alone does \<open>eff\<close> to the timer it is called on, \<open>None\<close> if it frees it, and \<open>upd\<close> to the rest of the program. Both may be anything: calling a destructor twice, or
  not at all, shows in the result.
\<close>

definition destructs ::
  "'w tcall \<Rightarrow> (addr \<Rightarrow> addr \<Rightarrow> timer option \<Rightarrow> timer option) \<Rightarrow> (addr \<Rightarrow> addr \<Rightarrow> 'w \<Rightarrow> 'w) \<Rightarrow> bool" where
  "destructs call eff upd \<longleftrightarrow> (\<forall>d p tq st w. call d p (tq, st, w) = Some (tq, st(p := eff d p (st p)), upd d p w))"

text \<open>A timer that has been taken out, what its destructor leaves of it, and what the destructor does to the rest.\<close>

abbreviation reset :: "timer \<Rightarrow> timer" where
  "reset v \<equiv> v\<lparr>hi_index := 0, hi_active := 0\<rparr>"

definition remains :: "(addr \<Rightarrow> addr \<Rightarrow> timer option \<Rightarrow> timer option) \<Rightarrow> tmem \<Rightarrow> addr \<Rightarrow> timer option" where
  "remains eff st p = (let v = reset (the (load st p)) in if t_destruct v = NULL then Some v else eff (t_destruct v) p (Some v))"

definition called :: "(addr \<Rightarrow> addr \<Rightarrow> 'w \<Rightarrow> 'w) \<Rightarrow> tmem \<Rightarrow> addr \<Rightarrow> 'w \<Rightarrow> 'w" where
  "called upd st p w = (let d = t_destruct (the (load st p)) in if d = NULL then w else upd d p w)"

lemma remains_cong:
  assumes "map_option reset (load st' p) = map_option reset (load st p)" "load st p \<noteq> None"
  shows "remains eff st' p = remains eff st p" "called upd st' p = called upd st p"
proof -
  obtain v v' where v: "load st p = Some v" "load st' p = Some v'" "reset v' = reset v"
    using assms by (cases "load st p"; cases "load st' p") auto
  then have "t_destruct v' = t_destruct v" by (cases v; cases v') simp
  then show "remains eff st' p = remains eff st p" "called upd st' p = called upd st p"
    using v by (auto simp: remains_def called_def)
qed

lemma heap_wf_frame:
  "\<forall>p \<in> set (heap_ptrs h). load st' p = load st p \<Longrightarrow> heap_wf h st \<Longrightarrow> heap_wf h st'"
  by (auto simp: heap_wf_def)

lemma destroy_step:
  assumes wf: "heap_wf (tq_queue tq) st" "hp_cmp (tq_queue tq) = heap_cmp" "unat (hp_size (tq_queue tq)) < 2 ^ 31"
    and ne: "\<not> heap_empty (tq_queue tq)" and call: "destructs call eff upd"
  shows "\<exists>f q st'. timer_destroy_loop call tq st w = timer_destroy_loop call (tq\<lparr>tq_queue := q\<rparr>) st' (called upd st f w)
     \<and> heap_wf q st' \<and> hp_cmp q = heap_cmp \<and> unat (hp_size q) = unat (hp_size (tq_queue tq)) - 1
     \<and> f \<in> set (heap_ptrs (tq_queue tq)) \<and> set (heap_ptrs q) = set (heap_ptrs (tq_queue tq)) - {f} \<and> load st' f = remains eff st f
     \<and> (\<forall>p. p \<notin> set (heap_ptrs (tq_queue tq)) \<longrightarrow> load st' p = load st p)
     \<and> (\<forall>p. p \<noteq> f \<longrightarrow> map_option reset (load st' p) = map_option reset (load st p))"
proof -
  have n: "unat (0 :: u32) < unat (hp_size (tq_queue tq))"
    using ne by (simp add: heap_empty_def unat_gt_0)
  have "index_blind (hp_cmp (tq_queue tq))" using wf(2) tmo.blind by simp
  then obtain q st1 where r: "heap_remove (tq_queue tq) st 0 = Some (heap_ptrs (tq_queue tq) ! 0, q, st1)"
      "removed (tq_queue tq) st 0 q st1"
    using heap_remove_ok [OF wf(1) n wf(3)] by auto
  define f where "f = heap_ptrs (tq_queue tq) ! 0"
  have f: "f \<in> set (heap_ptrs (tq_queue tq))"
    using n length_heap_ptrs [OF wf(1)] by (simp add: f_def)
  have q: "set (heap_ptrs q) = set (heap_ptrs (tq_queue tq)) - {f}"
    using removed_set [OF r(2) wf(1)] n by (simp add: f_def)
  have rm: "heap_wf q st1" "hp_cmp q = heap_cmp" "unat (hp_size q) = unat (hp_size (tq_queue tq)) - 1" "same_keys st st1"
      "map_option (\<lambda>v. (hi_index v, hi_active v)) (load st1 f) = Some (0, 0)"
      "\<forall>p. p \<notin> set (heap_ptrs (tq_queue tq)) \<longrightarrow> load st1 p = load st p"
    using r(2) wf(2) by (auto simp: removed_def Let_def f_def)
  have sk: "map_option reset (load st1 p) = map_option reset (load st p)" for p
    using rm(4) by (simp add: same_keys_def)
  obtain v where v: "load st1 f = Some v" "hi_index v = 0" "hi_active v = 0" using rm(5) by auto
  have rv: "reset v = v" using v(2,3) by (cases v) simp
  obtain v0 where v0: "load st f = Some v0" "reset v0 = v"
    using sk [of f] v(1) rv by (cases "load st f") auto
  have fn: "f \<noteq> NULL" "st1 f = Some v" using load_SomeD [OF v(1)] by auto
  define st' where "st' = (if t_destruct v = NULL then st1 else st1(f := eff (t_destruct v) f (Some v)))"
  have l: "load st' p = (if p = f \<and> t_destruct v \<noteq> NULL then eff (t_destruct v) f (Some v) else load st1 p)" for p
    using fn(1) by (auto simp: st'_def load_def)
  have d: "t_destruct v0 = t_destruct v" using v0(2) by (cases v0) auto
  have "timer_destroy_loop call tq st w = timer_destroy_loop call (tq\<lparr>tq_queue := q\<rparr>) st' (called upd st f w)"
    using ne r(1) v(1) fn(2) call d v0(1)
    by (subst timer_destroy_loop.simps) (simp add: heap_remove_first_def f_def [symmetric] destructs_def st'_def called_def Let_def)
  moreover have "heap_wf q st'"
    using q by (intro heap_wf_frame [OF _ rm(1)]) (auto simp: l)
  moreover have "load st' f = remains eff st f"
    using v(1) v0 by (simp add: remains_def l)
  ultimately show ?thesis
    using rm(2,3,6) f q sk by (intro exI [of _ f] exI [of _ q] exI [of _ st']) (auto simp: l)
qed

lemma destroy_loop_ok:
  assumes "heap_wf (tq_queue tq) st" "hp_cmp (tq_queue tq) = heap_cmp" "unat (hp_size (tq_queue tq)) < 2 ^ 31" "destructs call eff upd"
  shows "\<exists>q st' ps. timer_destroy_loop call tq st w = Some (tq\<lparr>tq_queue := q\<rparr>, st', fold (called upd st) ps w) \<and> heap_empty q
     \<and> distinct ps \<and> set ps = set (heap_ptrs (tq_queue tq))
     \<and> (\<forall>p \<in> set (heap_ptrs (tq_queue tq)). load st' p = remains eff st p)
     \<and> (\<forall>p. p \<notin> set (heap_ptrs (tq_queue tq)) \<longrightarrow> load st' p = load st p)"
  using assms(1-3)
proof (induction "unat (hp_size (tq_queue tq))" arbitrary: tq st w rule: less_induct)
  case less
  show ?case
  proof (cases "heap_empty (tq_queue tq)")
    case True
    then have "heap_ptrs (tq_queue tq) = []" by (simp add: heap_empty_def heap_ptrs_def)
    then show ?thesis
      using True by (subst timer_destroy_loop.simps) (auto intro!: exI [of _ "tq_queue tq"] exI [of _ "[]"])
  next
    case False
    obtain f q st1 where st: "timer_destroy_loop call tq st w = timer_destroy_loop call (tq\<lparr>tq_queue := q\<rparr>) st1 (called upd st f w)"
        "heap_wf q st1" "hp_cmp q = heap_cmp" "unat (hp_size q) = unat (hp_size (tq_queue tq)) - 1"
        "f \<in> set (heap_ptrs (tq_queue tq))" "set (heap_ptrs q) = set (heap_ptrs (tq_queue tq)) - {f}" "load st1 f = remains eff st f"
      and fr: "\<forall>p. p \<notin> set (heap_ptrs (tq_queue tq)) \<longrightarrow> load st1 p = load st p"
        "\<forall>p. p \<noteq> f \<longrightarrow> map_option reset (load st1 p) = map_option reset (load st p)"
      using destroy_step [OF less.prems False assms(4)] by blast
    have "0 < unat (hp_size (tq_queue tq))" using False by (simp add: heap_empty_def unat_gt_0)
    then obtain q' st' ps where r: "timer_destroy_loop call (tq\<lparr>tq_queue := q\<rparr>) st1 (called upd st f w)
          = Some (tq\<lparr>tq_queue := q'\<rparr>, st', fold (called upd st1) ps (called upd st f w))" "heap_empty q'"
        "distinct ps" "set ps = set (heap_ptrs q)"
        "\<forall>p \<in> set (heap_ptrs q). load st' p = remains eff st1 p" "\<forall>p. p \<notin> set (heap_ptrs q) \<longrightarrow> load st' p = load st1 p"
      using less.hyps [of "tq\<lparr>tq_queue := q\<rparr>" st1 "called upd st f w"] st(2-4) less_imp_diff_less [OF less.prems(3)] by auto
    have same: "remains eff st1 p = remains eff st p" "called upd st1 p = called upd st p" if "p \<in> set (heap_ptrs q)" for p
      using that st(6) fr(2) less.prems(1) remains_cong [of st1 p st] by (auto simp: heap_wf_def)
    have "fold (called upd st1) ps (called upd st f w) = fold (called upd st) (f # ps) w"
      using fold_cong [OF refl refl, of ps "called upd st1" "called upd st"] same(2) r(4) by simp
    moreover have "load st' p = remains eff st p" if "p \<in> set (heap_ptrs (tq_queue tq))" for p
      using that r(5,6) st(6,7) same(1) by (cases "p = f") auto
    ultimately show ?thesis
      using st(1,5,6) r(1-4,6) fr(1) by (intro exI [of _ q'] exI [of _ st'] exI [of _ "f # ps"]) auto
  qed
qed

section \<open>Properties\<close>

text \<open>
  C14: \<open>timer_add\<close> of a timer that is not scheduled, with a delay that does not overflow, puts it into the queue with the deadline "now plus
  \<open>expires\<close> microseconds", exactly and in normal form, with its position recorded; it touches no other deadline and leaves the mutex
  unlocked. The signal is raised if another thread than the queue's own put the timer at the front, and left alone otherwise. A delay of more
  nanoseconds than a \<^verbatim>\<open>long\<close> holds overflows.
\<close>

theorem timer_add_correct:
  assumes "tq_ok tq st" "tq_small tq" "load st t = Some v" "\<not> timer_scheduled v" "heap_full (tq_queue tq) \<longrightarrow> ok"
    and "ts_normal n"
  shows "(delay_ok n (t_expires v) \<longrightarrow> (\<exists>tq' st'. timer_add ok (Some n) self tq st t = Some (1, tq', st') \<and> tq_ok tq' st'
       \<and> tq_timers tq' = insert t (tq_timers tq) \<and> placed tq' st' t
       \<and> deadline st' t = ts_nsecs n + sint (t_expires v) * 1000 \<and> ts_normal (t_timeout (the (load st' t)))
       \<and> (\<forall>p. p \<noteq> t \<longrightarrow> deadline st' p = deadline st p)
       \<and> (if tq_thr tq \<noteq> self \<and> heap_front (tq_queue tq') = Some t then signal_is_raised (tq_signal tq') else tq_signal tq' = tq_signal tq)))
     \<and> (\<not> in_long (sint (t_expires v) * 1000) \<longrightarrow> timer_add ok (Some n) self tq st t = None)"
proof (intro conjI impI)
  assume "delay_ok n (t_expires v)"
  then obtain x ts where ts: "fit (sint (t_expires v) * 1000) = Some x" "timespec_add_nsec n x = Some ts" "ts_normal ts"
      "ts_nsecs ts = ts_nsecs n + sint (t_expires v) * 1000"
    using delay_ok_due [OF assms(6)] by blast
  obtain tq' st' where r: "timer_mod ok (Some n) self tq st t (t_expires v) = Some (1, tq', st')"
      "inserted (tq_queue tq) (armed st t ts) t (tq_queue tq') st'" "tq_ok tq' st'" "placed tq' st' t"
      "if tq_thr tq \<noteq> self \<and> heap_front (tq_queue tq') = Some t then signal_is_raised (tq_signal tq') else tq_signal tq' = tq_signal tq"
    using timer_mod_tail [OF unschedule_idle [OF assms(3,4)] assms(1-5) ts(1,2), unfolded simp_thms] by blast
  have sk: "same_keys (armed st t ts) st'" using r(2) by (simp add: inserted_def)
  show "\<exists>tq' st'. timer_add ok (Some n) self tq st t = Some (1, tq', st') \<and> tq_ok tq' st'
       \<and> tq_timers tq' = insert t (tq_timers tq) \<and> placed tq' st' t
       \<and> deadline st' t = ts_nsecs n + sint (t_expires v) * 1000 \<and> ts_normal (t_timeout (the (load st' t)))
       \<and> (\<forall>p. p \<noteq> t \<longrightarrow> deadline st' p = deadline st p)
       \<and> (if tq_thr tq \<noteq> self \<and> heap_front (tq_queue tq') = Some t then signal_is_raised (tq_signal tq') else tq_signal tq' = tq_signal tq)"
    using r assms(3,4) inserted_set [OF r(2)] same_keys_deadline [OF sk] same_keys_normal [OF sk] armed_deadline [OF assms(3)] ts(3,4)
    by (intro exI [of _ tq'] exI [of _ st']) (simp add: timer_add_def tq_timers_def)
next
  assume "\<not> in_long (sint (t_expires v) * 1000)"
  then show "timer_add ok (Some n) self tq st t = None"
    using assms(3,4) unschedule_idle [OF assms(3,4)] by (simp add: timer_add_def timer_mod_def gettime_def fit_64)
qed

text \<open>
  \<open>timer_add\<close> of a timer that is already scheduled returns \<open>-1\<close> and changes nothing; if the queue is
  full and cannot grow it returns \<open>-1\<close>, leaves the queue as it was and the mutex unlocked.
\<close>

theorem timer_add_errors:
  assumes "tq_ok tq st" "load st t = Some v" "ts_normal n" "delay_ok n (t_expires v)"
  shows "(timer_scheduled v \<longrightarrow> timer_add ok now self tq st t = Some (-1, tq, st))
     \<and> (\<not> timer_scheduled v \<and> heap_full (tq_queue tq) \<longrightarrow>
          (\<exists>st'. timer_add False (Some n) self tq st t = Some (-1, tq, st') \<and> (\<forall>p. p \<noteq> t \<longrightarrow> load st' p = load st p)))"
proof -
  have "\<exists>st'. timer_add False (Some n) self tq st t = Some (-1, tq, st') \<and> (\<forall>p. p \<noteq> t \<longrightarrow> load st' p = load st p)"
    if u: "\<not> timer_scheduled v" and f: "heap_full (tq_queue tq)"
  proof -
    obtain x ts where ts: "fit (sint (t_expires v) * 1000) = Some x" "timespec_add_nsec n x = Some ts"
      using delay_ok_due [OF assms(3,4)] by blast
    have nl: "\<not> tq_lock tq" "mutex_lock tq = Some (tq\<lparr>tq_lock := True\<rparr>)"
      using assms(1) tq_ok_lock by (auto simp: tq_ok_def)
    then have "tq\<lparr>tq_lock := False, tq_queue := tq_queue tq\<rparr> = tq" by simp
    moreover have "heap_insert False (tq_queue tq) s t = Some (-1, tq_queue tq, s)" for s
      using f by (simp add: heap_insert_def heap_increase_size_def)
    ultimately show ?thesis
      using u assms(2) ts nl unschedule_idle [OF assms(2) u]
      by (auto simp: timer_add_def timer_mod_def gettime_def mem_simps mutex_unlock_locked)
  qed
  then show ?thesis using assms(2) by (auto simp: timer_add_def)
qed

text \<open>
  A queue filled by \<open>timer_add\<close> has the timer with the latest deadline in front: the order in which
  no timer's deadline is after the deadline of the timer above it is kept, so the timer that
  \<open>timer_next_timeout\<close> and \<open>timer_handle_timeout\<close> look at is the one that expires last.
\<close>

theorem timer_add_latest_in_front:
  assumes "tq_ok tq st" "tq_small tq" "load st t = Some v" "\<not> timer_scheduled v" "heap_full (tq_queue tq) \<longrightarrow> ok"
    and "ts_normal n" "delay_ok n (t_expires v)" "latest_first tq st" "all_normal tq st"
  shows "\<exists>tq' st' f. timer_add ok (Some n) self tq st t = Some (1, tq', st')
     \<and> latest_first tq' st' \<and> all_normal tq' st' \<and> heap_front (tq_queue tq') = Some f
     \<and> (\<forall>p \<in> insert t (tq_timers tq). deadline st' p \<le> deadline st' f)"
proof -
  obtain x ts where ts: "fit (sint (t_expires v) * 1000) = Some x" "timespec_add_nsec n x = Some ts" "ts_normal ts"
    using delay_ok_due [OF assms(6,7)] by blast
  obtain tq' st' where r: "timer_mod ok (Some n) self tq st t (t_expires v) = Some (1, tq', st')"
      "inserted (tq_queue tq) (armed st t ts) t (tq_queue tq') st'" "tq_ok tq' st'"
    using timer_mod_tail [OF unschedule_idle [OF assms(3,4)] assms(1-5) ts(1,2)] by blast
  have sk: "same_keys (armed st t ts) st'" and sz: "unat (hp_size (tq_queue tq')) = unat (hp_size (tq_queue tq)) + 1"
    using r(2) by (auto simp: inserted_def)
  have t: "t \<notin> tq_timers tq" "hp_cmp (tq_queue tq) = heap_cmp"
    using assms(1,3,4) by (auto simp: tq_ok_def scheduled_are_def)
  have set: "tq_timers tq' = insert t (tq_timers tq)"
    using inserted_set [OF r(2)] by (simp add: tq_timers_def)
  have "latest_first tq' st'"
    using tmo.insert_keeps_max [OF r(2) t(2)] armed_latest_first [OF assms(8,3) t(1)] by (simp add: latest_first_def)
  moreover have "ts_normal (t_timeout (the (load st' p)))" if "p \<in> tq_timers tq'" for p
    using that set same_keys_normal [OF sk] armed_deadline [OF assms(3)] assms(3,9) t(1) ts(3)
    by (cases "p = t") (auto simp: all_normal_def armed_load)
  then have "all_normal tq' st'" by (simp add: all_normal_def)
  moreover have "\<not> heap_empty (tq_queue tq')"
    using sz by (auto simp: heap_empty_def)
  moreover have "timer_add ok (Some n) self tq st t = Some (1, tq', st')"
    using r(1) assms(3,4) by (simp add: timer_add_def)
  ultimately show ?thesis
    using front_latest [OF r(3)] set by metis
qed

text \<open>
  C15: \<open>timer_mod\<close> of a scheduled timer whose recorded position is right moves it to the deadline "now plus
  the new \<open>expires\<close>", if that does not overflow; it needs no memory, the set of scheduled timers stays the same, and if another thread than the queue's own
  moves a timer from or to the front the signal is raised. A timer that is not scheduled is scheduled too, but the argument \<open>expires\<close> is ignored: the deadline is
  now plus the delay stored in the timer before. A delay of more nanoseconds than a \<^verbatim>\<open>long\<close> holds overflows.
\<close>

theorem timer_mod_correct:
  assumes "tq_ok tq st" "tq_small tq" "load st t = Some v" "ts_normal n"
  shows "(timer_scheduled v \<and> placed tq st t \<and> delay_ok n e \<longrightarrow>
          (\<exists>tq' st'. timer_mod ok (Some n) self tq st t e = Some (1, tq', st') \<and> tq_ok tq' st'
             \<and> tq_timers tq' = tq_timers tq \<and> placed tq' st' t \<and> deadline st' t = ts_nsecs n + sint e * 1000
             \<and> (\<forall>p. p \<noteq> t \<longrightarrow> deadline st' p = deadline st p)
             \<and> (tq_thr tq \<noteq> self \<and> (heap_front (tq_queue tq) = Some t \<or> heap_front (tq_queue tq') = Some t) \<longrightarrow> signal_is_raised (tq_signal tq'))))
     \<and> (\<not> timer_scheduled v \<and> (heap_full (tq_queue tq) \<longrightarrow> ok) \<and> delay_ok n (t_expires v) \<longrightarrow>
          (\<exists>tq' st'. timer_mod ok (Some n) self tq st t e = Some (1, tq', st') \<and> tq_ok tq' st'
             \<and> tq_timers tq' = insert t (tq_timers tq) \<and> placed tq' st' t \<and> deadline st' t = ts_nsecs n + sint (t_expires v) * 1000
             \<and> (\<forall>p. p \<noteq> t \<longrightarrow> deadline st' p = deadline st p)))
     \<and> (timer_scheduled v \<and> placed tq st t \<and> \<not> in_long (sint e * 1000) \<longrightarrow> timer_mod ok (Some n) self tq st t e = None)"
proof (intro conjI impI; elim conjE)
  assume s: "timer_scheduled v" "placed tq st t" "delay_ok n e"
  obtain x ts where ts: "fit (sint e * 1000) = Some x" "timespec_add_nsec n x = Some ts" "ts_nsecs ts = ts_nsecs n + sint e * 1000"
    using delay_ok_due [OF assms(4) s(3)] by blast
  obtain tq1 st1 w where u: "timer_mod_unschedule self tq st t e = Some (heap_front (tq_queue tq) = Some t, tq1, st1)" "tq_ok tq1 st1"
      "tq_small tq1" "load st1 t = Some w" "\<not> timer_scheduled w"
    and q: "tq_timers tq1 = tq_timers tq - {t}" "t_expires w = e" "\<not> heap_full (tq_queue tq1)" "tq_thr tq1 = tq_thr tq"
      "\<forall>p. p \<noteq> t \<longrightarrow> deadline st1 p = deadline st p"
    using unschedule_placed [OF assms(1-3) s(1,2)] by blast
  obtain tq' st' where r: "timer_mod ok (Some n) self tq st t e = Some (1, tq', st')"
      "inserted (tq_queue tq1) (armed st1 t ts) t (tq_queue tq') st'" "tq_ok tq' st'" "placed tq' st' t"
      "tq_thr tq \<noteq> self \<and> (heap_front (tq_queue tq) = Some t \<or> heap_front (tq_queue tq') = Some t) \<longrightarrow> signal_is_raised (tq_signal tq')"
    using timer_mod_tail [OF u, of ok x n ts] q(2-4) ts(1,2) by (auto split: if_splits)
  have sk: "same_keys (armed st1 t ts) st'" using r(2) by (simp add: inserted_def)
  have "t \<in> tq_timers tq"
    using assms(1,3) s(1) by (auto simp: tq_ok_def scheduled_are_def)
  then have "tq_timers tq' = tq_timers tq"
    using inserted_set [OF r(2)] q(1) by (auto simp: tq_timers_def)
  then show "\<exists>tq' st'. timer_mod ok (Some n) self tq st t e = Some (1, tq', st') \<and> tq_ok tq' st'
             \<and> tq_timers tq' = tq_timers tq \<and> placed tq' st' t \<and> deadline st' t = ts_nsecs n + sint e * 1000
             \<and> (\<forall>p. p \<noteq> t \<longrightarrow> deadline st' p = deadline st p)
             \<and> (tq_thr tq \<noteq> self \<and> (heap_front (tq_queue tq) = Some t \<or> heap_front (tq_queue tq') = Some t) \<longrightarrow> signal_is_raised (tq_signal tq'))"
    using r(1,3-5) same_keys_deadline [OF sk] armed_deadline [OF u(4)] q(5) ts(3)
    by (intro exI [of _ tq'] exI [of _ st']) simp
next
  assume s: "\<not> timer_scheduled v" "heap_full (tq_queue tq) \<longrightarrow> ok" "delay_ok n (t_expires v)"
  obtain x ts where ts: "fit (sint (t_expires v) * 1000) = Some x" "timespec_add_nsec n x = Some ts"
      "ts_nsecs ts = ts_nsecs n + sint (t_expires v) * 1000"
    using delay_ok_due [OF assms(4) s(3)] by blast
  obtain tq' st' where r: "timer_mod ok (Some n) self tq st t e = Some (1, tq', st')"
      "inserted (tq_queue tq) (armed st t ts) t (tq_queue tq') st'" "tq_ok tq' st'" "placed tq' st' t"
    using timer_mod_tail [OF unschedule_idle [OF assms(3) s(1)] assms(1-3) s(1,2) ts(1,2)] by blast
  have sk: "same_keys (armed st t ts) st'" using r(2) by (simp add: inserted_def)
  show "\<exists>tq' st'. timer_mod ok (Some n) self tq st t e = Some (1, tq', st') \<and> tq_ok tq' st'
             \<and> tq_timers tq' = insert t (tq_timers tq) \<and> placed tq' st' t \<and> deadline st' t = ts_nsecs n + sint (t_expires v) * 1000
             \<and> (\<forall>p. p \<noteq> t \<longrightarrow> deadline st' p = deadline st p)"
    using r inserted_set [OF r(2)] same_keys_deadline [OF sk] armed_deadline [OF assms(3)] ts(3)
    by (intro exI [of _ tq'] exI [of _ st']) (simp add: tq_timers_def)
next
  assume s: "timer_scheduled v" "placed tq st t" "\<not> in_long (sint e * 1000)"
  obtain b tq1 st1 w where "timer_mod_unschedule self tq st t e = Some (b, tq1, st1)" "load st1 t = Some w" "t_expires w = e"
    using unschedule_placed [OF assms(1-3) s(1,2)] by blast
  then show "timer_mod ok (Some n) self tq st t e = None" using s(3) by (simp add: timer_mod_def gettime_def fit_64)
qed

text \<open>
  C16: \<open>timer_del\<close> takes out of the queue the timer at the position that its argument records. If that position is right, as after \<open>timer_add\<close>, it is the timer itself, no
  deadline changes, and the signal is raised exactly when another thread than the queue's own took it from the front. If the position is stale,
  as \<open>heap_remove\<close> can leave it, another timer is taken out and this one stays. A position outside the queue changes neither the queue nor a timer. A timer that was never scheduled
  records position 0, so the call takes out the timer at the front.
\<close>

theorem timer_del_correct:
  assumes "tq_ok tq st" "tq_small tq" "load st t = Some v"
  shows "(placed tq st t \<longrightarrow> (\<exists>tq' st'. timer_del self tq st t = Some (tq', st') \<and> tq_ok tq' st'
             \<and> tq_timers tq' = tq_timers tq - {t} \<and> (\<forall>p. deadline st' p = deadline st p)
             \<and> (if heap_front (tq_queue tq) = Some t \<and> tq_thr tq \<noteq> self then signal_is_raised (tq_signal tq') else tq_signal tq' = tq_signal tq)))
     \<and> (\<not> placed tq st t \<and> unat (hi_index v) < unat (hp_size (tq_queue tq)) \<longrightarrow>
          (\<exists>tq' st' p. timer_del self tq st t = Some (tq', st') \<and> tq_ok tq' st' \<and> p = heap_ptrs (tq_queue tq) ! unat (hi_index v)
             \<and> p \<in> tq_timers tq \<and> p \<noteq> t \<and> tq_timers tq' = tq_timers tq - {p}))
     \<and> (unat (hp_size (tq_queue tq)) \<le> unat (hi_index v) \<longrightarrow> (\<exists>s. timer_del self tq st t = Some (tq\<lparr>tq_signal := s\<rparr>, st)))
     \<and> (\<not> timer_scheduled v \<and> hi_index v = 0 \<and> \<not> heap_empty (tq_queue tq) \<longrightarrow>
          (\<exists>tq' st' f. timer_del self tq st t = Some (tq', st') \<and> heap_front (tq_queue tq) = Some f \<and> f \<noteq> t
             \<and> f \<in> tq_timers tq \<and> tq_timers tq' = tq_timers tq - {f}))"
proof (intro conjI impI)
  have wf: "heap_wf (tq_queue tq) st" using assms(1) by (simp add: tq_ok_def)
  assume pl: "placed tq st t"
  then have i: "unat (hi_index v) < unat (hp_size (tq_queue tq))" "heap_ptrs (tq_queue tq) ! unat (hi_index v) = t"
    using assms(3) by (auto simp: placed_def)
  obtain tq' st' where d: "timer_del self tq st t = Some (tq', st')"
      "removed (tq_queue tq) st (unat (hi_index v)) (tq_queue tq') st'" "tq_ok tq' st'"
      "tq_timers tq' = tq_timers tq - {t}"
      "if hi_index v = 0 \<and> tq_thr tq \<noteq> self then signal_is_raised (tq_signal tq') else tq_signal tq' = tq_signal tq"
    using timer_del_at [OF assms i(1)] i(2) by blast
  moreover have "same_keys st st'" using d(2) by (simp add: removed_def Let_def)
  ultimately show "\<exists>tq' st'. timer_del self tq st t = Some (tq', st') \<and> tq_ok tq' st'
      \<and> tq_timers tq' = tq_timers tq - {t} \<and> (\<forall>p. deadline st' p = deadline st p)
      \<and> (if heap_front (tq_queue tq) = Some t \<and> tq_thr tq \<noteq> self then signal_is_raised (tq_signal tq') else tq_signal tq' = tq_signal tq)"
    using same_keys_deadline unfolding placed_front [OF wf pl assms(3)] by blast
next
  assume u: "\<not> placed tq st t \<and> unat (hi_index v) < unat (hp_size (tq_queue tq))"
  let ?p = "heap_ptrs (tq_queue tq) ! unat (hi_index v)"
  have wf: "heap_wf (tq_queue tq) st" using assms(1) by (simp add: tq_ok_def)
  have "?p \<in> tq_timers tq" using u length_heap_ptrs [OF wf] by (simp add: tq_timers_def)
  moreover have "?p \<noteq> t" using u assms(3) by (auto simp: placed_def)
  ultimately show "\<exists>tq' st' p. timer_del self tq st t = Some (tq', st') \<and> tq_ok tq' st' \<and> p = ?p
             \<and> p \<in> tq_timers tq \<and> p \<noteq> t \<and> tq_timers tq' = tq_timers tq - {p}"
    using timer_del_at [OF assms, of self] u by blast
next
  assume "unat (hp_size (tq_queue tq)) \<le> unat (hi_index v)"
  then have "heap_remove (tq_queue tq) st (hi_index v) = Some (NULL, tq_queue tq, st)"
    by (simp add: heap_remove_def word_le_nat_alt)
  moreover obtain x s where "timer_queue_signal_raise (tq\<lparr>tq_lock := True\<rparr>) = Some (x, tq\<lparr>tq_lock := True, tq_signal := s\<rparr>)"
    using signal_raise_open [of "tq\<lparr>tq_lock := True\<rparr>"] assms(1) by (auto simp: tq_ok_def)
  moreover have "\<not> tq_lock tq" using assms(1) by (simp add: tq_ok_def)
  moreover have "tq\<lparr>tq_signal := tq_signal tq\<rparr> = tq" "tq\<lparr>tq_lock := True, tq_queue := tq_queue tq\<rparr> = tq\<lparr>tq_lock := True\<rparr>" by simp_all
  ultimately show "\<exists>s. timer_del self tq st t = Some (tq\<lparr>tq_signal := s\<rparr>, st)"
    using assms(3) tq_ok_lock [OF assms(1)]
    by (cases "hi_index v = 0 \<and> tq_thr tq \<noteq> self")
      (auto simp: timer_del_def timer_del_locked_def mutex_unlock_def Let_def intro: exI [of _ s] exI [of _ "tq_signal tq"])
next
  assume u: "\<not> timer_scheduled v \<and> hi_index v = 0 \<and> \<not> heap_empty (tq_queue tq)"
  then obtain f where f: "heap_front (tq_queue tq) = Some f" "f = heap_ptrs (tq_queue tq) ! 0" "f \<in> tq_timers tq"
    using tq_front [OF assms(1)] by blast
  have "t \<notin> tq_timers tq"
    using assms(1,3) u by (auto simp: tq_ok_def scheduled_are_def)
  moreover have "unat (hi_index v) < unat (hp_size (tq_queue tq))"
    using u by (auto simp: heap_empty_def unat_gt_0)
  ultimately show "\<exists>tq' st' f. timer_del self tq st t = Some (tq', st') \<and> heap_front (tq_queue tq) = Some f \<and> f \<noteq> t
             \<and> f \<in> tq_timers tq \<and> tq_timers tq' = tq_timers tq - {f}"
    using timer_del_at [OF assms] f u by (metis unat_0)
qed

text \<open>
  C17: On an empty queue \<open>timer_next_timeout\<close> returns 0; otherwise it returns 1 and reports the time \<open>d\<close> to the
  deadline of the front timer in whole microseconds, if that is not out of the range of a \<^verbatim>\<open>long\<close>. Both leave the mutex unlocked and the signal
  cleared. If the deadline has passed, the unsigned result is at least \<open>2\<^sup>6\<^sup>3\<close>, while
  \<open>timer_next_timeout_timespec\<close> reports zero then.
\<close>

theorem timer_next_timeout_correct:
  assumes "tq_ok tq st" "ts_normal n" "all_normal tq st"
  shows "(heap_empty (tq_queue tq) \<longrightarrow> (\<exists>tq'. timer_next_timeout (Some n) tq st = Some (0, None, tq')
             \<and> \<not> signal_is_raised (tq_signal tq') \<and> tq_ok tq' st))
     \<and> (\<not> heap_empty (tq_queue tq) \<longrightarrow> (\<exists>f d. heap_front (tq_queue tq) = Some f \<and> d = deadline st f - ts_nsecs n
             \<and> (- (2 ^ 62) * 1000 \<le> d \<and> d < 2 ^ 63 * 1000 \<longrightarrow>
                  (\<exists>us tq'. timer_next_timeout (Some n) tq st = Some (1, Some us, tq')
                     \<and> \<not> signal_is_raised (tq_signal tq') \<and> tq_ok tq' st
                     \<and> (0 \<le> d \<longrightarrow> uint us = d div 1000) \<and> (d < 0 \<longrightarrow> 2 ^ 63 \<le> uint us)))
             \<and> (ts_fits d \<longrightarrow> (\<exists>ts. timer_next_timeout_timespec (Some n) tq st = Some (1, Some ts, tq)
                  \<and> ts_nsecs ts = max 0 d \<and> ts_normal ts))))"
proof (intro conjI impI)
  note low = tq_lowered [OF assms(1)] and lock = tq_ok_lock [OF assms(1)]
  have nl: "\<not> tq_lock tq" using assms(1) by (simp add: tq_ok_def)
  show "\<exists>tq'. timer_next_timeout (Some n) tq st = Some (0, None, tq') \<and> \<not> signal_is_raised (tq_signal tq') \<and> tq_ok tq' st"
    if "heap_empty (tq_queue tq)"
    using that low lock nl by (simp add: timer_next_timeout_def mutex_unlock_locked)
  assume ne: "\<not> heap_empty (tq_queue tq)"
  obtain f v where f: "heap_front (tq_queue tq) = Some f" "load st f = Some v" "f \<in> tq_timers tq"
    using tq_front [OF assms(1) ne] by blast
  define d where "d = deadline st f - ts_nsecs n"
  have nf: "ts_normal (t_timeout v)" using assms(3) f by (auto simp: all_normal_def)
  have dd: "d = ts_nsecs (t_timeout v) - ts_nsecs n" using f(2) by (simp add: d_def deadline_def)
  have "\<exists>us tq'. timer_next_timeout (Some n) tq st = Some (1, Some us, tq') \<and> \<not> signal_is_raised (tq_signal tq') \<and> tq_ok tq' st
      \<and> (0 \<le> d \<longrightarrow> uint us = d div 1000) \<and> (d < 0 \<longrightarrow> 2 ^ 63 \<le> uint us)"
    if b: "- (2 ^ 62) * 1000 \<le> d" "d < 2 ^ 63 * 1000"
  proof -
    have "ts_fits d" using b by (simp add: ts_fits_def NSEC_PER_SEC_def)
    from timespec_sub_ok [OF nf assms(2), folded dd, OF this]
    obtain ts where ts: "timespec_sub (t_timeout v) n = Some ts" "ts_normal ts" "ts_nsecs ts = d" by blast
    obtain us :: s64 where us: "do { usec \<leftarrow> fit (sint (tv_sec ts) * 1000000); fit (sint (usec :: s64) + sint (tv_nsec ts) sdiv 1000) } = Some us"
        "sint us = d div 1000"
      using usecs_of_normal [OF ts(2)] ts(3) b by auto
    obtain a where a: "fit (sint (tv_sec ts) * 1000000) = Some a" "fit (sint (a :: s64) + sint (tv_nsec ts) sdiv 1000) = Some us"
      using us(1) by (auto simp: bind_Some_iff)
    have "timer_next_timeout (Some n) tq st = Some (1, Some us, lowered tq)"
      using ne f low(1) lock nl ts(1) a by (simp add: timer_next_timeout_def gettime_def mutex_unlock_locked)
    moreover have "0 \<le> d \<longrightarrow> uint us = d div 1000" "d < 0 \<longrightarrow> 2 ^ 63 \<le> uint us"
      using uint_of_sint_64 [of us] us(2) by auto
    ultimately show ?thesis using low(2,3) by blast
  qed
  moreover have "\<exists>ts. timer_next_timeout_timespec (Some n) tq st = Some (1, Some ts, tq) \<and> ts_nsecs ts = max 0 d \<and> ts_normal ts"
    if "ts_fits d"
  proof -
    from timespec_sub_ok [OF nf assms(2), folded dd, OF that]
    obtain ts where ts: "timespec_sub (t_timeout v) n = Some ts" "ts_normal ts" "ts_nsecs ts = d" by blast
    show ?thesis
    proof (cases "d < 0")
      case True
      then show ?thesis
        using ne f lock nl normal_negative [OF ts(2)] ts
        by (simp add: timer_next_timeout_timespec_def gettime_def mutex_unlock_locked)
          (simp add: ts_nsecs_def ts_normal_def NSEC_PER_SEC_def)
    next
      case False
      then show ?thesis
        using ne f lock nl normal_negative [OF ts(2)] ts
        by (simp add: timer_next_timeout_timespec_def gettime_def mutex_unlock_locked)
    qed
  qed
  ultimately show "\<exists>f d. heap_front (tq_queue tq) = Some f \<and> d = deadline st f - ts_nsecs n
             \<and> (- (2 ^ 62) * 1000 \<le> d \<and> d < 2 ^ 63 * 1000 \<longrightarrow>
                  (\<exists>us tq'. timer_next_timeout (Some n) tq st = Some (1, Some us, tq')
                     \<and> \<not> signal_is_raised (tq_signal tq') \<and> tq_ok tq' st
                     \<and> (0 \<le> d \<longrightarrow> uint us = d div 1000) \<and> (d < 0 \<longrightarrow> 2 ^ 63 \<le> uint us)))
             \<and> (ts_fits d \<longrightarrow> (\<exists>ts. timer_next_timeout_timespec (Some n) tq st = Some (1, Some ts, tq)
                  \<and> ts_nsecs ts = max 0 d \<and> ts_normal ts))"
    using f(1) d_def by blast
qed

text \<open>
  \<open>timer_queue_signal_lower\<close> reports \<open>TIMER_SIGNAL_NONE\<close> whatever was written to the signal, because
  \<open>signal_clear_val\<close> reads until a read fails and then reports that result: the other three results
  are never returned.
\<close>

theorem timer_signal_lower_blind:
  assumes "tq_ok tq st"
  shows "\<exists>r tq1 tq2. timer_queue_signal_raise tq = Some (r, tq1) \<and> signal_is_raised (tq_signal tq1)
     \<and> timer_queue_signal_lower tq1 = Some (TIMER_SIGNAL_NONE, tq2) \<and> \<not> signal_is_raised (tq_signal tq2)
     \<and> (\<forall>q res q'. timer_queue_signal_lower q = Some (res, q') \<longrightarrow> res = TIMER_SIGNAL_NONE)"
proof -
  obtain r s where rs: "timer_queue_signal_raise tq = Some (r, tq\<lparr>tq_signal := s\<rparr>)" "signal_open s"
      "pp_cap (sg_pipe s) = pp_cap (sg_pipe (tq_signal tq))" "signal_is_raised s"
    using signal_raise_open [of tq] assms by (auto simp: tq_ok_def)
  have "tq_ok (tq\<lparr>tq_signal := s\<rparr>) st"
    using assms rs(2,3) by (simp add: tq_ok_def tq_timers_def)
  from tq_lowered [OF this] show ?thesis
    using rs(1,4) signal_lower_none
    by (intro exI [of _ r] exI [of _ "tq\<lparr>tq_signal := s\<rparr>"] exI [of _ "lowered (tq\<lparr>tq_signal := s\<rparr>)"]) auto
qed

text \<open>
  C18: \<open>timer_handle_timeout\<close> on an empty queue returns \<open>-1\<close> and changes nothing. Otherwise it takes the front
  timer out of the queue, marks it not scheduled, and only then, with the mutex unlocked and the
  queue in a state in which every operation may be called, runs its callback, if it has one.
\<close>

theorem timer_handle_timeout_correct:
  assumes "tq_ok tq st" "tq_small tq"
  shows "(heap_empty (tq_queue tq) \<longrightarrow> timer_handle_timeout call tq st w = Some (-1, tq, st, w))
     \<and> (\<not> heap_empty (tq_queue tq) \<longrightarrow> (\<exists>f v tq' st'. heap_front (tq_queue tq) = Some f \<and> load st' f = Some v
          \<and> \<not> timer_scheduled v \<and> tq_ok tq' st' \<and> tq_timers tq' = tq_timers tq - {f}
          \<and> (\<forall>p. deadline st' p = deadline st p)
          \<and> t_callback v = t_callback (the (load st f))
          \<and> timer_handle_timeout call tq st w = (if t_callback v = NULL then Some (0, tq', st', w)
               else map_option (Pair 0) (call (t_callback v) f (tq', st', w)))))"
proof (intro conjI impI)
  note lock = tq_ok_lock [OF assms(1)]
  have nl: "\<not> tq_lock tq" using assms(1) by (simp add: tq_ok_def)
  show "timer_handle_timeout call tq st w = Some (-1, tq, st, w)" if "heap_empty (tq_queue tq)"
    using that lock nl by (simp add: timer_handle_timeout_def mutex_unlock_locked)
  assume ne: "\<not> heap_empty (tq_queue tq)"
  then have n: "unat (0 :: u32) < unat (hp_size (tq_queue tq))"
    by (simp add: heap_empty_def unat_gt_0)
  obtain f where f: "heap_front (tq_queue tq) = Some f" "f = heap_ptrs (tq_queue tq) ! 0" "f \<in> tq_timers tq"
    using tq_front [OF assms(1) ne] by blast
  obtain q st' where r: "heap_remove (tq_queue tq) st 0 = Some (f, q, st')"
      "removed (tq_queue tq) st 0 q st'" "heap_wf q st'" "hp_cmp q = heap_cmp"
      "set (heap_ptrs q) = tq_timers tq - {f}" "scheduled_are (set (heap_ptrs q)) st'"
    using queue_remove [OF assms n] f(2) by auto
  have "map_option (\<lambda>v. (hi_index v, hi_active v)) (load st' f) = Some (0, 0)" and sk: "same_keys st st'"
    using r(2) f(2) by (auto simp: removed_def Let_def)
  then obtain v where v: "load st' f = Some v" "hi_active v = 0" by auto
  have cb: "t_callback v = t_callback (the (load st f))"
    using same_keys_field [OF sk, of t_callback f] v(1) by (cases "load st f") auto
  let ?tq = "tq\<lparr>tq_queue := q\<rparr>"
  have "tq_ok ?tq st'" "tq_timers ?tq = tq_timers tq - {f}"
    using assms(1) r by (auto simp: tq_ok_def tq_timers_def)
  moreover have "timer_handle_timeout call tq st w = (if t_callback v = NULL then Some (0, ?tq, st', w)
               else map_option (Pair 0) (call (t_callback v) f (?tq, st', w)))"
    using ne lock nl r(1) v(1)
    by (cases "call (t_callback v) f (?tq, st', w)")
      (auto simp: timer_handle_timeout_def heap_remove_first_def mutex_unlock_locked Let_def)
  ultimately show "\<exists>f v tq' st'. heap_front (tq_queue tq) = Some f \<and> load st' f = Some v
          \<and> \<not> timer_scheduled v \<and> tq_ok tq' st' \<and> tq_timers tq' = tq_timers tq - {f}
          \<and> (\<forall>p. deadline st' p = deadline st p)
          \<and> t_callback v = t_callback (the (load st f))
          \<and> timer_handle_timeout call tq st w = (if t_callback v = NULL then Some (0, tq', st', w)
               else map_option (Pair 0) (call (t_callback v) f (tq', st', w)))"
    using f(1) v cb same_keys_deadline [OF sk] timer_scheduled_def by blast
qed

text \<open>
  C19: \<open>timer_list_destroy\<close> and \<open>timer_queue_fini\<close> end, provided the destructors leave the queue and the other timers alone: the
  queue is empty afterwards, every timer of the queue has been marked not scheduled and then, if it has a destructor, handed to it exactly once, in some order
  of the timers; all other memory is untouched and the mutex is unlocked.
\<close>

theorem timer_list_destroy_drains:
  assumes "tq_ok tq st" "tq_small tq" "destructs call eff upd"
  shows "(\<exists>tq' st' ps. timer_list_destroy call tq st w = Some (tq', st', fold (called upd st) ps w) \<and> distinct ps \<and> set ps = tq_timers tq
        \<and> heap_empty (tq_queue tq') \<and> \<not> tq_lock tq'
        \<and> (\<forall>p \<in> tq_timers tq. load st' p = remains eff st p) \<and> (\<forall>p. p \<notin> tq_timers tq \<longrightarrow> load st' p = load st p))
     \<and> (\<exists>tq' st' ps. timer_queue_fini call tq st w = Some (tq', st', fold (called upd st) ps w) \<and> distinct ps \<and> set ps = tq_timers tq
        \<and> hp_map (tq_queue tq') = [] \<and> \<not> tq_lock tq' \<and> \<not> pp_rd (sg_pipe (tq_signal tq')) \<and> \<not> pp_wr (sg_pipe (tq_signal tq'))
        \<and> (\<forall>p \<in> tq_timers tq. load st' p = remains eff st p) \<and> (\<forall>p. p \<notin> tq_timers tq \<longrightarrow> load st' p = load st p))"
proof -
  have wf: "heap_wf (tq_queue tq) st" "hp_cmp (tq_queue tq) = heap_cmp" and nl: "\<not> tq_lock tq"
    using assms(1) by (auto simp: tq_ok_def)
  note sm = tq_small_size [OF assms(2) wf(1)]
  have loop: "\<exists>q st' ps. timer_destroy_loop call x st w = Some (x\<lparr>tq_queue := q\<rparr>, st', fold (called upd st) ps w) \<and> heap_empty q
      \<and> distinct ps \<and> set ps = tq_timers tq
      \<and> (\<forall>p \<in> tq_timers tq. load st' p = remains eff st p) \<and> (\<forall>p. p \<notin> tq_timers tq \<longrightarrow> load st' p = load st p)"
    if "tq_queue x = tq_queue tq" for x
    using destroy_loop_ok [of x st call eff upd w] wf sm assms(3) that by (auto simp: tq_timers_def)
  let ?tq1 = "tq\<lparr>tq_lock := True\<rparr>"
  let ?tq2 = "tq\<lparr>tq_signal := signal_destroy (tq_signal tq), tq_lock := True\<rparr>"
  obtain q1 s1 p1 where r1: "timer_destroy_loop call ?tq1 st w = Some (?tq1\<lparr>tq_queue := q1\<rparr>, s1, fold (called upd st) p1 w)" "heap_empty q1"
      "distinct p1 \<and> set p1 = tq_timers tq" "(\<forall>p \<in> tq_timers tq. load s1 p = remains eff st p) \<and> (\<forall>p. p \<notin> tq_timers tq \<longrightarrow> load s1 p = load st p)"
    using loop [of ?tq1] by auto
  obtain q2 s2 p2 where r2: "timer_destroy_loop call ?tq2 st w = Some (?tq2\<lparr>tq_queue := q2\<rparr>, s2, fold (called upd st) p2 w)"
      "distinct p2 \<and> set p2 = tq_timers tq" "(\<forall>p \<in> tq_timers tq. load s2 p = remains eff st p) \<and> (\<forall>p. p \<notin> tq_timers tq \<longrightarrow> load s2 p = load st p)"
    using loop [of ?tq2] by auto
  define t1 t2 where "t1 = mutex_unlock (?tq1\<lparr>tq_queue := q1\<rparr>)" and "t2 = (mutex_unlock (?tq2\<lparr>tq_queue := q2\<rparr>))\<lparr>tq_queue := heap_fini q2\<rparr>"
  have "timer_list_destroy call tq st w = Some (t1, s1, fold (called upd st) p1 w)"
    using r1(1) nl by (simp add: timer_list_destroy_def mutex_lock_def t1_def)
  moreover have "timer_queue_fini call tq st w = Some (t2, s2, fold (called upd st) p2 w)"
    using r2(1) nl by (simp add: timer_queue_fini_def timer_list_destroy_def mutex_lock_def mutex_unlock_def t2_def)
  moreover have "heap_empty (tq_queue t1)" "\<not> tq_lock t1" "hp_map (tq_queue t2) = []" "\<not> tq_lock t2"
      "\<not> pp_rd (sg_pipe (tq_signal t2))" "\<not> pp_wr (sg_pipe (tq_signal t2))"
    using r1(2) by (simp_all add: t1_def t2_def mutex_unlock_def heap_fini_def signal_destroy_def)
  ultimately show ?thesis using r1(3,4) r2(2,3) by blast
qed

text \<open>
  \<open>timer_queue_init\<close> returns 0 if the signal could be set up and \<open>-1\<close> otherwise; with memory for the heap
  it then gives an empty queue in use that belongs to the calling thread. The result of
  \<open>heap_init\<close> is ignored: without memory for the heap the call still returns 0, and adding a timer
  writes outside the array.
\<close>

theorem timer_queue_init_correct:
  assumes "0 < cap" "\<forall>p v. load st p = Some v \<longrightarrow> \<not> timer_scheduled v"
  shows "(\<exists>tq. timer_queue_init (Some fds) True cap True self = (0, tq) \<and> tq_ok tq st \<and> tq_small tq
        \<and> tq_timers tq = {} \<and> latest_first tq st \<and> tq_thr tq = self \<and> timer_queue_get_signal tq = fst fds)
     \<and> fst (timer_queue_init None fok cap ok self) = -1 \<and> fst (timer_queue_init (Some fds) False cap ok self) = -1
     \<and> (\<exists>tq. timer_queue_init (Some fds) True cap False self = (0, tq)
        \<and> (\<forall>t v. load st t = Some v \<longrightarrow> timer_add ok (Some n) self tq st t = None))"
proof -
  have "heap_wf (snd (heap_init True 0 heap_cmp)) st" "heap_ptrs (snd (heap_init True 0 heap_cmp)) = []"
    by (simp_all add: heap_init_def heap_wf_def heap_ptrs_def HEAP_DEFAULT_SIZE_def)
  moreover have "hp_cmp (snd (heap_init True 0 heap_cmp)) = heap_cmp" "hp_max_size (snd (heap_init True 0 heap_cmp)) = 200"
    by (simp_all add: heap_init_def HEAP_DEFAULT_SIZE_def)
  moreover have "timer_add ok (Some n) self \<lparr>tq_queue = snd (heap_init False 0 heap_cmp), tq_lock = False, tq_signal = s, tq_thr = self\<rparr> st t = None"
    if "load st t = Some v" for t v s
    using that assms(2) heap_insert_loop.simps [of heap_cmp t "[]" _ 0]
    by (simp add: timer_add_def timer_mod_def unschedule_idle gettime_def mem_simps mutex_lock_def heap_init_def
        HEAP_DEFAULT_SIZE_def heap_insert_def heap_full_def awrite_def)
  ultimately show ?thesis
    using assms
    by (auto simp: timer_queue_init_def signal_init_def Let_def tq_ok_def tq_small_def tq_timers_def latest_first_def
        min_heap_def scheduled_are_def signal_open_def timer_queue_get_signal_def signal_get_fd_def)
qed

section \<open>Witnesses\<close>

text \<open>A queue of two timers that are due at 5 and 3 seconds, and a third timer that is not scheduled.\<close>

definition example_timer :: "u32 \<Rightarrow> u8 \<Rightarrow> s64 \<Rightarrow> timer" where
  "example_timer i a sec = \<lparr>hi_index = i, hi_active = a, t_timeout = \<lparr>tv_sec = sec, tv_nsec = 0\<rparr>,
     t_expires = 2000000, t_callback = NULL, t_destruct = 9, t_data = NULL\<rparr>"

definition example_timers :: tmem where
  "example_timers = [1 \<mapsto> example_timer 0 1 5, 2 \<mapsto> example_timer 1 1 3, 3 \<mapsto> example_timer 0 0 0]"

definition example_queue :: timer_queue where
  "example_queue = \<lparr>tq_queue = \<lparr>hp_max_size = 3, hp_size = 2, hp_cmp = heap_cmp, hp_map = [Some 1, Some 2, None]\<rparr>,
     tq_lock = False, tq_signal = example_signal [], tq_thr = 0\<rparr>"

lemma example_timers_load:
  "load example_timers (Suc 0) = Some (example_timer 0 1 5)" "load example_timers 2 = Some (example_timer 1 1 3)"
  "load example_timers 3 = Some (example_timer 0 0 0)"
  "load example_timers p = Some v \<Longrightarrow> p = Suc 0 \<and> v = example_timer 0 1 5 \<or> p = 2 \<and> v = example_timer 1 1 3
     \<or> p = 3 \<and> v = example_timer 0 0 0"
  by (auto simp: example_timers_def load_def split: if_splits)

lemma example_queue_ptrs: "heap_ptrs (tq_queue example_queue) = [1, 2]" "tq_timers example_queue = {1, 2}"
    "\<not> heap_empty (tq_queue example_queue)" "\<not> heap_full (tq_queue example_queue)"
    "heap_front (tq_queue example_queue) = Some 1" "tq_thr example_queue = 0"
    "unat (hp_size (tq_queue example_queue)) = 2" "tq_small example_queue"
  by (simp_all add: example_queue_def heap_ptrs_def tq_timers_def heap_empty_def heap_full_def heap_front_def aread_def tq_small_def)

lemma example_queue_ok: "tq_ok example_queue example_timers"
proof -
  have "scheduled_are {1, 2} example_timers"
    by (auto simp: scheduled_are_def timer_scheduled_def example_timer_def dest!: example_timers_load(4))
  then show ?thesis
    unfolding tq_ok_def example_queue_ptrs
    by (simp add: example_queue_def example_signal_open heap_wf_def heap_ptrs_def example_timers_load)
qed

lemma example_queue_order: "latest_first example_queue example_timers" "all_normal example_queue example_timers"
  by (simp_all add: latest_first_def all_normal_def example_queue_ptrs example_timers_load min_heap_def less_Suc_conv
      numeral_2_eq_2 par_def)
    (simp_all add: ptr_lt_def example_timers_load example_timer_def heap_cmp_def timespec_lt_def ts_normal_def NSEC_PER_SEC_def
      flip: numeral_2_eq_2)

definition example_now :: timespec where
  "example_now = \<lparr>tv_sec = 10, tv_nsec = 0\<rparr>"

lemma example_now_normal: "ts_normal example_now" "ts_nsecs example_now = 10000000000" "delay_ok example_now 2000000" "delay_ok example_now 500"
  by (simp_all add: example_now_def delay_ok_def ts_fits_def in_long_def ts_normal_def ts_nsecs_def NSEC_PER_SEC_def)

lemma example_deadline: "deadline example_timers 1 = 5000000000" "deadline example_timers 2 = 3000000000"
  by (simp_all add: deadline_def example_timers_load example_timer_def ts_nsecs_def NSEC_PER_SEC_def)

lemma example_idle: "\<not> timer_scheduled (example_timer 0 0 0)" "timer_scheduled (example_timer 1 1 3)"
    "hi_index (example_timer 0 0 0) = 0" "t_expires (example_timer i a s) = 2000000"
  by (simp_all add: timer_scheduled_def example_timer_def)

text \<open>Thread 1 adds the third timer to the queue of thread 0; it is due last and goes to the front, so thread 0 is signalled.\<close>

theorem timer_add_correct_witness:
  "\<exists>tq' st'. timer_add False (Some example_now) 1 example_queue example_timers 3 = Some (1, tq', st')
     \<and> tq_timers tq' = {1, 2, 3} \<and> deadline st' 3 = 12000000000 \<and> heap_front (tq_queue tq') = Some 3 \<and> signal_is_raised (tq_signal tq')"
proof -
  have d: "delay_ok example_now (t_expires (example_timer 0 0 0))" by (simp add: example_idle example_now_normal)
  obtain tq' st' where r: "timer_add False (Some example_now) 1 example_queue example_timers 3 = Some (1, tq', st')" "tq_ok tq' st'"
      "tq_timers tq' = {1, 2, 3}" "deadline st' 3 = 12000000000" "\<forall>p. p \<noteq> 3 \<longrightarrow> deadline st' p = deadline example_timers p"
      "heap_front (tq_queue tq') = Some 3 \<longrightarrow> signal_is_raised (tq_signal tq')"
    using timer_add_correct [OF example_queue_ok example_queue_ptrs(8) example_timers_load(3) example_idle(1) _ example_now_normal(1),
        of False 1] d
    by (auto simp: example_queue_ptrs example_now_normal example_idle insert_commute)
  obtain f where f: "heap_front (tq_queue tq') = Some f" "\<forall>p \<in> {1, 2, 3}. deadline st' p \<le> deadline st' f"
    using timer_add_latest_in_front [OF example_queue_ok example_queue_ptrs(8) example_timers_load(3) example_idle(1) _
        example_now_normal(1) d example_queue_order, of False 1] r(1)
    by (auto simp: example_queue_ptrs)
  have "hp_size (tq_queue tq') \<noteq> 0" using r(3) by (auto simp: tq_timers_def heap_ptrs_def)
  then have "f \<in> {1, 2, 3}" using tq_front [OF r(2)] f(1) r(3) by (auto simp: heap_empty_def)
  then have "f = 3" using f(2) r(4,5) example_deadline [simplified] by auto
  then show ?thesis using r f(1) by blast
qed

theorem timer_add_errors_witness:
  "timer_add True (Some example_now) 0 example_queue example_timers 2 = Some (-1, example_queue, example_timers)"
proof -
  have "delay_ok example_now (t_expires (example_timer 1 1 3))" by (simp add: example_idle example_now_normal)
  from timer_add_errors [OF example_queue_ok example_timers_load(2) example_now_normal(1) this] show ?thesis
    using example_idle(2) by blast
qed

theorem timer_add_latest_in_front_witness:
  "\<exists>tq' st' f. timer_add False (Some example_now) 0 example_queue example_timers 3 = Some (1, tq', st')
     \<and> heap_front (tq_queue tq') = Some f \<and> (\<forall>p \<in> {1, 2, 3}. deadline st' p \<le> deadline st' f)"
  using timer_add_latest_in_front [OF example_queue_ok example_queue_ptrs(8) example_timers_load(3) example_idle(1) _
      example_now_normal(1) _ example_queue_order, of False 0]
  by (auto simp: example_queue_ptrs example_idle example_now_normal)

lemma example_placed: "placed example_queue example_timers 2"
  by (simp add: placed_def example_timers_load example_queue_ptrs example_timer_def)

theorem timer_mod_correct_witness:
  "\<exists>tq' st'. timer_mod False (Some example_now) 0 example_queue example_timers 2 500 = Some (1, tq', st')
     \<and> tq_timers tq' = {1, 2} \<and> deadline st' 2 = 10000500000"
  using timer_mod_correct [OF example_queue_ok example_queue_ptrs(8) example_timers_load(2) example_now_normal(1), where ok = False and self = 0 and e = 500]
    example_placed
  by (auto simp: example_idle example_queue_ptrs example_now_normal)

theorem timer_del_correct_witness:
  "(\<exists>tq' st'. timer_del 0 example_queue example_timers 2 = Some (tq', st') \<and> tq_timers tq' = {1})
   \<and> (\<exists>tq' st'. timer_del 0 example_queue example_timers 3 = Some (tq', st') \<and> tq_timers tq' = {2})"
proof (intro conjI)
  show "\<exists>tq' st'. timer_del 0 example_queue example_timers 2 = Some (tq', st') \<and> tq_timers tq' = {1}"
    using timer_del_correct [OF example_queue_ok example_queue_ptrs(8) example_timers_load(2), of 0] example_placed
    by (auto simp: example_queue_ptrs)
  show "\<exists>tq' st'. timer_del 0 example_queue example_timers 3 = Some (tq', st') \<and> tq_timers tq' = {2}"
    using timer_del_correct [OF example_queue_ok example_queue_ptrs(8) example_timers_load(3), of 0]
    by (auto simp: example_queue_ptrs example_idle)
qed

theorem timer_next_timeout_correct_witness:
  "(\<exists>us tq'. timer_next_timeout (Some \<lparr>tv_sec = 2, tv_nsec = 0\<rparr>) example_queue example_timers = Some (1, Some us, tq') \<and> uint us = 3000000)
   \<and> (\<exists>us tq'. timer_next_timeout (Some example_now) example_queue example_timers = Some (1, Some us, tq') \<and> 2 ^ 63 \<le> uint us)"
proof
  have n: "ts_normal \<lparr>tv_sec = 2, tv_nsec = 0\<rparr>" "ts_nsecs \<lparr>tv_sec = 2, tv_nsec = 0\<rparr> = 2000000000"
    by (simp_all add: ts_normal_def ts_nsecs_def NSEC_PER_SEC_def)
  show "\<exists>us tq'. timer_next_timeout (Some \<lparr>tv_sec = 2, tv_nsec = 0\<rparr>) example_queue example_timers = Some (1, Some us, tq') \<and> uint us = 3000000"
    using timer_next_timeout_correct [OF example_queue_ok n(1) example_queue_order(2)]
    by (auto simp: example_queue_ptrs n(2) example_deadline [simplified])
  show "\<exists>us tq'. timer_next_timeout (Some example_now) example_queue example_timers = Some (1, Some us, tq') \<and> 2 ^ 63 \<le> uint us"
    using timer_next_timeout_correct [OF example_queue_ok example_now_normal(1) example_queue_order(2)]
    by (auto simp: example_queue_ptrs example_now_normal example_deadline [simplified])
qed

theorem timer_signal_lower_blind_witness:
  "\<exists>r tq1 tq2. timer_queue_signal_raise example_queue = Some (r, tq1)
     \<and> timer_queue_signal_lower tq1 = Some (TIMER_SIGNAL_NONE, tq2)"
  using timer_signal_lower_blind [OF example_queue_ok] by blast

theorem timer_handle_timeout_correct_witness:
  "\<exists>tq' st'. timer_handle_timeout (\<lambda>_ _ _. None) example_queue example_timers () = Some (0, tq', st', ()) \<and> tq_timers tq' = {2}"
  using timer_handle_timeout_correct [OF example_queue_ok example_queue_ptrs(8), of "\<lambda>_ _ _. None" "()"]
  by (auto simp: example_queue_ptrs example_timers_load example_timer_def)

text \<open>A destructor that frees its timer and counts its calls: two timers, two calls.\<close>

theorem timer_list_destroy_drains_witness:
  "\<exists>tq' st'. timer_list_destroy (\<lambda>d p (tq, st, n). Some (tq, st(p := None), Suc n)) example_queue example_timers 0 = Some (tq', st', 2)
     \<and> heap_empty (tq_queue tq') \<and> load st' 1 = None \<and> load st' 2 = None"
proof -
  let ?call = "\<lambda>d p (tq, st, n). Some (tq, st(p := None), Suc n)" and ?upd = "\<lambda>d p. Suc"
  have "destructs ?call (\<lambda>d p v. None) ?upd"
    by (simp add: destructs_def)
  from timer_list_destroy_drains [OF example_queue_ok example_queue_ptrs(8) this, of 0] obtain tq' st' ps where
    r: "timer_list_destroy ?call example_queue example_timers 0 = Some (tq', st', fold (called ?upd example_timers) ps 0)"
      "distinct ps" "set ps = {1, 2}" "heap_empty (tq_queue tq')"
      "\<forall>p \<in> {1, 2}. load st' p = remains (\<lambda>d p v. None) example_timers p"
    unfolding example_queue_ptrs by blast
  have "fold (called ?upd example_timers) qs n = n + length qs" if "set qs \<subseteq> {1, 2}" for qs n
    using that by (induction qs arbitrary: n) (auto simp: called_def example_timers_load example_timer_def)
  moreover have "length ps = 2" using r(2,3) distinct_card [of ps] by simp
  moreover have "remains (\<lambda>d p v. None) example_timers p = None" if "p \<in> {1, 2}" for p
    using that by (auto simp: remains_def example_timers_load example_timer_def)
  ultimately show ?thesis using r by auto
qed

theorem timer_queue_init_correct_witness:
  "\<exists>tq. timer_queue_init (Some (3, 4)) True 16384 True 1 = (0, tq) \<and> tq_ok tq Map.empty \<and> tq_thr tq = 1"
  using timer_queue_init_correct [of 16384 Map.empty "(3, 4)" 1 True True example_now] by (auto simp: load_def)

end
