(* ===== verification/Ckit_List.thy ===== *)
theory Ckit_List
  imports Ckit_Prelude
begin

text \<open>
  \<^verbatim>\<open>include/ckit/list.h\<close>: circular doubly linked lists threaded through the objects they
  hold. A list node is identified with the address of the object it is embedded in
  (\<^verbatim>\<open>get_enclosing\<close> of \<^verbatim>\<open>ckit.h\<close> subtracts the constant offset of the member, which is zero for
  every list node of the library: \<^verbatim>\<open>hashelm.list\<close>, \<^verbatim>\<open>hashslot.head\<close> and \<^verbatim>\<open>pbuf_pool_entry.lnode\<close> are
  first members).

  The operations are given on the node memory, assignment by assignment. \<open>dlist m a xs\<close> says
  that the nodes \<open>xs\<close> hang off the anchor \<open>a\<close> in this order, and \<open>dlists\<close> describes a family of
  such lists that do not overlap. The locale \<open>list_family\<close> is the interface the packet buffer
  pool and the hash table rely on.
\<close>

section \<open>Definitions\<close>

record list_t =
  lprev :: addr
  lnext :: addr

type_synonym lmem = "list_t mem"

definition set_prev :: "lmem \<Rightarrow> addr \<Rightarrow> addr \<Rightarrow> lmem option" where
  "set_prev m p v = do { n \<leftarrow> load m p; store m p (n\<lparr>lprev := v\<rparr>) }"

definition set_next :: "lmem \<Rightarrow> addr \<Rightarrow> addr \<Rightarrow> lmem option" where
  "set_next m p v = do { n \<leftarrow> load m p; store m p (n\<lparr>lnext := v\<rparr>) }"

definition INIT_LIST :: "lmem \<Rightarrow> addr \<Rightarrow> lmem option" where
  "INIT_LIST m l = do { m \<leftarrow> set_prev m l l; set_next m l l }"

definition list_add_front :: "lmem \<Rightarrow> addr \<Rightarrow> addr \<Rightarrow> lmem option" where
  "list_add_front m anchor to_add = do {
     a \<leftarrow> load m anchor;
     m \<leftarrow> set_next m to_add (lnext a);
     m \<leftarrow> set_prev m to_add anchor;
     a \<leftarrow> load m anchor;
     m \<leftarrow> set_prev m (lnext a) to_add;
     set_next m anchor to_add
   }"

definition list_add_back :: "lmem \<Rightarrow> addr \<Rightarrow> addr \<Rightarrow> lmem option" where
  "list_add_back m anchor to_add = do {
     m \<leftarrow> set_next m to_add anchor;
     a \<leftarrow> load m anchor;
     m \<leftarrow> set_prev m to_add (lprev a);
     a \<leftarrow> load m anchor;
     m \<leftarrow> set_next m (lprev a) to_add;
     set_prev m anchor to_add
   }"

definition list_del :: "lmem \<Rightarrow> addr \<Rightarrow> lmem option" where
  "list_del m to_del = do {
     d \<leftarrow> load m to_del;
     m \<leftarrow> set_next m (lprev d) (lnext d);
     d \<leftarrow> load m to_del;
     m \<leftarrow> set_prev m (lnext d) (lprev d);
     m \<leftarrow> set_prev m to_del to_del;
     set_next m to_del to_del
   }"

definition list_move :: "lmem \<Rightarrow> addr \<Rightarrow> addr \<Rightarrow> lmem option" where
  "list_move m to_move anchor = do { m \<leftarrow> list_del m to_move; list_add_front m anchor to_move }"

definition list_empty :: "lmem \<Rightarrow> addr \<Rightarrow> bool option" where
  "list_empty m l = do { n \<leftarrow> load m l; Some (lnext n = l) }"

definition list_front :: "lmem \<Rightarrow> addr \<Rightarrow> addr option" where
  "list_front m l = do { n \<leftarrow> load m l; Some (lnext n) }"

text \<open>
  \<^verbatim>\<open>list_foreach\<close>: from \<open>ptr\<close> until the anchor. The body gets the element and the loop's state and
  says whether it leaves the loop (\<^verbatim>\<open>return\<close>, \<^verbatim>\<open>goto\<close>); the result says whether it did. The body
  does not change the list.
\<close>

partial_function (option) list_foreach ::
  "lmem \<Rightarrow> addr \<Rightarrow> (addr \<Rightarrow> 's \<Rightarrow> (bool \<times> 's) option) \<Rightarrow> addr \<Rightarrow> 's \<Rightarrow> (bool \<times> 's) option" where
  "list_foreach m anchor body ptr s =
     (if ptr = anchor then Some (False, s)
      else do {
        (brk, s') \<leftarrow> body ptr s;
        if brk then Some (True, s')
        else do { n \<leftarrow> load m ptr; list_foreach m anchor body (lnext n) s' }
      })"

text \<open>
  \<^verbatim>\<open>list_foreach_safe\<close>: the successor is read before the body runs, so the body may unlink the
  current element; the body works on the node memory and a state of its own.
\<close>

partial_function (option) list_foreach_safe ::
  "addr \<Rightarrow> (addr \<Rightarrow> lmem \<Rightarrow> 's \<Rightarrow> (lmem \<times> 's) option) \<Rightarrow> addr \<Rightarrow> addr \<Rightarrow> lmem \<Rightarrow> 's
     \<Rightarrow> (lmem \<times> 's) option" where
  "list_foreach_safe anchor body ptr tmp m s =
     (if ptr = anchor then Some (m, s)
      else do {
        (m, s) \<leftarrow> body ptr m s;
        n \<leftarrow> load m tmp;
        list_foreach_safe anchor body tmp (lnext n) m s
      })"

subsection \<open>Specification: the lists a node memory holds\<close>

definition nxt :: "lmem \<Rightarrow> addr \<Rightarrow> addr option" where
  "nxt m p = map_option lnext (load m p)"

definition prv :: "lmem \<Rightarrow> addr \<Rightarrow> addr option" where
  "prv m p = map_option lprev (load m p)"

fun linked :: "lmem \<Rightarrow> addr \<Rightarrow> addr list \<Rightarrow> addr \<Rightarrow> bool" where
  "linked m p [] q \<longleftrightarrow> nxt m p = Some q \<and> prv m q = Some p"
| "linked m p (x # xs) q \<longleftrightarrow> nxt m p = Some x \<and> prv m x = Some p \<and> linked m x xs q"

definition dlist :: "lmem \<Rightarrow> addr \<Rightarrow> addr list \<Rightarrow> bool" where
  "dlist m a xs \<longleftrightarrow> distinct (a # xs) \<and> linked m a xs a"

definition all_nodes :: "addr list \<Rightarrow> addr list list \<Rightarrow> addr set" where
  "all_nodes hs cs = set hs \<union> (\<Union>c \<in> set cs. set c)"

definition dlists :: "lmem \<Rightarrow> addr list \<Rightarrow> addr list list \<Rightarrow> bool" where
  "dlists m hs cs \<longleftrightarrow>
     length hs = length cs \<and> (\<forall>i < length hs. dlist m (hs ! i) (cs ! i))
     \<and> (\<forall>i < length hs. \<forall>j < length hs. i \<noteq> j \<longrightarrow> set (hs ! i # cs ! i) \<inter> set (hs ! j # cs ! j) = {})"

fun foreach_list :: "('a \<Rightarrow> 's \<Rightarrow> (bool \<times> 's) option) \<Rightarrow> 'a list \<Rightarrow> 's \<Rightarrow> (bool \<times> 's) option" where
  "foreach_list body [] s = Some (False, s)"
| "foreach_list body (x # xs) s = do {
     (brk, s') \<leftarrow> body x s;
     if brk then Some (True, s') else foreach_list body xs s'
   }"

definition live :: "lmem \<Rightarrow> addr \<Rightarrow> bool" where
  "live m p \<longleftrightarrow> load m p \<noteq> None"

section \<open>Field updates\<close>

definition upd_next :: "lmem \<Rightarrow> addr \<Rightarrow> addr \<Rightarrow> lmem" where
  "upd_next m p v = m(p \<mapsto> (the (m p))\<lparr>lnext := v\<rparr>)"

definition upd_prev :: "lmem \<Rightarrow> addr \<Rightarrow> addr \<Rightarrow> lmem" where
  "upd_prev m p v = m(p \<mapsto> (the (m p))\<lparr>lprev := v\<rparr>)"

named_theorems list_upd \<open>field updates of list nodes\<close>

lemma set_next_live [list_upd]: "live m p \<Longrightarrow> set_next m p v = Some (upd_next m p v)"
  by (auto simp: live_def set_next_def upd_next_def mem_simps dest!: load_SomeD) (simp add: load_def mem_simps)

lemma set_prev_live [list_upd]: "live m p \<Longrightarrow> set_prev m p v = Some (upd_prev m p v)"
  by (auto simp: live_def set_prev_def upd_prev_def mem_simps dest!: load_SomeD) (simp add: load_def mem_simps)

lemma load_upd_next: "live m p \<Longrightarrow>
    load (upd_next m p v) q = (if q = p then Some ((the (load m p))\<lparr>lnext := v\<rparr>) else load m q)"
  by (auto simp: live_def upd_next_def load_def split: if_splits)

lemma load_upd_prev: "live m p \<Longrightarrow>
    load (upd_prev m p v) q = (if q = p then Some ((the (load m p))\<lparr>lprev := v\<rparr>) else load m q)"
  by (auto simp: live_def upd_prev_def load_def split: if_splits)

lemma load_upd_other [list_upd]:
  "q \<noteq> p \<Longrightarrow> load (upd_next m p v) q = load m q"
  "q \<noteq> p \<Longrightarrow> load (upd_prev m p v) q = load m q"
  by (simp_all add: upd_next_def upd_prev_def load_def)

lemma live_upd [list_upd]:
  "live m p \<Longrightarrow> live (upd_next m p v) q \<longleftrightarrow> live m q"
  "live m p \<Longrightarrow> live (upd_prev m p v) q \<longleftrightarrow> live m q"
  by (auto simp: live_def upd_next_def upd_prev_def load_def)

lemma nxt_upd [list_upd]:
  "live m p \<Longrightarrow> nxt (upd_next m p v) q = (if q = p then Some v else nxt m q)"
  "live m p \<Longrightarrow> nxt (upd_prev m p v) q = nxt m q"
  by (auto simp: nxt_def load_upd_next load_upd_prev live_def)

lemma prv_upd [list_upd]:
  "live m p \<Longrightarrow> prv (upd_prev m p v) q = (if q = p then Some v else prv m q)"
  "live m p \<Longrightarrow> prv (upd_next m p v) q = prv m q"
  by (auto simp: prv_def load_upd_next load_upd_prev live_def)

lemma live_same: "\<forall>q. live m' q = live m q \<Longrightarrow> load m' q = None \<longleftrightarrow> load m q = None"
  by (metis live_def)

lemma live_nxt: "nxt m p = Some q \<Longrightarrow> live m p"
  and live_prv: "prv m p = Some q \<Longrightarrow> live m p"
  by (auto simp: nxt_def prv_def live_def)

lemma nxt_load: "nxt m p = Some q \<Longrightarrow> \<exists>n. load m p = Some n \<and> lnext n = q"
  and prv_load: "prv m p = Some q \<Longrightarrow> \<exists>n. load m p = Some n \<and> lprev n = q"
  by (auto simp: nxt_def prv_def)

section \<open>Single lists\<close>

lemma linked_append:
  "linked m p (xs @ y # ys) q \<longleftrightarrow> linked m p xs y \<and> linked m y ys q"
  by (induction xs arbitrary: p) auto

lemma linked_cong:
  "\<forall>x \<in> set (p # xs). nxt m' x = nxt m x \<Longrightarrow> \<forall>x \<in> set (q # xs). prv m' x = prv m x \<Longrightarrow>
     linked m' p xs q = linked m p xs q"
  by (induction xs arbitrary: p) auto

lemma linked_ends:
  "linked m p xs q \<Longrightarrow> nxt m p = Some (hd (xs @ [q])) \<and> prv m q = Some (last (p # xs))"
  by (induction xs arbitrary: p) auto

lemma linked_live: "linked m p xs q \<Longrightarrow> x \<in> set (p # xs) \<union> {q} \<Longrightarrow> live m x"
  by (induction xs arbitrary: p) (auto dest: live_nxt live_prv)

lemma dlist_live: "dlist m a xs \<Longrightarrow> x \<in> set (a # xs) \<Longrightarrow> live m x"
  using linked_live by (auto simp: dlist_def)

lemma dlist_frame: "\<forall>q \<in> set (a # xs). load m' q = load m q \<Longrightarrow> dlist m' a xs = dlist m a xs"
  unfolding dlist_def using linked_cong [of a xs m' m a] by (auto simp: nxt_def prv_def)

lemma INIT_LIST_ok:
  "live m a \<Longrightarrow> \<exists>m'. INIT_LIST m a = Some m' \<and> dlist m' a [] \<and> (\<forall>q. q \<noteq> a \<longrightarrow> load m' q = load m q)
     \<and> (\<forall>q. live m' q = live m q)"
  by (auto simp: INIT_LIST_def dlist_def list_upd)

lemma list_add_front_eq:
  assumes "dlist m a xs" "x \<notin> set (a # xs)" "live m x"
  defines "n \<equiv> hd (xs @ [a])"
  shows "list_add_front m a x
      = Some (upd_next (upd_prev (upd_prev (upd_next m x n) x a) n x) a x)"
proof -
  have n: "nxt m a = Some n" "live m n" "live m a" "x \<noteq> a"
    using assms linked_ends [of m a xs a] dlist_live [OF assms(1)]
    by (auto simp: dlist_def hd_append split: if_splits)
  then show ?thesis
    using assms(3) unfolding list_add_front_def
    by (auto simp: list_upd dest!: nxt_load)
qed

lemma list_add_front_dlist:
  assumes "dlist m a xs" "x \<notin> set (a # xs)" "live m x"
  shows "\<exists>m'. list_add_front m a x = Some m' \<and> dlist m' a (x # xs)
     \<and> (\<forall>q. q \<notin> set (x # a # xs) \<longrightarrow> load m' q = load m q) \<and> (\<forall>q. live m' q = live m q)"
proof -
  define n where "n = hd (xs @ [a])"
  have n: "live m n" "live m a" "x \<noteq> a" "x \<noteq> n" "n \<in> set (a # xs)"
    using assms dlist_live [OF assms(1)] by (auto simp: n_def hd_append split: if_splits)
  let ?m = "upd_next (upd_prev (upd_prev (upd_next m x n) x a) n x) a x"
  have "linked ?m x xs a"
  proof (cases xs)
    case Nil
    then show ?thesis using n assms by (simp add: list_upd n_def)
  next
    case (Cons y ys)
    then have "linked ?m y ys a = linked m y ys a"
      using n assms by (intro linked_cong) (auto simp: list_upd n_def dlist_def)
    then show ?thesis using Cons n assms by (auto simp: list_upd n_def dlist_def)
  qed
  then have "dlist ?m a (x # xs)"
    using n assms by (auto simp: dlist_def list_upd)
  moreover have "load ?m q = load m q" if "q \<notin> set (x # a # xs)" for q
  proof -
    have "q \<noteq> n" "q \<noteq> a" "q \<noteq> x" using that n by auto
    then show ?thesis by (simp add: list_upd)
  qed
  ultimately show ?thesis
    using n assms list_add_front_eq [OF assms] by (simp add: list_upd n_def)
qed

lemma list_add_back_dlist:
  assumes "dlist m a xs" "x \<notin> set (a # xs)" "live m x"
  shows "\<exists>m'. list_add_back m a x = Some m' \<and> dlist m' a (xs @ [x])
     \<and> (\<forall>q. q \<notin> set (x # a # xs) \<longrightarrow> load m' q = load m q) \<and> (\<forall>q. live m' q = live m q)"
proof -
  define l where "l = last (a # xs)"
  have l: "prv m a = Some l" "live m l" "live m a" "x \<noteq> a" "x \<noteq> l" "l \<in> set (a # xs)"
    using assms linked_ends [of m a xs a] dlist_live [OF assms(1)] last_in_set [of "a # xs"]
    unfolding l_def dlist_def by auto
  let ?m = "upd_prev (upd_next (upd_prev (upd_next m x a) x l) l x) a x"
  have eq: "list_add_back m a x = Some ?m"
    using l assms(3) unfolding list_add_back_def by (auto simp: list_upd dest!: prv_load)
  have "linked ?m a xs x"
  proof (cases xs rule: rev_cases)
    case Nil
    then show ?thesis using l assms by (auto simp: list_upd l_def)
  next
    case (snoc ys y)
    then have "linked ?m a ys y = linked m a ys y"
      using l assms by (intro linked_cong) (auto simp: list_upd l_def dlist_def)
    then show ?thesis using snoc l assms by (auto simp: list_upd l_def dlist_def linked_append)
  qed
  then have "dlist ?m a (xs @ [x])"
    using l assms by (auto simp: dlist_def list_upd linked_append)
  moreover have "load ?m q = load m q" if "q \<notin> set (x # a # xs)" for q
  proof -
    have "q \<noteq> l" "q \<noteq> a" "q \<noteq> x" using that l by auto
    then show ?thesis by (simp add: list_upd)
  qed
  ultimately show ?thesis
    using eq l assms by (simp add: list_upd)
qed

text \<open>A segment whose last node is redirected from \<open>x\<close> to \<open>z\<close>.\<close>

lemma linked_retarget:
  assumes "linked m a xs x" "distinct (a # xs)"
    and "\<forall>y \<in> set (a # xs). y \<noteq> last (a # xs) \<longrightarrow> nxt m' y = nxt m y"
    and "\<forall>y \<in> set xs. prv m' y = prv m y"
    and "nxt m' (last (a # xs)) = Some z" "prv m' z = Some (last (a # xs))"
  shows "linked m' a xs z"
  using assms by (induction xs arbitrary: a) (auto split: if_splits)

lemma list_del_dlist:
  assumes "dlist m a (xs @ x # ys)"
  shows "\<exists>m'. list_del m x = Some m' \<and> dlist m' a (xs @ ys) \<and> dlist m' x []
     \<and> (\<forall>q. q \<notin> set (a # xs @ x # ys) \<longrightarrow> load m' q = load m q) \<and> (\<forall>q. live m' q = live m q)"
proof -
  define p n where "p = last (a # xs)" and "n = hd (ys @ [a])"
  have seg: "linked m a xs x" "linked m x ys a" and d: "distinct (a # xs @ x # ys)"
    using assms by (auto simp: dlist_def linked_append)
  have pn: "prv m x = Some p" "nxt m x = Some n" "p \<in> set (a # xs)" "n \<in> set (a # ys)"
    using linked_ends [OF seg(1)] linked_ends [OF seg(2)] last_in_set [of "a # xs"]
    by (auto simp: p_def n_def hd_append)
  have lv: "live m x" "live m p" "live m n" and ne: "x \<noteq> p" "x \<noteq> n" "n \<notin> set xs" "p \<notin> set ys"
    using dlist_live [OF assms] pn d by auto
  let ?m = "upd_next (upd_prev (upd_prev (upd_next m p n) n p) x x) x x"
  have eq: "list_del m x = Some ?m"
    using pn lv ne unfolding list_del_def by (auto simp: list_upd dest!: nxt_load prv_load)
  have "linked ?m a xs n"
  proof (rule linked_retarget [OF seg(1)])
    show "distinct (a # xs)" using d by simp
    have "x \<notin> set (a # xs)" using d by auto
    then show "\<forall>y \<in> set (a # xs). y \<noteq> last (a # xs) \<longrightarrow> nxt ?m y = nxt m y"
      using lv by (auto simp: list_upd p_def)
    show "\<forall>y \<in> set xs. prv ?m y = prv m y"
      using lv ne d by (auto simp: list_upd)
    show "nxt ?m (last (a # xs)) = Some n" "prv ?m n = Some (last (a # xs))"
      unfolding p_def [symmetric] using lv ne by (simp_all add: list_upd)
  qed
  moreover have "linked ?m n (tl ys) a" if "ys \<noteq> []"
  proof -
    from that obtain z zs where ys: "ys = z # zs" by (cases ys) auto
    then have "linked ?m z zs a = linked m z zs a"
      using lv ne d pn by (intro linked_cong) (auto simp: list_upd n_def)
    then show ?thesis using ys seg(2) by (simp add: n_def)
  qed
  ultimately have "linked ?m a (xs @ ys) a"
    by (cases ys) (auto simp: n_def linked_append)
  moreover have "dlist ?m x []"
    using lv ne by (simp add: dlist_def list_upd)
  moreover have "load ?m q = load m q" if "q \<notin> set (a # xs @ x # ys)" for q
  proof -
    have "q \<noteq> p" "q \<noteq> n" "q \<noteq> x" using that pn by auto
    then show ?thesis by (simp add: list_upd)
  qed
  ultimately show ?thesis
    using eq lv d by (auto simp: dlist_def list_upd)
qed

lemma list_empty_dlist: "dlist m a xs \<Longrightarrow> list_empty m a = Some (xs = [])"
  by (cases xs) (auto simp: list_empty_def dlist_def dest!: nxt_load)

lemma list_front_dlist: "dlist m a (x # xs) \<Longrightarrow> list_front m a = Some x"
  by (auto simp: list_front_def dlist_def dest!: nxt_load)

lemma list_del_alone:
  assumes "dlist m x []"
  shows "\<exists>m'. list_del m x = Some m' \<and> (\<forall>q. load m' q = load m q)"
proof -
  obtain n where n: "load m x = Some n" "lnext n = x" "lprev n = x"
    using assms by (auto simp: dlist_def nxt_def prv_def)
  then have "load (upd_next m x x) q = load m q" "load (upd_prev m x x) q = load m q" for q
    by (cases n; auto simp: load_upd_next load_upd_prev live_def)+
  with n show ?thesis
    unfolding list_del_def
    by (auto simp: list_upd live_def load_upd_next load_upd_prev)
qed

lemma list_foreach_linked:
  "linked m p xs a \<Longrightarrow> a \<notin> set xs \<Longrightarrow>
     list_foreach m a body (hd (xs @ [a])) s = foreach_list body xs s"
proof (induction xs arbitrary: p s)
  case Nil
  then show ?case by (simp add: list_foreach.simps)
next
  case (Cons x xs)
  then have "nxt m x = Some (hd (xs @ [a]))"
    using linked_ends by auto
  then obtain n where "load m x = Some n" "lnext n = hd (xs @ [a])"
    by (auto dest: nxt_load)
  with Cons show ?case
    by (auto simp: list_foreach.simps [of m a body x s] split: Option.bind_splits prod.splits)
qed

text \<open>The loop visits the elements from front to back, and returns on a proper list.\<close>

lemma list_foreach_dlist:
  "dlist m a xs \<Longrightarrow> Option.bind (list_front m a) (\<lambda>p. list_foreach m a body p s) = foreach_list body xs s"
  using list_foreach_linked [of m a xs a body s] linked_ends [of m a xs a]
  by (auto simp: dlist_def list_front_def dest!: nxt_load)

section \<open>Families of lists\<close>

lemma dlistsD:
  assumes "dlists m hs cs"
  shows "length cs = length hs" "i < length hs \<Longrightarrow> dlist m (hs ! i) (cs ! i)"
    "i < length hs \<Longrightarrow> j < length hs \<Longrightarrow> i \<noteq> j \<Longrightarrow> set (hs ! i # cs ! i) \<inter> set (hs ! j # cs ! j) = {}"
  using assms by (auto simp: dlists_def)

lemma all_nodes_nth: "length cs = length hs \<Longrightarrow> all_nodes hs cs = (\<Union>i < length hs. set (hs ! i # cs ! i))"
proof -
  assume "length cs = length hs"
  then have "set hs = (!) hs ` {..<length hs}" "set cs = (!) cs ` {..<length hs}"
    by (auto simp: set_conv_nth)
  then show ?thesis by (auto simp: all_nodes_def)
qed

lemma dlists_update:
  assumes "dlists m hs cs" "i < length hs" "dlist m' (hs ! i) c"
    and sub: "set c \<subseteq> insert x (set (cs ! i))" and x: "x \<in> set (cs ! i) \<or> x \<notin> all_nodes hs cs"
    and fr: "\<forall>q. q \<notin> insert x (set (hs ! i # cs ! i)) \<longrightarrow> load m' q = load m q"
  shows "dlists m' hs (cs[i := c])"
proof -
  note d = dlistsD [OF assms(1)]
  have dis: "insert x (set (hs ! i # cs ! i)) \<inter> set (hs ! j # cs ! j) = {}" if "j < length hs" "j \<noteq> i" for j
    using d(3) [OF assms(2) that(1)] that x all_nodes_nth [OF d(1)] by auto
  have "dlist m' (hs ! j) (cs ! j)" if "j < length hs" "j \<noteq> i" for j
  proof -
    have "\<forall>q \<in> set (hs ! j # cs ! j). load m' q = load m q"
      using dis [OF that] fr by blast
    then show ?thesis using dlist_frame d(2) [OF that(1)] by blast
  qed
  moreover have "set (hs ! i # c) \<inter> set (hs ! j # cs ! j) = {}" if "j < length hs" "j \<noteq> i" for j
    using dis [OF that] sub by auto
  ultimately show ?thesis
    using assms(2,3) d(1) d(3) by (auto simp: dlists_def nth_list_update Int_commute)
qed

text \<open>
  The interface of intrusive lists: \<open>rep m hs cs\<close> says that anchor \<open>hs ! i\<close> holds the elements
  \<open>cs ! i\<close>, \<open>node\<close> reads a node, \<open>alone\<close> says that a node is linked to itself. Each operation
  changes one list of the family, touches no node outside it, and allocates or frees nothing.
\<close>

locale list_family =
  fixes rep :: "'m \<Rightarrow> addr list \<Rightarrow> addr list list \<Rightarrow> bool"
    and node :: "'m \<Rightarrow> addr \<Rightarrow> 'n option"
    and alone :: "'m \<Rightarrow> addr \<Rightarrow> bool"
    and add_front :: "'m \<Rightarrow> addr \<Rightarrow> addr \<Rightarrow> 'm option"
    and add_back :: "'m \<Rightarrow> addr \<Rightarrow> addr \<Rightarrow> 'm option"
    and del :: "'m \<Rightarrow> addr \<Rightarrow> 'm option"
  assumes add_front_law:
      "rep m hs cs \<Longrightarrow> i < length hs \<Longrightarrow> x \<notin> all_nodes hs cs \<Longrightarrow> node m x \<noteq> None \<Longrightarrow>
         \<exists>m'. add_front m (hs ! i) x = Some m' \<and> rep m' hs (cs[i := x # cs ! i])
           \<and> (\<forall>q. q \<notin> insert x (all_nodes hs cs) \<longrightarrow> node m' q = node m q)
           \<and> (\<forall>q. node m' q = None \<longleftrightarrow> node m q = None)"
    and add_back_law:
      "rep m hs cs \<Longrightarrow> i < length hs \<Longrightarrow> x \<notin> all_nodes hs cs \<Longrightarrow> node m x \<noteq> None \<Longrightarrow>
         \<exists>m'. add_back m (hs ! i) x = Some m' \<and> rep m' hs (cs[i := cs ! i @ [x]])
           \<and> (\<forall>q. q \<notin> insert x (all_nodes hs cs) \<longrightarrow> node m' q = node m q)
           \<and> (\<forall>q. node m' q = None \<longleftrightarrow> node m q = None)"
    and del_law:
      "rep m hs cs \<Longrightarrow> i < length hs \<Longrightarrow> cs ! i = xs @ x # ys \<Longrightarrow>
         \<exists>m'. del m x = Some m' \<and> rep m' hs (cs[i := xs @ ys]) \<and> alone m' x
           \<and> (\<forall>q. q \<notin> all_nodes hs cs \<longrightarrow> node m' q = node m q)
           \<and> (\<forall>q. node m' q = None \<longleftrightarrow> node m q = None)"
    and rep_length: "rep m hs cs \<Longrightarrow> length cs = length hs"
    and rep_node: "rep m hs cs \<Longrightarrow> x \<in> all_nodes hs cs \<Longrightarrow> node m x \<noteq> None"
    and rep_once: "rep m hs cs \<Longrightarrow> i < length hs \<Longrightarrow> cs ! i = xs @ x # ys \<Longrightarrow>
         x \<notin> all_nodes hs (cs[i := xs @ ys])"
begin

text \<open>Unlinking an element and putting it in front of another list of the family.\<close>

lemma move_law:
  assumes "rep m hs cs" "i < length hs" "j < length hs" "cs ! i = xs @ x # ys"
  defines "cs1 \<equiv> cs[i := xs @ ys]"
  shows "\<exists>m'. Option.bind (del m x) (\<lambda>m1. add_front m1 (hs ! j) x) = Some m'
     \<and> rep m' hs (cs1[j := x # cs1 ! j])
     \<and> (\<forall>q. q \<notin> all_nodes hs cs \<longrightarrow> node m' q = node m q)
     \<and> (\<forall>q. node m' q = None \<longleftrightarrow> node m q = None)"
proof -
  obtain m1 where m1: "del m x = Some m1" "rep m1 hs cs1"
      "\<forall>q. q \<notin> all_nodes hs cs \<longrightarrow> node m1 q = node m q"
      "\<forall>q. node m1 q = None \<longleftrightarrow> node m q = None"
    using del_law [OF assms(1,2,4)] unfolding cs1_def by blast
  have x: "x \<in> all_nodes hs cs" "x \<notin> all_nodes hs cs1"
    using rep_once [OF assms(1,2,4)] assms(2,4) rep_length [OF assms(1)]
    unfolding cs1_def by (auto simp: all_nodes_nth intro!: bexI [of _ i])
  have sub: "insert x (all_nodes hs cs1) \<subseteq> all_nodes hs cs"
    using x(1) assms(2,4) rep_length [OF assms(1)]
    by (auto simp: cs1_def all_nodes_nth nth_list_update split: if_splits)
  have "node m1 x \<noteq> None"
    using m1(4) rep_node [OF assms(1) x(1)] by simp
  from add_front_law [OF m1(2) assms(3) x(2) this] obtain m' where
    "add_front m1 (hs ! j) x = Some m'" "rep m' hs (cs1[j := x # cs1 ! j])"
    "\<forall>q. q \<notin> insert x (all_nodes hs cs1) \<longrightarrow> node m' q = node m1 q"
    "\<forall>q. node m' q = None \<longleftrightarrow> node m1 q = None"
    by blast
  with m1 sub show ?thesis
    by (metis bind.bind_lunit subsetD)
qed

end

text \<open>Both insertions put a node that is in none of the lists into one of them.\<close>

lemma add_family:
  assumes f: "dlists m hs cs" "i < length hs" "x \<notin> all_nodes hs cs"
    and r: "\<exists>m'. r = Some m' \<and> dlist m' (hs ! i) c \<and> (\<forall>q. q \<notin> set (x # hs ! i # cs ! i) \<longrightarrow> load m' q = load m q) \<and> (\<forall>q. live m' q = live m q)"
    and c: "set c = insert x (set (cs ! i))"
  shows "\<exists>m'. r = Some m' \<and> dlists m' hs (cs[i := c]) \<and> (\<forall>q. q \<notin> insert x (all_nodes hs cs) \<longrightarrow> load m' q = load m q)
     \<and> (\<forall>q. load m' q = None \<longleftrightarrow> load m q = None)"
proof -
  obtain m' where m': "r = Some m'" "dlist m' (hs ! i) c" "\<forall>q. q \<notin> set (x # hs ! i # cs ! i) \<longrightarrow> load m' q = load m q"
      "\<forall>q. live m' q = live m q"
    using r by blast
  have "set (hs ! i # cs ! i) \<subseteq> all_nodes hs cs" using f(2) by (auto simp: all_nodes_nth [OF dlistsD(1) [OF f(1)]])
  moreover have "dlists m' hs (cs[i := c])" using m' f(3) c by (intro dlists_update [OF f(1,2), of m' _ x]) auto
  ultimately show ?thesis using m' live_same [OF m'(4)] by auto
qed

lemma outside_family:
  assumes "dlists m hs cs" "i < length hs" "x \<notin> all_nodes hs cs" "load m x \<noteq> None"
  shows "dlist m (hs ! i) (cs ! i)" "x \<notin> set (hs ! i # cs ! i)" "live m x"
  using assms dlistsD [OF assms(1)] by (auto simp: all_nodes_nth live_def)

lemma del_family:
  assumes f: "dlists m hs cs" "i < length hs" "cs ! i = xs @ x # ys"
  shows "\<exists>m'. list_del m x = Some m' \<and> dlists m' hs (cs[i := xs @ ys]) \<and> dlist m' x []
     \<and> (\<forall>q. q \<notin> all_nodes hs cs \<longrightarrow> load m' q = load m q) \<and> (\<forall>q. load m' q = None \<longleftrightarrow> load m q = None)"
proof -
  note d = dlistsD [OF f(1)]
  have sub: "set (hs ! i # xs @ x # ys) \<subseteq> all_nodes hs cs"
    using f(2) all_nodes_nth [OF d(1)] by (auto simp flip: f(3))
  from d(2) [OF f(2)] f(3) have "dlist m (hs ! i) (xs @ x # ys)" by simp
  from list_del_dlist [OF this] obtain m' where m':
    "list_del m x = Some m'" "dlist m' (hs ! i) (xs @ ys)" "dlist m' x []"
    "\<forall>q. q \<notin> set (hs ! i # xs @ x # ys) \<longrightarrow> load m' q = load m q" "\<forall>q. live m' q = live m q"
    by blast
  then have "dlists m' hs (cs[i := xs @ ys])"
    using f(3) by (intro dlists_update [OF f(1,2), of m' _ x]) auto
  moreover have "load m' q = load m q" if "q \<notin> all_nodes hs cs" for q
    using m'(4) sub that by blast
  ultimately show ?thesis using m' live_same [OF m'(5)] by blast
qed

lemma deleted_outside:
  assumes f: "dlists m hs cs" "i < length hs" "cs ! i = xs @ x # ys"
  shows "x \<notin> all_nodes hs (cs[i := xs @ ys])"
proof -
  note d = dlistsD [OF f(1)]
  have "x \<notin> set (hs ! i # xs @ ys)"
    using d(2) [OF f(2)] f(3) by (auto simp: dlist_def)
  moreover have "x \<notin> set (hs ! j # cs ! j)" if "j < length hs" "j \<noteq> i" for j
    using d(3) [OF f(2) that(1)] that f(3) by auto
  ultimately show ?thesis
    using f(2) d(1) by (auto simp: all_nodes_nth nth_list_update split: if_splits)
qed

interpretation ll: list_family dlists load "\<lambda>m x. dlist m x []" list_add_front list_add_back list_del
proof
  fix m hs cs i x
  assume f: "dlists m hs cs" "i < length hs" "x \<notin> all_nodes hs cs" "load m x \<noteq> None"
  show "\<exists>m'. list_add_front m (hs ! i) x = Some m' \<and> dlists m' hs (cs[i := x # cs ! i])
      \<and> (\<forall>q. q \<notin> insert x (all_nodes hs cs) \<longrightarrow> load m' q = load m q) \<and> (\<forall>q. load m' q = None \<longleftrightarrow> load m q = None)"
    by (rule add_family [OF f(1-3) list_add_front_dlist [OF outside_family [OF f]]]) simp
  show "\<exists>m'. list_add_back m (hs ! i) x = Some m' \<and> dlists m' hs (cs[i := cs ! i @ [x]])
      \<and> (\<forall>q. q \<notin> insert x (all_nodes hs cs) \<longrightarrow> load m' q = load m q) \<and> (\<forall>q. load m' q = None \<longleftrightarrow> load m q = None)"
    by (rule add_family [OF f(1-3) list_add_back_dlist [OF outside_family [OF f]]]) simp
next
  show "length cs = length hs" if "dlists m hs cs" for m hs cs
    using dlistsD(1) [OF that] .
  show "load m x \<noteq> None" if "dlists m hs cs" "x \<in> all_nodes hs cs" for m hs cs x
    using that dlistsD [OF that(1)] dlist_live by (auto simp: all_nodes_nth live_def; blast)
qed (fact del_family deleted_outside)+

lemma list_move_law:
  assumes "dlists m hs cs" "i < length hs" "j < length hs" "cs ! i = xs @ x # ys"
  defines "cs1 \<equiv> cs[i := xs @ ys]"
  shows "\<exists>m'. list_move m x (hs ! j) = Some m' \<and> dlists m' hs (cs1[j := x # cs1 ! j])
     \<and> (\<forall>q. q \<notin> all_nodes hs cs \<longrightarrow> load m' q = load m q)
     \<and> (\<forall>q. load m' q = None \<longleftrightarrow> load m q = None)"
  using ll.move_law [OF assms(1-4)] unfolding list_move_def cs1_def .

text \<open>Emptying a list with the safe loop.\<close>

definition drain_body :: "addr \<Rightarrow> lmem \<Rightarrow> addr list \<Rightarrow> (lmem \<times> addr list) option" where
  "drain_body p m s = map_option (\<lambda>m'. (m', s @ [p])) (list_del m p)"

lemma foreach_safe_drain:
  assumes "dlist m a (x # xs)"
  shows "\<exists>m'. list_foreach_safe a drain_body x (hd (xs @ [a])) m s = Some (m', s @ x # xs)
      \<and> dlist m' a [] \<and> (\<forall>y \<in> set (x # xs). dlist m' y [])
      \<and> (\<forall>q. q \<notin> set (a # x # xs) \<longrightarrow> load m' q = load m q)"
  using assms
proof (induction xs arbitrary: m x s)
  case Nil
  then have "x \<noteq> a" by (auto simp: dlist_def)
  from Nil list_del_dlist [of m a "[]" x "[]"] obtain m1 where
    m1: "list_del m x = Some m1" "dlist m1 a []" "dlist m1 x []"
      "\<forall>q. q \<notin> set [a, x] \<longrightarrow> load m1 q = load m q" by auto
  then obtain n where "load m1 a = Some n" by (auto simp: dlist_def dest: nxt_load)
  with m1 \<open>x \<noteq> a\<close> show ?case by (simp add: list_foreach_safe.simps drain_body_def)
next
  case (Cons y ys)
  then have d: "x \<noteq> a" "x \<notin> set (y # ys)" by (auto simp: dlist_def)
  from Cons.prems list_del_dlist [of m a "[]" x "y # ys"] obtain m1 where
    m1: "list_del m x = Some m1" "dlist m1 a (y # ys)" "dlist m1 x []"
      "\<forall>q. q \<notin> set (a # x # y # ys) \<longrightarrow> load m1 q = load m q" by auto
  then have "nxt m1 y = Some (hd (ys @ [a]))"
    using linked_ends [of m1 y ys a] by (auto simp: dlist_def)
  then obtain n where n: "load m1 y = Some n" "lnext n = hd (ys @ [a])"
    by (auto dest: nxt_load)
  from Cons.IH [OF m1(2), of "s @ [x]"] obtain m' where
    m': "list_foreach_safe a drain_body y (hd (ys @ [a])) m1 (s @ [x]) = Some (m', s @ x # y # ys)"
      "dlist m' a []" "\<forall>z \<in> set (y # ys). dlist m' z []"
      "\<forall>q. q \<notin> set (a # y # ys) \<longrightarrow> load m' q = load m1 q"
    by auto
  have "dlist m' x []"
    using m1(3) m'(4) d dlist_frame [of x "[]" m' m1] by auto
  then show ?case
    using m1 n m' d by (simp add: list_foreach_safe.simps [of a _ x] drain_body_def [of x])
qed

section \<open>Properties\<close>

text \<open>
  On a family of non-overlapping lists, \<open>list_add_front\<close> and \<open>list_add_back\<close> of a node that
  is in none of them succeed, put it first respectively last in the chosen list, leave the other
  lists as they were and write no node outside the family.
\<close>

theorem list_add_family:
  assumes "dlists m hs cs" "i < length hs" "x \<notin> all_nodes hs cs" "load m x \<noteq> None"
  shows "\<exists>mf mb. list_add_front m (hs ! i) x = Some mf \<and> dlists mf hs (cs[i := x # cs ! i])
     \<and> list_add_back m (hs ! i) x = Some mb \<and> dlists mb hs (cs[i := cs ! i @ [x]])
     \<and> (\<forall>q. q \<notin> insert x (all_nodes hs cs) \<longrightarrow> load mf q = load m q \<and> load mb q = load m q)"
  using ll.add_front_law [OF assms] ll.add_back_law [OF assms] by metis

text \<open>
  C34: \<open>list_del\<close> of an element of a list of the family takes exactly that element out and leaves
  it linked to itself, so \<open>list_empty\<close> of it is true (the macro is true for an empty list; the comment above it in
  \<^verbatim>\<open>list.h\<close>, "0 = empty , 1 otherwise", says the opposite); \<open>list_move\<close> takes it to the front of another
  list of the family, or of its own.
\<close>

theorem list_del_move_family:
  assumes "dlists m hs cs" "i < length hs" "j < length hs" "cs ! i = xs @ x # ys"
  shows "\<exists>md mm. list_del m x = Some md \<and> dlists md hs (cs[i := xs @ ys]) \<and> list_empty md x = Some True
     \<and> list_move m x (hs ! j) = Some mm
     \<and> dlists mm hs (if i = j then cs[i := x # xs @ ys] else cs[i := xs @ ys, j := x # cs ! j])"
proof -
  obtain md where md: "list_del m x = Some md" "dlists md hs (cs[i := xs @ ys])" "dlist md x []"
    using ll.del_law [OF assms(1,2,4)] by blast
  have len: "length cs = length hs"
    using assms(1) by (rule ll.rep_length)
  obtain mm where "list_move m x (hs ! j) = Some mm"
      "dlists mm hs (cs[i := xs @ ys, j := x # cs[i := xs @ ys] ! j])"
    using list_move_law [OF assms] by blast
  then show ?thesis
    using md assms(2) len list_empty_dlist [OF md(3)] by auto
qed

text \<open>
  \<open>list_foreach\<close> over a proper list runs its body on the elements from front to back until
  the body leaves the loop, and it ends; \<open>list_foreach_safe\<close> with a body that unlinks every element
  visits all of them, empties the list and leaves each element alone.
\<close>

theorem list_foreach_visits:
  assumes "dlist m a xs"
  shows "do { p \<leftarrow> list_front m a; list_foreach m a body p s } = foreach_list body xs s
     \<and> (\<exists>m'. do { p \<leftarrow> list_front m a; t \<leftarrow> list_front m p; list_foreach_safe a drain_body p t m [] }
          = Some (m', xs) \<and> dlist m' a [] \<and> (\<forall>x \<in> set xs. dlist m' x []))"
proof -
  have "\<exists>m'. do { p \<leftarrow> list_front m a; t \<leftarrow> list_front m p; list_foreach_safe a drain_body p t m [] }
          = Some (m', xs) \<and> dlist m' a [] \<and> (\<forall>x \<in> set xs. dlist m' x [])"
  proof (cases xs)
    case Nil
    then have "nxt m a = Some a" using assms by (simp add: dlist_def)
    then show ?thesis using Nil assms
      by (auto simp: list_front_def list_foreach_safe.simps dest!: nxt_load)
  next
    case (Cons x ys)
    then have d: "dlist m a (x # ys)" using assms by simp
    then have "list_front m x = Some (hd (ys @ [a]))"
      using linked_ends [of m x ys a] by (auto simp: dlist_def list_front_def dest!: nxt_load)
    then show ?thesis
      using foreach_safe_drain [OF d, of "[]"] list_front_dlist [OF d] Cons by auto
  qed
  then show ?thesis
    using list_foreach_dlist [OF assms] by simp
qed

subsection \<open>Witnesses\<close>

text \<open>Two anchors at 1 and 2 holding \<open>[3, 4]\<close> and nothing, and a node 5 on its own.\<close>

definition example_lists :: lmem where
  "example_lists =
     [1 \<mapsto> \<lparr>lprev = 4, lnext = 3\<rparr>, 3 \<mapsto> \<lparr>lprev = 1, lnext = 4\<rparr>, 4 \<mapsto> \<lparr>lprev = 3, lnext = 1\<rparr>,
      2 \<mapsto> \<lparr>lprev = 2, lnext = 2\<rparr>, 5 \<mapsto> \<lparr>lprev = 5, lnext = 5\<rparr>]"

lemma example_lists_ok: "dlists example_lists [1, 2] [[3, 4], []]"
  by (auto simp: dlists_def dlist_def nxt_def prv_def load_def example_lists_def less_Suc_eq)

theorem list_add_family_witness:
  "\<exists>mf mb. list_add_front example_lists 1 5 = Some mf \<and> dlists mf [1, 2] [[5, 3, 4], []]
     \<and> list_add_back example_lists 1 5 = Some mb \<and> dlists mb [1, 2] [[3, 4, 5], []]"
proof -
  have "5 \<notin> all_nodes [1, 2] [[3, 4], []]" "load example_lists 5 \<noteq> None"
    by (simp_all add: all_nodes_def load_def example_lists_def)
  with list_add_family [OF example_lists_ok, of 0 5] show ?thesis by auto
qed

theorem list_del_move_family_witness:
  "\<exists>md mm. list_del example_lists 3 = Some md \<and> dlists md [1, 2] [[4], []]
     \<and> list_move example_lists 3 2 = Some mm \<and> dlists mm [1, 2] [[4], [3]]"
  using list_del_move_family [OF example_lists_ok, of 0 1 "[]" 3 "[4]"] by auto

theorem list_foreach_visits_witness:
  "\<exists>m'. do { p \<leftarrow> list_front example_lists 1; t \<leftarrow> list_front example_lists p;
          list_foreach_safe 1 drain_body p t example_lists [] } = Some (m', [3, 4]) \<and> dlist m' 1 []"
proof -
  have "dlist example_lists 1 [3, 4]"
    using dlistsD(2) [OF example_lists_ok, of 0] by simp
  from list_foreach_visits [OF this, of "\<lambda>p n. Some (False, Suc n)" 0] show ?thesis by blast
qed

end
