(* ===== verification/Ckit_Pbuf.thy ===== *)
theory Ckit_Pbuf
  imports Ckit_List Ckit_Atomic
begin

text \<open>
  \<^verbatim>\<open>src/pbuf.c\<close> and \<^verbatim>\<open>include/ckit/pbuf.h\<close>: reference-counted packet buffers from a static pool.

  A buffer is a record of the struct's fields, at their widths, and of the bytes from \<^verbatim>\<open>head\<close> to the
  end of its pool entry: \<^verbatim>\<open>head\<close> is at offset 76 of the struct, the struct is padded to 80 bytes and
  followed by \<open>PBUF_MAX_SIZE\<close> bytes, so there are \<open>4 + 4096\<close> of them. A pointer into the buffer is an
  index into these bytes. The pool keeps its entries on two lists; the buffer of the entry at \<open>e\<close> is
  at \<open>e + 16\<close>, behind the list node.

  A failed \<^verbatim>\<open>assert\<close> is the error \<open>Assert_failed\<close>, a meaningless access the error \<open>Fault\<close>.
\<close>

section \<open>Definitions\<close>

subsection \<open>Errors\<close>

datatype pb_error = Assert_failed | Fault

type_synonym 'a run = "pb_error + 'a"

definition lift_opt :: "'a option \<Rightarrow> 'a run" where
  "lift_opt x = (case x of None \<Rightarrow> Inl Fault | Some v \<Rightarrow> Inr v)"

definition ebind :: "'a run \<Rightarrow> ('a \<Rightarrow> 'b run) \<Rightarrow> 'b run" where
  "ebind x f = (case x of Inl e \<Rightarrow> Inl e | Inr v \<Rightarrow> f v)"

definition assert_that :: "bool \<Rightarrow> unit run" where
  "assert_that b = (if b then Inr () else Inl Assert_failed)"

lemma run_simps [simp]:
  "ebind (Inl e) f = Inl e" "ebind (Inr v) f = f v" "lift_opt None = Inl Fault" "lift_opt (Some v) = Inr v"
  "assert_that True = Inr ()" "assert_that False = Inl Assert_failed"
  by (simp_all add: ebind_def lift_opt_def assert_that_def)

subsection \<open>Buffers\<close>

definition CTRL_BLOCK_SIZE :: nat where
  "CTRL_BLOCK_SIZE = 20"

definition PBUF_MAX_SIZE :: nat where
  "PBUF_MAX_SIZE = 4096"

definition MIN_POOL_SIZE :: u64 where
  "MIN_POOL_SIZE = 20"

text \<open>The padding between \<^verbatim>\<open>head\<close> and the end of the struct.\<close>

definition PBUF_PAD :: nat where
  "PBUF_PAD = 4"

record pbuf =
  pb_refcount :: atomic_t
  pb_ifindex :: u32
  pb_cb :: "u8 list"
  pb_alloc_len :: u64
  pb_len :: u64
  pb_data :: u32
  pb_tail :: u32
  pb_end :: u32
  pb_link_offset :: u32
  pb_network_offset :: u32
  pb_transport_offset :: u32
  pb_payload_offset :: u32
  pb_bytes :: "u8 list"

text \<open>\<^verbatim>\<open>memset\<close> clears the struct with its padding, not the bytes behind it.\<close>

definition pbuf_zero :: "pbuf \<Rightarrow> pbuf" where
  "pbuf_zero pb = \<lparr>pb_refcount = \<lparr>at_value = 0\<rparr>, pb_ifindex = 0, pb_cb = replicate CTRL_BLOCK_SIZE 0, pb_alloc_len = 0,
     pb_len = 0, pb_data = 0, pb_tail = 0, pb_end = 0, pb_link_offset = 0, pb_network_offset = 0,
     pb_transport_offset = 0, pb_payload_offset = 0,
     pb_bytes = replicate PBUF_PAD 0 @ drop PBUF_PAD (pb_bytes pb)\<rparr>"

definition pbuf_init :: "pbuf \<Rightarrow> u64 \<Rightarrow> pbuf" where
  "pbuf_init pb sz =
     (let pb = pbuf_zero pb; pb = pb\<lparr>pb_end := ucast sz\<rparr>
      in pb\<lparr>pb_refcount := atomic_set (pb_refcount pb) 1\<rparr>)"

definition pbuf_ptr :: "pbuf \<Rightarrow> u32" where
  "pbuf_ptr pb = pb_data pb"

definition pbuf_hold :: "pbuf \<Rightarrow> pbuf" where
  "pbuf_hold pb = pb\<lparr>pb_refcount := snd (atomic_inc (pb_refcount pb))\<rparr>"

definition pbuf_reserve :: "pbuf \<Rightarrow> u64 \<Rightarrow> (u32 \<times> pbuf) run" where
  "pbuf_reserve pb len = ebind (assert_that (len \<le> ucast (pb_end pb - pb_data pb))) (\<lambda>_.
     let pb = pb\<lparr>pb_data := pb_data pb + ucast len\<rparr>;
         pb = pb\<lparr>pb_tail := pb_tail pb + ucast len\<rparr>
     in Inr (pbuf_ptr pb, pb))"

definition pbuf_push :: "pbuf \<Rightarrow> u64 \<Rightarrow> (u32 \<times> pbuf) run" where
  "pbuf_push pb len = ebind (assert_that (len \<le> ucast (pb_data pb))) (\<lambda>_.
     let pb = pb\<lparr>pb_data := pb_data pb - ucast len\<rparr>;
         pb = pb\<lparr>pb_len := pb_len pb + len\<rparr>
     in Inr (pbuf_ptr pb, pb))"

definition pbuf_pull :: "pbuf \<Rightarrow> u64 \<Rightarrow> (u32 \<times> pbuf) run" where
  "pbuf_pull pb len = ebind (assert_that (len \<le> ucast (pb_end pb - pb_data pb))) (\<lambda>_.
     let pb = pb\<lparr>pb_data := pb_data pb + ucast len\<rparr>;
         pb = pb\<lparr>pb_len := pb_len pb - len\<rparr>
     in Inr (pbuf_ptr pb, pb))"

definition pbuf_put :: "pbuf \<Rightarrow> u64 \<Rightarrow> (u32 \<times> pbuf) run" where
  "pbuf_put pb len =
     (let tail = pb_tail pb in
      ebind (assert_that (len \<le> ucast (pb_end pb - pb_tail pb))) (\<lambda>_.
        let pb = pb\<lparr>pb_tail := pb_tail pb + ucast len\<rparr>;
            pb = pb\<lparr>pb_len := pb_len pb + len\<rparr>
        in Inr (tail, pb)))"

definition pbuf_trim :: "pbuf \<Rightarrow> u64 \<Rightarrow> pbuf" where
  "pbuf_trim pb len =
     (let pb = pb\<lparr>pb_len := len\<rparr> in pb\<lparr>pb_tail := ucast (ucast (pb_data pb) + len)\<rparr>)"

definition pbuf_headroom :: "pbuf \<Rightarrow> u32" where
  "pbuf_headroom pb = pb_data pb"

definition pbuf_tailroom :: "pbuf \<Rightarrow> u32" where
  "pbuf_tailroom pb = pb_end pb - pb_tail pb"

definition pbuf_link_header :: "pbuf \<Rightarrow> u32" where
  "pbuf_link_header pb = pb_link_offset pb"

definition pbuf_network_header :: "pbuf \<Rightarrow> u32" where
  "pbuf_network_header pb = pb_network_offset pb"

definition pbuf_transport_header :: "pbuf \<Rightarrow> u32" where
  "pbuf_transport_header pb = pb_transport_offset pb"

definition pbuf_payload :: "pbuf \<Rightarrow> u32" where
  "pbuf_payload pb = pb_payload_offset pb"

definition pbuf_reset_link_header :: "pbuf \<Rightarrow> pbuf" where
  "pbuf_reset_link_header pb = pb\<lparr>pb_link_offset := pb_data pb\<rparr>"

definition pbuf_reset_network_header :: "pbuf \<Rightarrow> pbuf" where
  "pbuf_reset_network_header pb = pb\<lparr>pb_network_offset := pb_data pb\<rparr>"

definition pbuf_reset_transport_header :: "pbuf \<Rightarrow> pbuf" where
  "pbuf_reset_transport_header pb = pb\<lparr>pb_transport_offset := pb_data pb\<rparr>"

definition pbuf_reset_payload :: "pbuf \<Rightarrow> pbuf" where
  "pbuf_reset_payload pb = pb\<lparr>pb_payload_offset := pb_data pb\<rparr>"

subsection \<open>The pool\<close>

text \<open>The static variables: the mutex, the nodes of the two lists, the buffers, the block of entries.\<close>

record pool =
  pl_locked :: bool
  pl_nodes :: lmem
  pl_bufs :: "pbuf mem"
  pl_objects :: addr

definition free_list :: addr where
  "free_list = 1"

definition use_list :: addr where
  "use_list = 2"

definition ENTRY_SIZE :: nat where
  "ENTRY_SIZE = 16 + 80 + PBUF_MAX_SIZE"

definition entry_of :: "addr \<Rightarrow> addr" where
  "entry_of pb = pb - 16"

definition buf_of :: "addr \<Rightarrow> addr" where
  "buf_of ppe = ppe + 16"

definition pool_lock :: "pool \<Rightarrow> pool run" where
  "pool_lock P = (if pl_locked P then Inl Fault else Inr (P\<lparr>pl_locked := True\<rparr>))"

definition pool_unlock :: "pool \<Rightarrow> pool" where
  "pool_unlock P = P\<lparr>pl_locked := False\<rparr>"

definition zero_entry_buf :: pbuf where
  "zero_entry_buf = pbuf_zero \<lparr>pb_refcount = \<lparr>at_value = 0\<rparr>, pb_ifindex = 0, pb_cb = [], pb_alloc_len = 0,
     pb_len = 0, pb_data = 0, pb_tail = 0, pb_end = 0, pb_link_offset = 0, pb_network_offset = 0,
     pb_transport_offset = 0, pb_payload_offset = 0, pb_bytes = replicate (PBUF_PAD + PBUF_MAX_SIZE) 0\<rparr>"

text \<open>\<^verbatim>\<open>calloc\<close> of \<open>n\<close> entries at \<open>base\<close>: zeroed nodes and buffers.\<close>

definition entry_addrs :: "addr \<Rightarrow> nat \<Rightarrow> addr list" where
  "entry_addrs base n = map (\<lambda>i. base + i * ENTRY_SIZE) [0..<n]"

definition calloc_entries :: "addr \<Rightarrow> nat \<Rightarrow> pool \<Rightarrow> pool" where
  "calloc_entries base n P = P\<lparr>
     pl_nodes := (\<lambda>p. if p \<in> set (entry_addrs base n) then Some \<lparr>lprev = NULL, lnext = NULL\<rparr> else pl_nodes P p),
     pl_bufs := (\<lambda>p. if p \<in> buf_of ` set (entry_addrs base n) then Some zero_entry_buf else pl_bufs P p)\<rparr>"

text \<open>\<open>base\<close> is what \<^verbatim>\<open>calloc\<close> returns.\<close>

definition pbuf_pool_init :: "addr \<Rightarrow> u64 \<Rightarrow> pool \<Rightarrow> (int \<times> pool) option" where
  "pbuf_pool_init base pool_size P =
     (let pool_size = (if pool_size < MIN_POOL_SIZE then MIN_POOL_SIZE else pool_size) in
      if base = NULL then Some (-1, P\<lparr>pl_objects := NULL\<rparr>)
      else do {
        let P = (calloc_entries base (unat pool_size) P)\<lparr>pl_objects := base\<rparr>;
        nodes \<leftarrow> for_each (\<lambda>e m. list_add_back m free_list e) (entry_addrs base (unat pool_size)) (pl_nodes P);
        Some (0, P\<lparr>pl_nodes := nodes\<rparr>)
      })"

text \<open>
  \<^verbatim>\<open>free(objects)\<close>; \<open>n\<close> is the number of entries of the block, which only the allocator knows. The two lists are not reset.
\<close>

definition pbuf_pool_cleanup :: "nat \<Rightarrow> pool \<Rightarrow> pool" where
  "pbuf_pool_cleanup n P = (if pl_objects P = NULL then P else P\<lparr>
     pl_nodes := (\<lambda>p. if p \<in> set (entry_addrs (pl_objects P) n) then None else pl_nodes P p),
     pl_bufs := (\<lambda>p. if p \<in> buf_of ` set (entry_addrs (pl_objects P) n) then None else pl_bufs P p)\<rparr>)"

definition pbuf_alloc :: "u64 \<Rightarrow> pool \<Rightarrow> (addr \<times> pool) run" where
  "pbuf_alloc sz P = ebind (assert_that (unat sz \<le> PBUF_MAX_SIZE)) (\<lambda>_.
     ebind (pool_lock P) (\<lambda>P.
     ebind (lift_opt (list_empty (pl_nodes P) free_list)) (\<lambda>empty.
     if empty then Inr (NULL, pool_unlock P)
     else lift_opt (do {
       ppe \<leftarrow> list_front (pl_nodes P) free_list;
       nodes \<leftarrow> list_move (pl_nodes P) ppe use_list;
       let P = P\<lparr>pl_nodes := nodes\<rparr>;
       pb \<leftarrow> load (pl_bufs P) (buf_of ppe);
       let pb = (pbuf_init pb sz)\<lparr>pb_alloc_len := sz\<rparr>;
       bufs \<leftarrow> store (pl_bufs P) (buf_of ppe) pb;
       Some (buf_of ppe, pool_unlock (P\<lparr>pl_bufs := bufs\<rparr>))
     }))))"

definition pbuf_free :: "addr \<Rightarrow> pool \<Rightarrow> pool run" where
  "pbuf_free p P = ebind (lift_opt (load (pl_bufs P) p)) (\<lambda>pb.
     let (last, rc) = atomic_dec_and_test (pb_refcount pb) in
     ebind (lift_opt (store (pl_bufs P) p (pb\<lparr>pb_refcount := rc\<rparr>))) (\<lambda>bufs.
     let P = P\<lparr>pl_bufs := bufs\<rparr> in
     if last then
       ebind (pool_lock P) (\<lambda>P.
       ebind (lift_opt (list_move (pl_nodes P) (entry_of p) free_list)) (\<lambda>nodes.
       Inr (pool_unlock (P\<lparr>pl_nodes := nodes\<rparr>))))
     else Inr P))"

text \<open>
  \<^verbatim>\<open>memcpy\<close> of \<open>sizeof(struct pbuf) + tail\<close> bytes: all fields, the padding and \<open>tail\<close> bytes behind the
  struct, provided they lie in both entries.
\<close>

definition pbuf_memcpy :: "pbuf \<Rightarrow> pbuf \<Rightarrow> pbuf option" where
  "pbuf_memcpy dst src =
     (let n = PBUF_PAD + unat (pb_tail src) in
      if n \<le> length (pb_bytes src) \<and> n \<le> length (pb_bytes dst)
      then Some (src\<lparr>pb_bytes := take n (pb_bytes src) @ drop n (pb_bytes dst)\<rparr>) else None)"

definition pbuf_copy :: "addr \<Rightarrow> pool \<Rightarrow> (addr \<times> pool) run" where
  "pbuf_copy p P = ebind (lift_opt (load (pl_bufs P) p)) (\<lambda>pb.
     ebind (pbuf_alloc (pb_len pb) P) (\<lambda>(c, P).
     if c = NULL then Inr (NULL, P)
     else lift_opt (do {
       src \<leftarrow> load (pl_bufs P) p;
       dst \<leftarrow> load (pl_bufs P) c;
       pb \<leftarrow> pbuf_memcpy dst src;
       let pb = pb\<lparr>pb_refcount := atomic_set (pb_refcount pb) 1\<rparr>;
       bufs \<leftarrow> store (pl_bufs P) c pb;
       Some (c, P\<lparr>pl_bufs := bufs\<rparr>)
     })))"

subsection \<open>Specification\<close>

text \<open>A buffer in order: the data lies between \<^verbatim>\<open>data\<close> and \<^verbatim>\<open>tail\<close>, inside the requested size.\<close>

definition pb_wf :: "pbuf \<Rightarrow> bool" where
  "pb_wf pb \<longleftrightarrow> pb_data pb \<le> pb_tail pb \<and> pb_tail pb \<le> pb_end pb \<and> unat (pb_end pb) \<le> PBUF_MAX_SIZE
     \<and> unat (pb_len pb) = unat (pb_tail pb) - unat (pb_data pb) \<and> length (pb_bytes pb) = PBUF_PAD + PBUF_MAX_SIZE"

definition contents :: "pbuf \<Rightarrow> u8 list" where
  "contents pb = take (unat (pb_len pb)) (drop (unat (pb_data pb)) (pb_bytes pb))"

text \<open>A pool whose free entries are \<open>fs\<close> and whose used entries are \<open>us\<close>.\<close>

definition pool_wf :: "pool \<Rightarrow> addr list \<Rightarrow> addr list \<Rightarrow> bool" where
  "pool_wf P fs us \<longleftrightarrow> dlists (pl_nodes P) [free_list, use_list] [fs, us] \<and> \<not> pl_locked P
     \<and> (\<forall>e \<in> set fs \<union> set us. \<exists>pb. load (pl_bufs P) (buf_of e) = Some pb \<and> length (pb_bytes pb) = PBUF_PAD + PBUF_MAX_SIZE)"

section \<open>Buffer arithmetic\<close>

lemma unat_ucast_32: "unat (w :: u64) < 2 ^ 32 \<Longrightarrow> unat (ucast w :: u32) = unat w"
  by (simp add: unsigned_ucast_eq take_bit_nat_eq_self)

lemma unat_ucast_64: "unat (ucast (w :: u32) :: u64) = unat w"
  by (simp add: unsigned_ucast_eq take_bit_nat_eq_self_iff less_trans [OF unat_bound_32])

lemma le_ucast_64: "(n :: u64) \<le> ucast (w :: u32) \<longleftrightarrow> unat n \<le> unat w"
  by (simp add: word_le_nat_alt unat_ucast_64)

lemma unat_sub_32: "(b :: u32) \<le> a \<Longrightarrow> unat (a - b) = unat a - unat b"
  by (rule unat_sub)

lemma unat_add_32: "unat (a :: u32) + unat b < 2 ^ 32 \<Longrightarrow> unat (a + b) = unat a + unat b"
  by (simp add: unat_word_ariths)

lemma unat_add_64: "unat (a :: u64) + unat b < 2 ^ 64 \<Longrightarrow> unat (a + b) = unat a + unat b"
  by (simp add: unat_word_ariths)

lemma unat_sub_64: "(b :: u64) \<le> a \<Longrightarrow> unat (a - b) = unat a - unat b"
  by (rule unat_sub)

text \<open>The fields of a buffer in order, as numbers.\<close>

lemma pb_wf_nat:
  "pb_wf pb \<longleftrightarrow> unat (pb_data pb) \<le> unat (pb_tail pb) \<and> unat (pb_tail pb) \<le> unat (pb_end pb) \<and> unat (pb_end pb) \<le> 4096
     \<and> unat (pb_len pb) = unat (pb_tail pb) - unat (pb_data pb) \<and> length (pb_bytes pb) = 4100"
  by (simp add: pb_wf_def word_le_nat_alt PBUF_MAX_SIZE_def PBUF_PAD_def)

lemma pb_wfD:
  assumes "pb_wf pb"
  shows "unat (pb_data pb) \<le> unat (pb_tail pb)" "unat (pb_tail pb) \<le> unat (pb_end pb)" "unat (pb_end pb) \<le> 4096"
    "unat (pb_len pb) = unat (pb_tail pb) - unat (pb_data pb)" "length (pb_bytes pb) = 4100"
  using assms by (simp_all add: pb_wf_nat)

lemma contents_length: "pb_wf pb \<Longrightarrow> length (contents pb) = unat (pb_len pb)"
  by (auto simp: contents_def pb_wf_nat)

lemma tailroom_nat: "pb_wf pb \<Longrightarrow> unat (pbuf_tailroom pb) = unat (pb_end pb) - unat (pb_tail pb)"
  by (simp add: pbuf_tailroom_def unat_sub_32 pb_wf_def)

lemma pbuf_put_ok:
  assumes wf: "pb_wf pb" and n: "unat n \<le> unat (pbuf_tailroom pb)"
  shows "\<exists>pb'. pbuf_put pb n = Inr (pb_tail pb, pb') \<and> pb_wf pb'
     \<and> contents pb' = contents pb @ take (unat n) (drop (unat (pb_tail pb)) (pb_bytes pb))
     \<and> pbuf_trim pb' (pb_len pb) = pb"
proof -
  note w = pb_wfD [OF wf] and tr = n [unfolded tailroom_nat [OF wf]]
  define pb' where "pb' = pb\<lparr>pb_tail := pb_tail pb + ucast n, pb_len := pb_len pb + n\<rparr>"
  have u: "unat (ucast n :: u32) = unat n" using tr w by (intro unat_ucast_32) simp
  have t: "unat (pb_tail pb') = unat (pb_tail pb) + unat n"
    using tr w u by (simp add: pb'_def unat_add_32)
  have l: "unat (pb_len pb') = unat (pb_len pb) + unat n"
    using tr w by (simp add: pb'_def unat_add_64)
  have "pbuf_put pb n = Inr (pb_tail pb, pb')"
    using n by (simp add: pbuf_put_def pbuf_tailroom_def le_ucast_64 pb'_def)
  moreover have "pb_wf pb'"
    unfolding pb_wf_nat t l using tr w by (simp add: pb'_def)
  moreover have "contents pb' = contents pb @ take (unat n) (drop (unat (pb_tail pb)) (pb_bytes pb))"
  proof -
    have "drop (unat (pb_len pb)) (drop (unat (pb_data pb)) (pb_bytes pb)) = drop (unat (pb_tail pb)) (pb_bytes pb)"
      using w by simp
    then show ?thesis
      using take_add [of "unat (pb_len pb)" "unat n" "drop (unat (pb_data pb)) (pb_bytes pb)"]
      unfolding contents_def l by (simp only:) (simp add: pb'_def)
  qed
  moreover have "pb_tail pb = ucast (ucast (pb_data pb) + pb_len pb)"
    using w unat_add_64 [of "ucast (pb_data pb)" "pb_len pb"]
    by (simp add: word_unat_eq_iff unat_ucast_32 unat_ucast_64)
  then have "pbuf_trim pb' (pb_len pb) = pb"
    by (simp add: pbuf_trim_def pb'_def)
  ultimately show ?thesis by blast
qed

lemma pbuf_pull_ok:
  assumes wf: "pb_wf pb" and n: "unat n \<le> unat (pb_len pb)"
  defines "pb' \<equiv> pb\<lparr>pb_data := pb_data pb + ucast n, pb_len := pb_len pb - n\<rparr>"
  shows "pbuf_pull pb n = Inr (pb_data pb', pb')" "pb_wf pb'" "contents pb' = drop (unat n) (contents pb)"
proof -
  note w = pb_wfD [OF wf]
  have u: "unat (ucast n :: u32) = unat n" using n w by (intro unat_ucast_32) simp
  have d: "unat (pb_data pb') = unat (pb_data pb) + unat n"
    using n w u by (simp add: pb'_def unat_add_32)
  have l: "unat (pb_len pb') = unat (pb_len pb) - unat n"
    using n by (simp add: pb'_def unat_sub_64 word_le_nat_alt)
  have "unat (pb_end pb - pb_data pb) = unat (pb_end pb) - unat (pb_data pb)"
    using w by (intro unat_sub_32) (simp add: word_le_nat_alt)
  then have "unat n \<le> unat (pb_end pb - pb_data pb)"
    using n w by simp
  then show "pbuf_pull pb n = Inr (pb_data pb', pb')"
    by (simp add: pbuf_pull_def pbuf_ptr_def le_ucast_64 pb'_def)
  show "pb_wf pb'"
    unfolding pb_wf_nat d l using n w by (simp add: pb'_def)
  show "contents pb' = drop (unat n) (contents pb)"
    unfolding contents_def d l by (simp add: pb'_def drop_take add.commute)
qed

lemma pbuf_push_ok:
  assumes wf: "pb_wf pb" and n: "unat n \<le> unat (pbuf_headroom pb)"
  shows "\<exists>pb'. pbuf_push pb n = Inr (pb_data pb', pb') \<and> pb_wf pb'
     \<and> contents pb' = take (unat n) (drop (unat (pb_data pb')) (pb_bytes pb)) @ contents pb
     \<and> unat (pb_data pb') = unat (pb_data pb) - unat n \<and> pbuf_pull pb' n = Inr (pb_data pb, pb)"
proof -
  note w = pb_wfD [OF wf] and hr = n [unfolded pbuf_headroom_def]
  define pb' where "pb' = pb\<lparr>pb_data := pb_data pb - ucast n, pb_len := pb_len pb + n\<rparr>"
  have u: "unat (ucast n :: u32) = unat n" using hr w by (intro unat_ucast_32) simp
  have d: "unat (pb_data pb') = unat (pb_data pb) - unat n"
    using hr u by (simp add: pb'_def unat_sub_32 word_le_nat_alt)
  have l: "unat (pb_len pb') = unat (pb_len pb) + unat n"
    using hr w by (simp add: pb'_def unat_add_64)
  have p: "pbuf_push pb n = Inr (pb_data pb', pb')"
    using hr by (simp add: pbuf_push_def pbuf_ptr_def le_ucast_64 pb'_def)
  have wf': "pb_wf pb'"
    unfolding pb_wf_nat d l using hr w by (simp add: pb'_def)
  have c: "contents pb' = take (unat n) (drop (unat (pb_data pb')) (pb_bytes pb)) @ contents pb"
  proof -
    have "drop (unat n) (drop (unat (pb_data pb')) (pb_bytes pb)) = drop (unat (pb_data pb)) (pb_bytes pb)"
      using hr d by simp
    then show ?thesis
      using take_add [of "unat n" "unat (pb_len pb)" "drop (unat (pb_data pb')) (pb_bytes pb)"] l
      by (simp add: contents_def add.commute) (simp add: pb'_def)
  qed
  have "pbuf_pull pb' n = Inr (pb_data pb, pb)"
    using pbuf_pull_ok(1) [OF wf', of n] l by (simp add: pb'_def)
  with p wf' c d show ?thesis by blast
qed

lemma pbuf_trim_ok:
  assumes wf: "pb_wf pb" and n: "unat n \<le> unat (pb_len pb)"
  shows "pb_wf (pbuf_trim pb n)" "contents (pbuf_trim pb n) = take (unat n) (contents pb)"
proof -
  note w = pb_wfD [OF wf]
  have a: "unat (ucast (pb_data pb) + n :: u64) = unat (pb_data pb) + unat n"
    using w n by (simp add: unat_add_64 unat_ucast_64)
  then have t: "unat (pb_tail (pbuf_trim pb n)) = unat (pb_data pb) + unat n"
    using w n by (simp add: pbuf_trim_def unat_ucast_32)
  show "pb_wf (pbuf_trim pb n)"
    unfolding pb_wf_nat t using w n by (simp add: pbuf_trim_def)
  show "contents (pbuf_trim pb n) = take (unat n) (contents pb)"
    using n by (simp add: contents_def pbuf_trim_def min_def)
qed

section \<open>Properties of buffers\<close>

text \<open>
  On a buffer in order, \<open>pbuf_put\<close> extends the data by the next bytes at the end if they fit into the
  tailroom, and fails its assertion otherwise; \<open>pbuf_push\<close> does the same at the front with the
  headroom. Both keep the buffer in order, \<open>pbuf_trim\<close> to the old length undoes \<open>pbuf_put\<close> and
  \<open>pbuf_pull\<close> undoes \<open>pbuf_push\<close>. \<open>pbuf_reserve\<close> on a buffer without data moves its start.
\<close>

theorem pbuf_put_push_correct:
  assumes "pb_wf pb"
  shows "(if unat n \<le> unat (pbuf_tailroom pb)
      then \<exists>pb'. pbuf_put pb n = Inr (pb_tail pb, pb') \<and> pb_wf pb'
         \<and> contents pb' = contents pb @ take (unat n) (drop (unat (pb_tail pb)) (pb_bytes pb))
         \<and> pbuf_trim pb' (pb_len pb) = pb
      else pbuf_put pb n = Inl Assert_failed)
   \<and> (if unat n \<le> unat (pbuf_headroom pb)
      then \<exists>pb'. pbuf_push pb n = Inr (pb_data pb', pb') \<and> pb_wf pb'
         \<and> contents pb' = take (unat n) (drop (unat (pb_data pb')) (pb_bytes pb)) @ contents pb
         \<and> pbuf_pull pb' n = Inr (pb_data pb, pb)
      else pbuf_push pb n = Inl Assert_failed)
   \<and> (pb_len pb = 0 \<longrightarrow>
      (if unat n \<le> unat (pbuf_tailroom pb)
       then \<exists>pb'. pbuf_reserve pb n = Inr (pb_data pb', pb') \<and> pb_wf pb' \<and> contents pb' = []
          \<and> unat (pbuf_headroom pb') = unat (pbuf_headroom pb) + unat n
       else pbuf_reserve pb n = Inl Assert_failed))"
proof (intro conjI impI)
  note w = pb_wfD [OF assms]
  show "if unat n \<le> unat (pbuf_tailroom pb)
      then \<exists>pb'. pbuf_put pb n = Inr (pb_tail pb, pb') \<and> pb_wf pb'
         \<and> contents pb' = contents pb @ take (unat n) (drop (unat (pb_tail pb)) (pb_bytes pb))
         \<and> pbuf_trim pb' (pb_len pb) = pb
      else pbuf_put pb n = Inl Assert_failed"
    using pbuf_put_ok [OF assms] by (auto simp: pbuf_put_def pbuf_tailroom_def le_ucast_64)
  show "if unat n \<le> unat (pbuf_headroom pb)
      then \<exists>pb'. pbuf_push pb n = Inr (pb_data pb', pb') \<and> pb_wf pb'
         \<and> contents pb' = take (unat n) (drop (unat (pb_data pb')) (pb_bytes pb)) @ contents pb
         \<and> pbuf_pull pb' n = Inr (pb_data pb, pb)
      else pbuf_push pb n = Inl Assert_failed"
    using pbuf_push_ok [OF assms, of n] by (auto simp: pbuf_push_def pbuf_headroom_def le_ucast_64)
  assume e: "pb_len pb = 0"
  then have dt: "pb_data pb = pb_tail pb" using w by (simp add: word_unat_eq_iff)
  show "if unat n \<le> unat (pbuf_tailroom pb)
       then \<exists>pb'. pbuf_reserve pb n = Inr (pb_data pb', pb') \<and> pb_wf pb' \<and> contents pb' = []
          \<and> unat (pbuf_headroom pb') = unat (pbuf_headroom pb) + unat n
       else pbuf_reserve pb n = Inl Assert_failed"
  proof (cases "unat n \<le> unat (pbuf_tailroom pb)")
    case True
    note tr = True [unfolded tailroom_nat [OF assms]]
    have u: "unat (ucast n :: u32) = unat n" using tr w by (intro unat_ucast_32) simp
    have t: "unat (pb_tail pb + ucast n) = unat (pb_tail pb) + unat n"
      using tr w u by (simp add: unat_add_32)
    let ?pb = "pb\<lparr>pb_data := pb_data pb + ucast n, pb_tail := pb_tail pb + ucast n\<rparr>"
    have "pbuf_reserve pb n = Inr (pb_data ?pb, ?pb)"
      using True by (simp add: pbuf_reserve_def pbuf_ptr_def pbuf_tailroom_def le_ucast_64 dt)
    moreover have "pb_wf ?pb" using w tr e dt t by (simp add: pb_wf_nat)
    ultimately show ?thesis
      using True e t dt by (auto simp: contents_def pbuf_headroom_def)
  qed (simp add: pbuf_reserve_def pbuf_tailroom_def le_ucast_64 dt)
qed

text \<open>
  \<open>pbuf_pull\<close> of at most the data that is there drops that many bytes from the front, and \<open>pbuf_trim\<close> to at
  most the length keeps that many; both keep the buffer in order.
\<close>

theorem pbuf_pull_trim_correct:
  assumes "pb_wf pb" "unat n \<le> unat (pb_len pb)"
  shows "(\<exists>pb'. pbuf_pull pb n = Inr (pb_data pb', pb') \<and> pb_wf pb' \<and> contents pb' = drop (unat n) (contents pb))
     \<and> pb_wf (pbuf_trim pb n) \<and> contents (pbuf_trim pb n) = take (unat n) (contents pb)"
  using pbuf_pull_ok [OF assms] pbuf_trim_ok [OF assms] by blast

text \<open>
  C24: The assertion of \<open>pbuf_pull\<close> compares with the space up to the end of the buffer, not with its data. A
  pull of more than the data but no more than that space passes it, the length wraps around to a
  value of at least \<open>2\<^sup>6\<^sup>4 - 4096\<close> and the data starts behind its end. In the same way \<open>pbuf_reserve\<close> on
  a buffer with data can move its tail beyond the end of the buffer.
\<close>

theorem pbuf_pull_reserve_overrun:
  assumes "pb_wf pb" "unat n \<le> unat (pb_end pb) - unat (pb_data pb)"
  shows "(unat (pb_len pb) < unat n \<longrightarrow>
        (\<exists>pb'. pbuf_pull pb n = Inr (pb_data pb', pb') \<and> 2 ^ 64 - 4096 \<le> unat (pb_len pb')
           \<and> pb_tail pb' < pb_data pb' \<and> \<not> pb_wf pb'))
     \<and> (unat (pbuf_tailroom pb) < unat n \<longrightarrow>
        (\<exists>pb'. pbuf_reserve pb n = Inr (pb_data pb', pb') \<and> pb_end pb' < pb_tail pb' \<and> \<not> pb_wf pb'))"
proof -
  note w = pb_wfD [OF assms(1)]
  have u: "unat (ucast n :: u32) = unat n" using assms(2) w by (intro unat_ucast_32) simp
  have e: "unat (pb_end pb - pb_data pb) = unat (pb_end pb) - unat (pb_data pb)"
    using w by (intro unat_sub_32) (simp add: word_le_nat_alt)
  have d: "unat (pb_data pb + ucast n) = unat (pb_data pb) + unat n" "unat (pb_tail pb + ucast n) = unat (pb_tail pb) + unat n"
    using assms(2) w u by (simp_all add: unat_add_32)
  have "\<exists>pb'. pbuf_pull pb n = Inr (pb_data pb', pb') \<and> 2 ^ 64 - 4096 \<le> unat (pb_len pb')
           \<and> pb_tail pb' < pb_data pb' \<and> \<not> pb_wf pb'" if lt: "unat (pb_len pb) < unat n"
  proof -
    let ?pb = "pb\<lparr>pb_data := pb_data pb + ucast n, pb_len := pb_len pb - n\<rparr>"
    have "unat (pb_len pb - n) = 2 ^ 64 + unat (pb_len pb) - unat n"
      using lt unat_sub_if_size [of "pb_len pb" n] by (simp add: word_size)
    then have "2 ^ 64 - 4096 \<le> unat (pb_len ?pb)"
      using assms(2) w by simp
    moreover have "pb_tail ?pb < pb_data ?pb"
      using lt w d by (simp add: word_less_nat_alt)
    moreover have "pbuf_pull pb n = Inr (pb_data ?pb, ?pb)"
      using assms(2) e by (simp add: pbuf_pull_def pbuf_ptr_def le_ucast_64)
    ultimately show ?thesis by (metis pb_wf_def leD)
  qed
  moreover have "\<exists>pb'. pbuf_reserve pb n = Inr (pb_data pb', pb') \<and> pb_end pb' < pb_tail pb' \<and> \<not> pb_wf pb'"
    if lt: "unat (pbuf_tailroom pb) < unat n"
  proof -
    let ?pb = "pb\<lparr>pb_data := pb_data pb + ucast n, pb_tail := pb_tail pb + ucast n\<rparr>"
    have "pb_end ?pb < pb_tail ?pb"
      using lt d tailroom_nat [OF assms(1)] by (simp add: word_less_nat_alt)
    moreover have "pbuf_reserve pb n = Inr (pb_data ?pb, ?pb)"
      using assms(2) e by (simp add: pbuf_reserve_def pbuf_ptr_def le_ucast_64)
    ultimately show ?thesis by (metis pb_wf_def leD)
  qed
  ultimately show ?thesis by blast
qed

section \<open>The pool\<close>

lemma buf_of_eq [simp]: "buf_of a = buf_of b \<longleftrightarrow> a = b" "entry_of (buf_of a) = a" "buf_of a \<noteq> NULL"
  by (simp_all add: buf_of_def entry_of_def)

lemma entry_addrs_distinct: "distinct (entry_addrs base n)"
  by (auto simp: entry_addrs_def distinct_map inj_on_def ENTRY_SIZE_def)

lemma entry_addrs_nonnull: "base \<noteq> NULL \<Longrightarrow> e \<in> set (entry_addrs base n) \<Longrightarrow> 0 < e"
  by (auto simp: entry_addrs_def)

lemma pool_wf_nodes:
  assumes "pool_wf P fs us"
  shows "dlist (pl_nodes P) free_list fs" "dlist (pl_nodes P) use_list us"
    "all_nodes [free_list, use_list] [fs, us] = {free_list, use_list} \<union> set fs \<union> set us"
  using assms dlistsD(2) [of "pl_nodes P" "[free_list, use_list]" "[fs, us]" 0]
    dlistsD(2) [of "pl_nodes P" "[free_list, use_list]" "[fs, us]" 1]
  by (auto simp: pool_wf_def all_nodes_def)

text \<open>Linking the new entries one after the other to the end of the free list.\<close>

lemma pool_link:
  assumes "dlists m [free_list, use_list] [fs, us]" "distinct es"
    and "set es \<inter> all_nodes [free_list, use_list] [fs, us] = {}" "\<forall>e \<in> set es. load m e \<noteq> None"
  shows "\<exists>m'. for_each (\<lambda>e m. list_add_back m free_list e) es m = Some m'
     \<and> dlists m' [free_list, use_list] [fs @ es, us]"
  using assms
proof (induction es arbitrary: m fs)
  case Nil
  then show ?case by simp
next
  case (Cons e es)
  have e: "e \<notin> all_nodes [free_list, use_list] [fs, us]" "load m e \<noteq> None"
    using Cons.prems by auto
  obtain m1 where m1: "list_add_back m free_list e = Some m1" "dlists m1 [free_list, use_list] [fs @ [e], us]"
      "\<forall>q. load m1 q = None \<longleftrightarrow> load m q = None"
    using ll.add_back_law [OF Cons.prems(1) _ e, of 0] by auto
  have "set es \<inter> all_nodes [free_list, use_list] [fs @ [e], us] = {}"
    using Cons.prems(2,3) by (auto simp: all_nodes_def)
  then obtain m' where "for_each (\<lambda>e m. list_add_back m free_list e) es m1 = Some m'"
      "dlists m' [free_list, use_list] [(fs @ [e]) @ es, us]"
    using Cons.IH [OF m1(2)] Cons.prems(2,4) m1(3) by auto
  then show ?case using m1(1) by simp
qed

lemma calloc_dlists:
  assumes "dlists (pl_nodes P) hs cs" "set (entry_addrs base n) \<inter> all_nodes hs cs = {}"
  shows "dlists (pl_nodes (calloc_entries base n P)) hs cs"
proof -
  have "load (pl_nodes (calloc_entries base n P)) q = load (pl_nodes P) q" if "q \<in> all_nodes hs cs" for q
    using that assms(2) by (auto simp: calloc_entries_def load_def)
  then have "dlist (pl_nodes (calloc_entries base n P)) (hs ! i) (cs ! i) = dlist (pl_nodes P) (hs ! i) (cs ! i)"
    if "i < length hs" for i
    using that all_nodes_nth [OF dlistsD(1) [OF assms(1)]] by (intro dlist_frame) auto
  then show ?thesis
    using assms(1) by (simp add: dlists_def)
qed

text \<open>The buffer that \<open>pbuf_alloc\<close> hands out, and what moving an entry between the lists does.\<close>

lemma pbuf_init_fresh:
  assumes "unat sz \<le> PBUF_MAX_SIZE" "length (pb_bytes pb) = PBUF_PAD + PBUF_MAX_SIZE"
  shows "pb_wf ((pbuf_init pb sz)\<lparr>pb_alloc_len := sz\<rparr>)" "contents ((pbuf_init pb sz)\<lparr>pb_alloc_len := sz\<rparr>) = []"
    "unat (pbuf_tailroom ((pbuf_init pb sz)\<lparr>pb_alloc_len := sz\<rparr>)) = unat sz"
    "counts (pb_refcount (pbuf_init pb sz)) 1"
proof -
  have "unat (ucast sz :: u32) = unat sz"
    using assms(1) by (intro unat_ucast_32) (simp add: PBUF_MAX_SIZE_def)
  then show "pb_wf ((pbuf_init pb sz)\<lparr>pb_alloc_len := sz\<rparr>)" "contents ((pbuf_init pb sz)\<lparr>pb_alloc_len := sz\<rparr>) = []"
    "unat (pbuf_tailroom ((pbuf_init pb sz)\<lparr>pb_alloc_len := sz\<rparr>)) = unat sz"
    "counts (pb_refcount (pbuf_init pb sz)) 1"
    using assms by (simp_all add: pbuf_init_def pbuf_zero_def pb_wf_nat contents_def pbuf_tailroom_def PBUF_MAX_SIZE_def
        PBUF_PAD_def Let_def counts_def atomic_set_def)
qed

lemma pool_move:
  assumes "pool_wf P fs us"
  shows "fs = e # fs' \<Longrightarrow> \<exists>m. list_move (pl_nodes P) e use_list = Some m \<and> dlists m [free_list, use_list] [fs', e # us]"
    "us = as @ e # bs \<Longrightarrow> \<exists>m. list_move (pl_nodes P) e free_list = Some m \<and> dlists m [free_list, use_list] [e # fs, as @ bs]"
  using list_move_law [of "pl_nodes P" "[free_list, use_list]" "[fs, us]" 0 1 "[]" e fs']
    list_move_law [of "pl_nodes P" "[free_list, use_list]" "[fs, us]" 1 0 as e bs] assms
  by (auto simp: pool_wf_def)

lemma pool_wf_upd:
  assumes "pool_wf P fs us" "dlists m [free_list, use_list] [fs', us']" "set fs' \<union> set us' = set fs \<union> set us"
    and "length (pb_bytes pb) = PBUF_PAD + PBUF_MAX_SIZE"
  shows "pool_wf (P\<lparr>pl_nodes := m, pl_bufs := (pl_bufs P)(buf_of e \<mapsto> pb)\<rparr>) fs' us'"
  using assms by (auto simp: pool_wf_def mem_simps)

lemma pool_lock_unlock:
  "\<not> pl_locked P \<Longrightarrow> pool_lock P = Inr (P\<lparr>pl_locked := True\<rparr>)"
  "\<not> pl_locked P \<Longrightarrow> pool_unlock (P\<lparr>pl_locked := True\<rparr>) = P"
  "\<not> pl_locked P \<Longrightarrow> pool_unlock (P\<lparr>pl_locked := True, pl_nodes := m\<rparr>) = P\<lparr>pl_nodes := m\<rparr>"
  "\<not> pl_locked P \<Longrightarrow> pool_unlock (P\<lparr>pl_locked := True, pl_nodes := m, pl_bufs := b\<rparr>) = P\<lparr>pl_nodes := m, pl_bufs := b\<rparr>"
  by (auto simp: pool_lock_def pool_unlock_def intro!: pool.equality)

lemma pbuf_alloc_front:
  assumes wf: "pool_wf P (e # fs) us" and sz: "unat sz \<le> PBUF_MAX_SIZE"
  shows "\<exists>P' pb. pbuf_alloc sz P = Inr (buf_of e, P') \<and> pool_wf P' fs (e # us) \<and> load (pl_bufs P') (buf_of e) = Some pb
     \<and> pb_wf pb \<and> contents pb = [] \<and> unat (pbuf_tailroom pb) = unat sz \<and> counts (pb_refcount pb) 1
     \<and> (\<forall>p. p \<noteq> buf_of e \<longrightarrow> load (pl_bufs P') p = load (pl_bufs P) p)"
proof -
  obtain m where m: "list_move (pl_nodes P) e use_list = Some m" "dlists m [free_list, use_list] [fs, e # us]"
    using pool_move(1) [OF wf] by blast
  obtain pb where pb: "load (pl_bufs P) (buf_of e) = Some pb" "length (pb_bytes pb) = PBUF_PAD + PBUF_MAX_SIZE"
    using wf by (auto simp: pool_wf_def)
  define pb' where "pb' = (pbuf_init pb sz)\<lparr>pb_alloc_len := sz\<rparr>"
  note fr = pbuf_init_fresh [OF sz pb(2), folded pb'_def]
  have bl: "length (pb_bytes pb') = PBUF_PAD + PBUF_MAX_SIZE" using fr(1) by (simp add: pb_wf_def)
  let ?P = "P\<lparr>pl_nodes := m, pl_bufs := (pl_bufs P)(buf_of e \<mapsto> pb')\<rparr>"
  have "pool_wf ?P fs (e # us)"
    using bl by (intro pool_wf_upd [OF wf m(2)]) auto
  moreover have "pbuf_alloc sz P = Inr (buf_of e, ?P)"
    using wf sz m(1) pb(1) pool_wf_nodes(1) [OF wf]
    by (simp add: pbuf_alloc_def pool_wf_def pool_lock_unlock list_empty_dlist list_front_dlist mem_simps flip: pb'_def)
  moreover have "counts (pb_refcount pb') 1" using fr(4) by (simp add: pb'_def)
  ultimately show ?thesis using fr(1-3) by (intro exI [of _ ?P] exI [of _ pb']) (simp add: mem_simps)
qed

section \<open>Properties of the pool\<close>

text \<open>
  \<open>pbuf_pool_init\<close> reports \<open>-1\<close> if there is no memory; otherwise it adds all its entries, at least
  \<open>MIN_POOL_SIZE\<close> many, to the end of the free list in the order of their addresses, and no entry that was
  in the pool changes its list.
\<close>

theorem pbuf_pool_init_correct:
  assumes "pool_wf P fs us"
    and "set (entry_addrs base (max 20 (unat n))) \<inter> ({free_list, use_list} \<union> set fs \<union> set us) = {}"
  shows "if base = NULL then pbuf_pool_init base n P = Some (-1, P\<lparr>pl_objects := NULL\<rparr>)
     else \<exists>P'. pbuf_pool_init base n P = Some (0, P') \<and> pool_wf P' (fs @ entry_addrs base (max 20 (unat n))) us
        \<and> pl_objects P' = base"
proof (cases "base = NULL")
  case True
  then show ?thesis by (simp add: pbuf_pool_init_def)
next
  case False
  have sz: "unat (if n < MIN_POOL_SIZE then MIN_POOL_SIZE else n) = max 20 (unat n)"
    by (simp add: MIN_POOL_SIZE_def word_less_nat_alt)
  define es where "es = entry_addrs base (max 20 (unat n))"
  define P1 where "P1 = (calloc_entries base (max 20 (unat n)) P)\<lparr>pl_objects := base\<rparr>"
  have dis: "set es \<inter> all_nodes [free_list, use_list] [fs, us] = {}"
    using assms(2) pool_wf_nodes(3) [OF assms(1)] by (simp add: es_def)
  then have "dlists (pl_nodes P1) [free_list, use_list] [fs, us]"
    using assms(1) calloc_dlists [of P "[free_list, use_list]" "[fs, us]"] by (simp add: P1_def es_def pool_wf_def)
  moreover have "\<forall>e \<in> set es. load (pl_nodes P1) e \<noteq> None"
    using entry_addrs_nonnull [OF False] by (auto simp: P1_def es_def calloc_entries_def load_def)
  ultimately obtain m' where m': "for_each (\<lambda>e m. list_add_back m free_list e) es (pl_nodes P1) = Some m'"
      "dlists m' [free_list, use_list] [fs @ es, us]"
    using pool_link dis entry_addrs_distinct unfolding es_def by blast
  have "\<exists>pb. load (pl_bufs P1) (buf_of e) = Some pb \<and> length (pb_bytes pb) = PBUF_PAD + PBUF_MAX_SIZE"
    if "e \<in> set (fs @ es) \<union> set us" for e
  proof (cases "e \<in> set es")
    case True
    then show ?thesis
      by (auto simp: P1_def es_def calloc_entries_def load_def zero_entry_buf_def pbuf_zero_def)
  next
    case False
    then show ?thesis
      using that assms(1) by (auto simp: P1_def es_def calloc_entries_def load_def pool_wf_def image_iff)
  qed
  moreover have "\<not> pl_locked P1"
    using assms(1) by (simp add: P1_def calloc_entries_def pool_wf_def)
  ultimately have "pool_wf (P1\<lparr>pl_nodes := m'\<rparr>) (fs @ es) us"
    using m'(2) by (simp add: pool_wf_def)
  moreover have "pbuf_pool_init base n P = Some (0, P1\<lparr>pl_nodes := m'\<rparr>)"
    using m'(1) False unfolding pbuf_pool_init_def Let_def sz by (simp add: P1_def es_def)
  ultimately show ?thesis
    using False by (simp add: es_def P1_def)
qed

text \<open>
  C25: \<open>pbuf_alloc\<close> fails its assertion for more than \<open>PBUF_MAX_SIZE\<close> bytes and returns the null pointer, with
  nothing changed, when no entry is free. Otherwise it moves the first free entry to the use list and
  returns its buffer: in order, empty, with exactly the requested room and one reference. No other
  buffer changes and the mutex is unlocked.
\<close>

theorem pbuf_alloc_correct:
  assumes "pool_wf P fs us"
  shows "(PBUF_MAX_SIZE < unat sz \<longrightarrow> pbuf_alloc sz P = Inl Assert_failed)
     \<and> (unat sz \<le> PBUF_MAX_SIZE \<and> fs = [] \<longrightarrow> pbuf_alloc sz P = Inr (NULL, P))
     \<and> (unat sz \<le> PBUF_MAX_SIZE \<and> fs = e # fs' \<longrightarrow>
         (\<exists>P' pb. pbuf_alloc sz P = Inr (buf_of e, P') \<and> pool_wf P' fs' (e # us) \<and> load (pl_bufs P') (buf_of e) = Some pb
            \<and> pb_wf pb \<and> contents pb = [] \<and> unat (pbuf_tailroom pb) = unat sz \<and> atomic_read (pb_refcount pb) = 1
            \<and> (\<forall>p. p \<noteq> buf_of e \<longrightarrow> load (pl_bufs P') p = load (pl_bufs P) p)))"
proof (intro conjI impI)
  show "pbuf_alloc sz P = Inl Assert_failed" if "PBUF_MAX_SIZE < unat sz"
    using that by (simp add: pbuf_alloc_def)
  show "pbuf_alloc sz P = Inr (NULL, P)" if "unat sz \<le> PBUF_MAX_SIZE \<and> fs = []"
    using that assms pool_wf_nodes(1) [OF assms]
    by (simp add: pbuf_alloc_def pool_wf_def pool_lock_unlock list_empty_dlist)
  show "\<exists>P' pb. pbuf_alloc sz P = Inr (buf_of e, P') \<and> pool_wf P' fs' (e # us) \<and> load (pl_bufs P') (buf_of e) = Some pb
            \<and> pb_wf pb \<and> contents pb = [] \<and> unat (pbuf_tailroom pb) = unat sz \<and> atomic_read (pb_refcount pb) = 1
            \<and> (\<forall>p. p \<noteq> buf_of e \<longrightarrow> load (pl_bufs P') p = load (pl_bufs P) p)"
    if "unat sz \<le> PBUF_MAX_SIZE \<and> fs = e # fs'"
    using that pbuf_alloc_front [of P e fs' us sz] assms by (auto dest: counts_read)
qed

text \<open>
  C26: \<open>pbuf_free\<close> of a buffer in use drops one of its \<open>n\<close> references. Unless it was the last one nothing else
  changes; with the last one the entry goes to the front of the free list, and only this entry moves.
\<close>

theorem pbuf_free_correct:
  assumes "pool_wf P fs (as @ e # bs)" "load (pl_bufs P) (buf_of e) = Some pb" "unat (at_value (pb_refcount pb)) = n"
    and "0 < n" "n < 2 ^ 31"
  shows "\<exists>P' pb'. pbuf_free (buf_of e) P = Inr P' \<and> load (pl_bufs P') (buf_of e) = Some pb'
     \<and> atomic_read (pb_refcount pb') = int n - 1 \<and> contents pb' = contents pb
     \<and> (\<forall>p. p \<noteq> buf_of e \<longrightarrow> load (pl_bufs P') p = load (pl_bufs P) p)
     \<and> (if n = 1 then pool_wf P' (e # fs) (as @ bs) else pool_wf P' fs (as @ e # bs))"
proof -
  have c: "counts (pb_refcount pb) n" using assms(3,5) by (simp add: counts_def)
  obtain l rc where d: "atomic_dec_and_test (pb_refcount pb) = (l, rc)" by fastforce
  then have r: "counts rc (n - 1)" "l \<longleftrightarrow> n = 1"
    using rc.release_holds [OF c assms(4)] rc.release_last [OF c assms(4)] by auto
  let ?pb = "pb\<lparr>pb_refcount := rc\<rparr>"
  have bl: "length (pb_bytes ?pb) = PBUF_PAD + PBUF_MAX_SIZE"
    using assms(1,2) by (auto simp: pool_wf_def)
  have nl: "\<not> pl_locked P" and dl: "dlists (pl_nodes P) [free_list, use_list] [fs, as @ e # bs]"
    using assms(1) by (auto simp: pool_wf_def)
  let ?bufs = "(pl_bufs P)(buf_of e \<mapsto> ?pb)"
  have rd: "atomic_read rc = int n - 1" using counts_read [OF r(1)] assms(4) by simp
  show ?thesis
  proof (cases "n = 1")
    case True
    obtain m where m: "list_move (pl_nodes P) e free_list = Some m" "dlists m [free_list, use_list] [e # fs, as @ bs]"
      using pool_move(2) [OF assms(1)] by blast
    let ?P = "P\<lparr>pl_nodes := m, pl_bufs := ?bufs\<rparr>"
    have "pool_wf ?P (e # fs) (as @ bs)"
      by (rule pool_wf_upd [OF assms(1) m(2) _ bl]) auto
    moreover have "pool_unlock (P\<lparr>pl_bufs := ?bufs, pl_locked := True, pl_nodes := m\<rparr>) = ?P"
      using nl by (auto simp: pool_unlock_def intro!: pool.equality)
    then have "pbuf_free (buf_of e) P = Inr ?P"
      using True r(2) d m(1) assms(2) nl by (simp add: pbuf_free_def mem_simps pool_lock_def)
    ultimately show ?thesis
      using True rd by (intro exI [of _ ?P] exI [of _ ?pb]) (simp add: mem_simps contents_def)
  next
    case False
    let ?P = "P\<lparr>pl_nodes := pl_nodes P, pl_bufs := ?bufs\<rparr>"
    have "pool_wf ?P fs (as @ e # bs)"
      by (rule pool_wf_upd [OF assms(1) dl _ bl]) auto
    moreover have "pbuf_free (buf_of e) P = Inr ?P"
      using False r(2) d assms(2) by (simp add: pbuf_free_def mem_simps)
    ultimately show ?thesis
      using False rd by (intro exI [of _ ?P] exI [of _ ?pb]) (simp add: mem_simps contents_def)
  qed
qed

text \<open>
  \<open>pbuf_copy\<close> of a buffer in order gives a buffer of its own with the same data and a single reference, in the
  first free entry, and leaves the original and all others alone; without a free entry it returns the
  null pointer and changes nothing.
\<close>

theorem pbuf_copy_correct:
  assumes "pool_wf P fs us" "e \<in> set us" "load (pl_bufs P) (buf_of e) = Some pb" "pb_wf pb"
  shows "(fs = [] \<longrightarrow> pbuf_copy (buf_of e) P = Inr (NULL, P))
     \<and> (fs = f # fs' \<longrightarrow> (\<exists>P' c. pbuf_copy (buf_of e) P = Inr (buf_of f, P') \<and> pool_wf P' fs' (f # us)
          \<and> load (pl_bufs P') (buf_of f) = Some c \<and> pb_wf c \<and> contents c = contents pb
          \<and> atomic_read (pb_refcount c) = 1 \<and> (\<forall>p. p \<noteq> buf_of f \<longrightarrow> load (pl_bufs P') p = load (pl_bufs P) p)))"
proof (intro conjI impI)
  note w = pb_wfD [OF assms(4)]
  have sz: "unat (pb_len pb) \<le> PBUF_MAX_SIZE" using w by (simp add: PBUF_MAX_SIZE_def)
  show "pbuf_copy (buf_of e) P = Inr (NULL, P)" if "fs = []"
    using that assms(1,3) sz pool_wf_nodes(1) [OF assms(1)]
    by (simp add: pbuf_copy_def pbuf_alloc_def pool_wf_def pool_lock_unlock list_empty_dlist)
  assume fs: "fs = f # fs'"
  then have "f \<noteq> e"
    using assms(1,2) dlistsD(3) [of "pl_nodes P" "[free_list, use_list]" "[fs, us]" 0 1] by (auto simp: pool_wf_def)
  obtain P1 d where a: "pbuf_alloc (pb_len pb) P = Inr (buf_of f, P1)" "pool_wf P1 fs' (f # us)"
      "load (pl_bufs P1) (buf_of f) = Some d" "pb_wf d" "\<forall>p. p \<noteq> buf_of f \<longrightarrow> load (pl_bufs P1) p = load (pl_bufs P) p"
    using pbuf_alloc_front [of P f fs' us "pb_len pb"] assms(1) fs sz by blast
  define n where "n = PBUF_PAD + unat (pb_tail pb)"
  have n: "n \<le> 4100" using w by (simp add: n_def PBUF_PAD_def)
  define c where "c = pb\<lparr>pb_bytes := take n (pb_bytes pb) @ drop n (pb_bytes d), pb_refcount := atomic_set (pb_refcount pb) 1\<rparr>"
  have "length (pb_bytes d) = 4100" using a(4) by (simp add: pb_wf_nat)
  then have cl: "length (pb_bytes c) = 4100" using w(5) n by (simp add: c_def)
  have "pbuf_memcpy d pb = Some (pb\<lparr>pb_bytes := take n (pb_bytes pb) @ drop n (pb_bytes d)\<rparr>)"
    using n w(5) a(4) by (simp add: pbuf_memcpy_def n_def pb_wf_nat Let_def)
  moreover have "load (pl_bufs P1) (buf_of e) = Some pb"
    using a(5) assms(3) \<open>f \<noteq> e\<close> by simp
  ultimately have "pbuf_copy (buf_of e) P = Inr (buf_of f, P1\<lparr>pl_bufs := (pl_bufs P1)(buf_of f \<mapsto> c)\<rparr>)"
    using assms(3) a(1,3) by (simp add: pbuf_copy_def c_def mem_simps)
  moreover have "pb_wf c" using w cl by (simp add: pb_wf_nat) (simp add: c_def)
  moreover have "contents c = contents pb"
  proof -
    have "take (unat (pb_len pb)) (drop (unat (pb_data pb)) (take n (pb_bytes pb) @ drop n (pb_bytes d)))
        = take (unat (pb_len pb)) (drop (unat (pb_data pb)) (take n (pb_bytes pb)))"
      using w n by (simp add: n_def)
    also have "\<dots> = take (unat (pb_len pb)) (drop (unat (pb_data pb)) (pb_bytes pb))"
      using w n by (simp add: drop_take n_def min_def)
    finally show ?thesis by (simp add: contents_def c_def)
  qed
  moreover have "pool_wf (P1\<lparr>pl_bufs := (pl_bufs P1)(buf_of f \<mapsto> c)\<rparr>) fs' (f # us)"
    using pool_wf_upd [OF a(2), of "pl_nodes P1" fs' "f # us" c f] a(2) cl
    by (simp add: pool_wf_def PBUF_PAD_def PBUF_MAX_SIZE_def)
  moreover have "atomic_read (pb_refcount c) = 1"
    by (simp add: c_def atomic_set_def atomic_read_def)
  ultimately show "\<exists>P' c. pbuf_copy (buf_of e) P = Inr (buf_of f, P') \<and> pool_wf P' fs' (f # us)
          \<and> load (pl_bufs P') (buf_of f) = Some c \<and> pb_wf c \<and> contents c = contents pb
          \<and> atomic_read (pb_refcount c) = 1 \<and> (\<forall>p. p \<noteq> buf_of f \<longrightarrow> load (pl_bufs P') p = load (pl_bufs P) p)"
    using a(5) by (intro exI [of _ "P1\<lparr>pl_bufs := (pl_bufs P1)(buf_of f \<mapsto> c)\<rparr>"] exI [of _ c]) (simp add: mem_simps)
qed

text \<open>
  \<open>pbuf_pool_cleanup\<close> frees the entries and leaves them in the free list: the next \<open>pbuf_alloc\<close> unlinks a freed entry.
\<close>

theorem pbuf_cleanup_then_alloc_faults:
  assumes "pool_wf P (f # fs) us" "pl_objects P \<noteq> NULL" "f \<in> set (entry_addrs (pl_objects P) n)"
    "free_list \<notin> set (entry_addrs (pl_objects P) n)" "unat sz \<le> PBUF_MAX_SIZE"
  shows "pbuf_alloc sz (pbuf_pool_cleanup n P) = Inl Fault"
proof -
  let ?P = "pbuf_pool_cleanup n P"
  have "dlist (pl_nodes P) free_list (f # fs)" "\<not> pl_locked P"
    using assms(1) dlistsD(2) [of "pl_nodes P" "[free_list, use_list]" "[f # fs, us]" 0] by (auto simp: pool_wf_def)
  moreover from this have "list_empty (pl_nodes P) free_list = Some False" "list_front (pl_nodes P) free_list = Some f"
    by (simp_all add: list_empty_dlist list_front_dlist)
  moreover have "load (pl_nodes ?P) free_list = load (pl_nodes P) free_list" "load (pl_nodes ?P) f = None" "pl_locked ?P = pl_locked P"
    using assms(2-4) by (simp_all add: pbuf_pool_cleanup_def load_def)
  ultimately show ?thesis
    using assms(5)
    by (simp add: pbuf_alloc_def ebind_def assert_that_def pool_lock_def lift_opt_def list_empty_def list_front_def list_move_def list_del_def)
qed

section \<open>Witnesses\<close>

text \<open>A buffer with eight bytes of data, and a pool with one free and one used entry.\<close>

definition example_buf :: "u32 \<Rightarrow> pbuf" where
  "example_buf r = zero_entry_buf\<lparr>pb_refcount := \<lparr>at_value = r\<rparr>, pb_data := 2, pb_tail := 10, pb_end := 100, pb_len := 8\<rparr>"

definition example_pool :: "u32 \<Rightarrow> pool" where
  "example_pool r = \<lparr>pl_locked = False,
     pl_nodes = [1 \<mapsto> \<lparr>lprev = 10, lnext = 10\<rparr>, 10 \<mapsto> \<lparr>lprev = 1, lnext = 1\<rparr>,
                 2 \<mapsto> \<lparr>lprev = 20, lnext = 20\<rparr>, 20 \<mapsto> \<lparr>lprev = 2, lnext = 2\<rparr>],
     pl_bufs = [26 \<mapsto> zero_entry_buf, 36 \<mapsto> example_buf r], pl_objects = 10\<rparr>"

lemma zero_entry_bytes: "length (pb_bytes zero_entry_buf) = 4100"
  by (simp add: zero_entry_buf_def pbuf_zero_def PBUF_PAD_def PBUF_MAX_SIZE_def)

lemma example_buf_wf: "pb_wf (example_buf r)" "pb_len (example_buf r) = 8" "unat (pbuf_tailroom (example_buf r)) = 90"
    "unat (pbuf_headroom (example_buf r)) = 2" "unat (pb_end (example_buf r)) = 100" "unat (pb_data (example_buf r)) = 2"
  by (simp_all add: pb_wf_nat example_buf_def zero_entry_bytes pbuf_tailroom_def pbuf_headroom_def)

lemma example_pool_wf: "pool_wf (example_pool r) [10] [20]"
  by (auto simp: pool_wf_def dlists_def dlist_def nxt_def prv_def load_def example_pool_def less_Suc_eq free_list_def use_list_def
      buf_of_def zero_entry_bytes PBUF_PAD_def PBUF_MAX_SIZE_def example_buf_def)

lemma example_pool_load: "load (pl_bufs (example_pool r)) (buf_of 20) = Some (example_buf r)"
  by (simp add: example_pool_def load_def buf_of_def)

theorem pbuf_put_push_correct_witness:
  "(\<exists>pb'. pbuf_put (example_buf 1) 90 = Inr (10, pb') \<and> pbuf_trim pb' 8 = example_buf 1)
   \<and> pbuf_put (example_buf 1) 91 = Inl Assert_failed \<and> pbuf_push (example_buf 1) 3 = Inl Assert_failed"
proof -
  have t: "pb_tail (example_buf 1) = 10" by (simp add: example_buf_def)
  show ?thesis
    using pbuf_put_push_correct [OF example_buf_wf(1), of 90 1] pbuf_put_push_correct [OF example_buf_wf(1), of 91 1]
      pbuf_put_push_correct [OF example_buf_wf(1), of 3 1]
    by (auto simp: example_buf_wf t)
qed

theorem pbuf_pull_trim_correct_witness:
  "(\<exists>i pb'. pbuf_pull (example_buf 1) 5 = Inr (i, pb') \<and> pb_wf pb' \<and> contents pb' = drop 5 (contents (example_buf 1)))
   \<and> pb_wf (pbuf_trim (example_buf 1) 5)"
  using pbuf_pull_trim_correct [OF example_buf_wf(1), of 5 1] by (auto simp: example_buf_wf)

theorem pbuf_pull_reserve_overrun_witness:
  "(\<exists>i pb'. pbuf_pull (example_buf 1) 50 = Inr (i, pb') \<and> \<not> pb_wf pb')
   \<and> (\<exists>i pb'. pbuf_reserve (example_buf 1) 95 = Inr (i, pb') \<and> pb_end pb' < pb_tail pb')"
  using pbuf_pull_reserve_overrun [OF example_buf_wf(1), of 50 1] pbuf_pull_reserve_overrun [OF example_buf_wf(1), of 95 1]
  by (auto simp: example_buf_wf)

theorem pbuf_pool_init_correct_witness:
  "\<exists>P'. pbuf_pool_init 1000 3 (example_pool 1) = Some (0, P') \<and> pool_wf P' (10 # entry_addrs 1000 20) [20]"
proof -
  have "set (entry_addrs 1000 20) \<inter> ({free_list, use_list} \<union> set [10] \<union> set [20]) = {}"
    by (auto simp: entry_addrs_def free_list_def use_list_def)
  then show ?thesis
    using pbuf_pool_init_correct [OF example_pool_wf, of 1000 3 1] by auto
qed

theorem pbuf_alloc_correct_witness:
  "(\<exists>P' pb. pbuf_alloc 64 (example_pool 1) = Inr (buf_of 10, P') \<and> pool_wf P' [] [10, 20]
      \<and> load (pl_bufs P') (buf_of 10) = Some pb \<and> unat (pbuf_tailroom pb) = 64)
   \<and> pbuf_alloc 5000 (example_pool 1) = Inl Assert_failed"
  using pbuf_alloc_correct [OF example_pool_wf [of 1], of 64 10 "[]"] pbuf_alloc_correct [OF example_pool_wf [of 1], of 5000 10 "[]"]
  by (auto simp: PBUF_MAX_SIZE_def)

theorem pbuf_free_correct_witness:
  "(\<exists>P'. pbuf_free (buf_of 20) (example_pool 1) = Inr P' \<and> pool_wf P' [20, 10] [])
   \<and> (\<exists>P'. pbuf_free (buf_of 20) (example_pool 2) = Inr P' \<and> pool_wf P' [10] [20])"
  using pbuf_free_correct [of "example_pool 1" "[10]" "[]" 20 "[]" "example_buf 1" 1]
    pbuf_free_correct [of "example_pool 2" "[10]" "[]" 20 "[]" "example_buf 2" 2] example_pool_load
  by (auto simp: example_pool_wf example_buf_def)

theorem pbuf_copy_correct_witness:
  "\<exists>P' c. pbuf_copy (buf_of 20) (example_pool 1) = Inr (buf_of 10, P') \<and> pool_wf P' [] [10, 20]
     \<and> load (pl_bufs P') (buf_of 10) = Some c \<and> contents c = contents (example_buf 1)"
  using pbuf_copy_correct [OF example_pool_wf [of 1], of 20 "example_buf 1" 10 "[]"] example_pool_load example_buf_wf(1) by auto

theorem pbuf_cleanup_then_alloc_faults_witness:
  "pbuf_alloc 100 (pbuf_pool_cleanup 1 (example_pool 1)) = Inl Fault"
  by (rule pbuf_cleanup_then_alloc_faults [OF example_pool_wf])
    (simp_all add: example_pool_def entry_addrs_def free_list_def PBUF_MAX_SIZE_def)

end
