(* ===== verification/Ckit_Pbufview.thy ===== *)
theory Ckit_Pbufview
  imports Ckit_Pbuf
begin

text \<open>
  An abstract view of the packet buffers of \<^verbatim>\<open>src/pbuf.c\<close>. A buffer is three lists of bytes: the headroom, the data and the tailroom. The operations move bytes from
  one list to its neighbour and never change, drop or add one. The operations of \<^verbatim>\<open>pbuf.c\<close> on offsets of 32 bits and a length of 64 bits implement this view, in any sequence, as long as
  an operation moves no more bytes than there are.
\<close>

section \<open>The view\<close>

type_synonym pview = "u8 list \<times> u8 list \<times> u8 list"

definition pb_cut :: "u8 list \<Rightarrow> nat \<Rightarrow> nat \<Rightarrow> nat \<Rightarrow> pview" where
  "pb_cut bs d t e = (take d bs, take (t - d) (drop d bs), take (e - t) (drop t bs))"

definition view :: "pbuf \<Rightarrow> pview" where
  "view pb = pb_cut (pb_bytes pb) (unat (pb_data pb)) (unat (pb_tail pb)) (unat (pb_end pb))"

datatype pb_op = PB_reserve u64 | PB_push u64 | PB_pull u64 | PB_put u64 | PB_trim u64

text \<open>What the operations do to a view and the offset they return; \<open>None\<close> if there are not enough bytes to move. Space is reserved before there is data.\<close>

fun pv_exec :: "pb_op \<Rightarrow> pview \<Rightarrow> (nat option \<times> pview) option" where
  "pv_exec (PB_reserve n) (f, d, b) =
     (if d = [] \<and> unat n \<le> length b then Some (Some (length f + unat n), f @ take (unat n) b, [], drop (unat n) b) else None)"
| "pv_exec (PB_push n) (f, d, b) =
     (if unat n \<le> length f
      then Some (Some (length f - unat n), take (length f - unat n) f, drop (length f - unat n) f @ d, b) else None)"
| "pv_exec (PB_pull n) (f, d, b) =
     (if unat n \<le> length d then Some (Some (length f + unat n), f @ take (unat n) d, drop (unat n) d, b) else None)"
| "pv_exec (PB_put n) (f, d, b) =
     (if unat n \<le> length b then Some (Some (length f + length d), f, d @ take (unat n) b, drop (unat n) b) else None)"
| "pv_exec (PB_trim n) (f, d, b) =
     (if unat n \<le> length d then Some (None, f, take (unat n) d, drop (unat n) d @ b) else None)"

text \<open>The same operations on a buffer.\<close>

fun pb_exec :: "pb_op \<Rightarrow> pbuf \<Rightarrow> (u32 option \<times> pbuf) run" where
  "pb_exec (PB_reserve n) pb = ebind (pbuf_reserve pb n) (\<lambda>(r, pb). Inr (Some r, pb))"
| "pb_exec (PB_push n) pb = ebind (pbuf_push pb n) (\<lambda>(r, pb). Inr (Some r, pb))"
| "pb_exec (PB_pull n) pb = ebind (pbuf_pull pb n) (\<lambda>(r, pb). Inr (Some r, pb))"
| "pb_exec (PB_put n) pb = ebind (pbuf_put pb n) (\<lambda>(r, pb). Inr (Some r, pb))"
| "pb_exec (PB_trim n) pb = Inr (None, pbuf_trim pb n)"

text \<open>Sequences of operations, with all returned offsets.\<close>

fun pv_run :: "pb_op list \<Rightarrow> pview \<Rightarrow> (nat option list \<times> pview) option" where
  "pv_run [] v = Some ([], v)"
| "pv_run (op # ops) v = do { (r, v) \<leftarrow> pv_exec op v; (rs, v) \<leftarrow> pv_run ops v; Some (r # rs, v) }"

fun run_with :: "(pb_op \<Rightarrow> 'p \<Rightarrow> (u32 option \<times> 'p) run) \<Rightarrow> pb_op list \<Rightarrow> 'p \<Rightarrow> (u32 option list \<times> 'p) run" where
  "run_with exec [] p = Inr ([], p)"
| "run_with exec (op # ops) p = ebind (exec op p) (\<lambda>(r, p). ebind (run_with exec ops p) (\<lambda>(rs, p). Inr (r # rs, p)))"

definition pb_run :: "pb_op list \<Rightarrow> pbuf \<Rightarrow> (u32 option list \<times> pbuf) run" where
  "pb_run = run_with pb_exec"

section \<open>The contract\<close>

definition all_bytes :: "pview \<Rightarrow> u8 list" where
  "all_bytes = (\<lambda>(f, d, b). f @ d @ b)"

text \<open>The data and what is behind it: the bound that \<open>pbuf_pull\<close> and \<open>pbuf_reserve\<close> check.\<close>

definition from_data :: "pview \<Rightarrow> nat" where
  "from_data = (\<lambda>(f, d, b). length d + length b)"

lemma take_drop_append: "take n xs @ drop n xs @ ys = xs @ ys"
  by (simp flip: append_assoc)

lemma pv_exec_bytes: "pv_exec op v = Some (r, v') \<Longrightarrow> all_bytes v' = all_bytes v"
  by (cases op; cases v) (auto simp: all_bytes_def take_drop_append split: if_splits)

lemma pv_run_bytes: "pv_run ops v = Some (rs, v') \<Longrightarrow> all_bytes v' = all_bytes v"
  by (induction ops arbitrary: v rs) (auto simp: bind_Some_iff dest: pv_exec_bytes)

locale packet_buffer =
  fixes wf :: "'p \<Rightarrow> bool"
    and abs :: "'p \<Rightarrow> pview"
    and exec :: "pb_op \<Rightarrow> 'p \<Rightarrow> (u32 option \<times> 'p) run"
  assumes exec_view: "wf p \<Longrightarrow> pv_exec op (abs p) = Some (r, v) \<Longrightarrow>
      \<exists>r' p'. exec op p = Inr (r', p') \<and> wf p' \<and> abs p' = v \<and> map_option unat r' = r"
begin

lemma run_view:
  "wf p \<Longrightarrow> pv_run ops (abs p) = Some (rs, v) \<Longrightarrow>
     \<exists>rs' p'. run_with exec ops p = Inr (rs', p') \<and> wf p' \<and> abs p' = v \<and> map (map_option unat) rs' = rs"
proof (induction ops arbitrary: p rs)
  case (Cons op ops)
  obtain r w rs0 where r: "pv_exec op (abs p) = Some (r, w)" "pv_run ops w = Some (rs0, v)" "rs = r # rs0"
    using Cons.prems(2) by (auto simp: bind_Some_iff)
  obtain r' p' where p': "exec op p = Inr (r', p')" "wf p'" "abs p' = w" "map_option unat r' = r"
    using exec_view [OF Cons.prems(1) r(1)] by blast
  then obtain rs' q where "run_with exec ops p' = Inr (rs', q)" "wf q" "abs q = v" "map (map_option unat) rs' = rs0"
    using Cons.IH [of p' rs0] r(2) by blast
  then show ?case using p' r(3) by auto
qed simp

end

section \<open>The buffers keep it\<close>

lemma cut_lengths:
  assumes "d \<le> t" "t \<le> e" "e \<le> length bs"
  shows "length (take d bs) = d" "length (take (t - d) (drop d bs)) = t - d" "length (take (e - t) (drop t bs)) = e - t"
  using assms by auto

lemma take_drop_glue: "a \<le> b \<Longrightarrow> take (b - a) (drop a xs) @ take c (drop b xs) = take (b + c - a) (drop a xs)"
  using take_add [of "b - a" c "drop a xs"] by simp

lemma drop_take_cut: "drop n (take m (drop a xs)) = take (m - n) (drop (a + n) xs)"
  by (simp add: drop_take add.commute)

lemma cut_ops:
  assumes "d \<le> t" "t \<le> e" "e \<le> length bs"
  shows "pv_exec (PB_reserve n) (pb_cut bs d t e) = (if t = d \<and> unat n \<le> e - t then Some (Some (d + unat n), pb_cut bs (d + unat n) (t + unat n) e) else None)"
    "pv_exec (PB_push n) (pb_cut bs d t e) = (if unat n \<le> d then Some (Some (d - unat n), pb_cut bs (d - unat n) t e) else None)"
    "pv_exec (PB_pull n) (pb_cut bs d t e) = (if unat n \<le> t - d then Some (Some (d + unat n), pb_cut bs (d + unat n) t e) else None)"
    "pv_exec (PB_put n) (pb_cut bs d t e) = (if unat n \<le> e - t then Some (Some t, pb_cut bs d (t + unat n) e) else None)"
    "pv_exec (PB_trim n) (pb_cut bs d t e) = (if unat n \<le> t - d then Some (None, pb_cut bs d (d + unat n) e) else None)"
proof -
  note len = cut_lengths [OF assms]
  show "pv_exec (PB_reserve n) (pb_cut bs d t e) = (if t = d \<and> unat n \<le> e - t then Some (Some (d + unat n), pb_cut bs (d + unat n) (t + unat n) e) else None)"
    using assms len by (auto simp: pb_cut_def take_add drop_take_cut)
  show "pv_exec (PB_push n) (pb_cut bs d t e) = (if unat n \<le> d then Some (Some (d - unat n), pb_cut bs (d - unat n) t e) else None)"
    using assms len take_drop_glue [of "d - unat n" d bs "t - d"] by (auto simp: pb_cut_def drop_take)
  show "pv_exec (PB_pull n) (pb_cut bs d t e) = (if unat n \<le> t - d then Some (Some (d + unat n), pb_cut bs (d + unat n) t e) else None)"
    using assms len by (auto simp: pb_cut_def take_add drop_take_cut)
  show "pv_exec (PB_put n) (pb_cut bs d t e) = (if unat n \<le> e - t then Some (Some t, pb_cut bs d (t + unat n) e) else None)"
    using assms len take_drop_glue [of d t bs "unat n"] by (auto simp: pb_cut_def drop_take_cut)
  show "pv_exec (PB_trim n) (pb_cut bs d t e) = (if unat n \<le> t - d then Some (None, pb_cut bs d (d + unat n) e) else None)"
    using assms len take_drop_glue [of "d + unat n" t bs "e - t"] by (auto simp: pb_cut_def drop_take_cut)
qed

text \<open>The offsets after an operation that fits.\<close>

lemma narrow: "pb_wf pb \<Longrightarrow> unat n \<le> 4096 \<Longrightarrow> unat (ucast (n :: u64) :: u32) = unat n"
  by (intro unat_ucast_32) simp

lemma put_offsets:
  assumes wf: "pb_wf pb" and n: "unat n \<le> unat (pb_end pb) - unat (pb_tail pb)"
  shows "\<exists>pb'. pbuf_put pb n = Inr (pb_tail pb, pb') \<and> pb_wf pb'
     \<and> view pb' = pb_cut (pb_bytes pb) (unat (pb_data pb)) (unat (pb_tail pb) + unat n) (unat (pb_end pb))"
proof -
  note w = pb_wfD [OF wf]
  let ?p = "pb\<lparr>pb_tail := pb_tail pb + ucast n, pb_len := pb_len pb + n\<rparr>"
  have f: "unat (pb_tail ?p) = unat (pb_tail pb) + unat n" "unat (pb_len ?p) = unat (pb_len pb) + unat n"
    using n w narrow [OF wf, of n] by (simp_all add: unat_add_32 unat_add_64)
  have "unat n \<le> unat (pb_end pb - pb_tail pb)" using n w by (simp add: unat_sub_32 word_le_nat_alt)
  then have "pbuf_put pb n = Inr (pb_tail pb, ?p)" by (simp add: pbuf_put_def le_ucast_64)
  moreover have "pb_wf ?p" unfolding pb_wf_nat f using n w by simp
  ultimately show ?thesis using f by (intro exI [of _ ?p]) (simp add: view_def)
qed

lemma push_offsets:
  assumes wf: "pb_wf pb" and n: "unat n \<le> unat (pb_data pb)"
  shows "\<exists>pb'. pbuf_push pb n = Inr (pb_data pb', pb') \<and> pb_wf pb' \<and> unat (pb_data pb') = unat (pb_data pb) - unat n
     \<and> view pb' = pb_cut (pb_bytes pb) (unat (pb_data pb) - unat n) (unat (pb_tail pb)) (unat (pb_end pb))"
proof -
  note w = pb_wfD [OF wf]
  let ?p = "pb\<lparr>pb_data := pb_data pb - ucast n, pb_len := pb_len pb + n\<rparr>"
  have f: "unat (pb_data ?p) = unat (pb_data pb) - unat n" "unat (pb_len ?p) = unat (pb_len pb) + unat n"
    using n w narrow [OF wf, of n] by (simp_all add: unat_sub_32 word_le_nat_alt unat_add_64)
  have "pbuf_push pb n = Inr (pb_data ?p, ?p)" using n by (simp add: pbuf_push_def pbuf_ptr_def le_ucast_64)
  moreover have "pb_wf ?p" unfolding pb_wf_nat f using n w by simp
  ultimately show ?thesis using f by (intro exI [of _ ?p]) (simp add: view_def)
qed

lemma reserve_offsets:
  assumes wf: "pb_wf pb" and n: "unat n \<le> unat (pb_end pb) - unat (pb_tail pb)" "unat (pb_tail pb) = unat (pb_data pb)"
  shows "\<exists>pb'. pbuf_reserve pb n = Inr (pb_data pb', pb') \<and> pb_wf pb' \<and> unat (pb_data pb') = unat (pb_data pb) + unat n
     \<and> view pb' = pb_cut (pb_bytes pb) (unat (pb_data pb) + unat n) (unat (pb_tail pb) + unat n) (unat (pb_end pb))"
proof -
  note w = pb_wfD [OF wf]
  let ?p = "pb\<lparr>pb_data := pb_data pb + ucast n, pb_tail := pb_tail pb + ucast n\<rparr>"
  have f: "unat (pb_data ?p) = unat (pb_data pb) + unat n" "unat (pb_tail ?p) = unat (pb_tail pb) + unat n"
    using n w narrow [OF wf, of n] by (simp_all add: unat_add_32)
  have "unat n \<le> unat (pb_end pb - pb_data pb)" using n w by (simp add: unat_sub_32 word_le_nat_alt)
  then have "pbuf_reserve pb n = Inr (pb_data ?p, ?p)" by (simp add: pbuf_reserve_def pbuf_ptr_def le_ucast_64)
  moreover have "pb_wf ?p" unfolding pb_wf_nat f using n w by simp
  ultimately show ?thesis using f by (intro exI [of _ ?p]) (simp add: view_def)
qed

lemma pull_offsets:
  assumes wf: "pb_wf pb" and n: "unat n \<le> unat (pb_tail pb) - unat (pb_data pb)"
  shows "\<exists>pb'. pbuf_pull pb n = Inr (pb_data pb', pb') \<and> pb_wf pb' \<and> unat (pb_data pb') = unat (pb_data pb) + unat n
     \<and> view pb' = pb_cut (pb_bytes pb) (unat (pb_data pb) + unat n) (unat (pb_tail pb)) (unat (pb_end pb))"
proof -
  note w = pb_wfD [OF wf]
  have l: "unat n \<le> unat (pb_len pb)" using n w by simp
  let ?p = "pb\<lparr>pb_data := pb_data pb + ucast n, pb_len := pb_len pb - n\<rparr>"
  have f: "unat (pb_data ?p) = unat (pb_data pb) + unat n"
    using n w narrow [OF wf, of n] by (simp add: unat_add_32)
  then show ?thesis using pbuf_pull_ok(1,2) [OF wf l] by (intro exI [of _ ?p]) (simp add: view_def)
qed

lemma trim_offsets:
  assumes wf: "pb_wf pb" and n: "unat n \<le> unat (pb_tail pb) - unat (pb_data pb)"
  shows "pb_wf (pbuf_trim pb n)" "view (pbuf_trim pb n) = pb_cut (pb_bytes pb) (unat (pb_data pb)) (unat (pb_data pb) + unat n) (unat (pb_end pb))"
proof -
  note w = pb_wfD [OF wf]
  have l: "unat n \<le> unat (pb_len pb)" using n w by simp
  show "pb_wf (pbuf_trim pb n)" by (rule pbuf_trim_ok(1) [OF wf l])
  have "unat (ucast (pb_data pb) + n :: u64) = unat (pb_data pb) + unat n"
    using w n by (simp add: unat_add_64 unat_ucast_64)
  then show "view (pbuf_trim pb n) = pb_cut (pb_bytes pb) (unat (pb_data pb)) (unat (pb_data pb) + unat n) (unat (pb_end pb))"
    using w n by (simp add: view_def pbuf_trim_def unat_ucast_32)
qed

lemma pb_exec_view:
  assumes wf: "pb_wf pb" and v: "pv_exec op (view pb) = Some (r, v)"
  shows "\<exists>r' pb'. pb_exec op pb = Inr (r', pb') \<and> pb_wf pb' \<and> view pb' = v \<and> map_option unat r' = r"
proof -
  have "unat (pb_data pb) \<le> unat (pb_tail pb)" "unat (pb_tail pb) \<le> unat (pb_end pb)" "unat (pb_end pb) \<le> length (pb_bytes pb)"
    using pb_wfD [OF wf] by auto
  note c = cut_ops [OF this, folded view_def]
  show ?thesis
  proof (cases op)
    case (PB_reserve n)
    then show ?thesis using v reserve_offsets [OF wf, of n] by (auto simp: c split: if_splits)
  next
    case (PB_push n)
    then show ?thesis using v push_offsets [OF wf, of n] by (auto simp: c split: if_splits)
  next
    case (PB_pull n)
    then show ?thesis using v pull_offsets [OF wf, of n] by (auto simp: c split: if_splits)
  next
    case (PB_put n)
    then show ?thesis using v put_offsets [OF wf, of n] by (auto simp: c split: if_splits)
  next
    case (PB_trim n)
    then show ?thesis using v trim_offsets [OF wf, of n] by (auto simp: c split: if_splits)
  qed
qed

interpretation pb: packet_buffer pb_wf view pb_exec
  by unfold_locales (rule pb_exec_view)

section \<open>Properties\<close>

text \<open>
  C23: The buffers implement the view. Any sequence of operations that the view allows runs on the buffer without a failed assertion, keeps it in order, returns the offsets of the view
  and leaves a buffer with the view that the sequence gives; together the three parts hold the same bytes as before. Of the operations that the view does not allow next, \<open>pbuf_push\<close> and
  \<open>pbuf_put\<close> fail their assertions; \<open>pbuf_pull\<close> and \<open>pbuf_reserve\<close> fail theirs only if they ask for more than data and tailroom together, and \<open>pbuf_trim\<close> never fails.
\<close>

theorem pbuf_refines_view:
  assumes "pb_wf pb" "pv_run ops (view pb) = Some (rs, v)"
  shows "\<exists>rs' pb'. pb_run ops pb = Inr (rs', pb') \<and> pb_wf pb' \<and> view pb' = v \<and> map (map_option unat) rs' = rs
     \<and> all_bytes (view pb') = all_bytes (view pb)
     \<and> (\<forall>n. pv_exec (PB_push n) v = None \<longrightarrow> pb_exec (PB_push n) pb' = Inl Assert_failed)
     \<and> (\<forall>n. pv_exec (PB_put n) v = None \<longrightarrow> pb_exec (PB_put n) pb' = Inl Assert_failed)
     \<and> (\<forall>n. pb_exec (PB_pull n) pb' = Inl Assert_failed \<longleftrightarrow> from_data v < unat n)
     \<and> (\<forall>n. pb_exec (PB_reserve n) pb' = Inl Assert_failed \<longleftrightarrow> from_data v < unat n)
     \<and> (\<forall>n. pb_exec (PB_trim n) pb' \<noteq> Inl Assert_failed)"
proof -
  obtain rs' pb' where r: "pb_run ops pb = Inr (rs', pb')" "pb_wf pb'" "view pb' = v" "map (map_option unat) rs' = rs"
    using pb.run_view [OF assms] by (auto simp: pb_run_def)
  note w = pb_wfD [OF r(2)]
  have le: "unat (pb_end pb') \<le> length (pb_bytes pb')" using w by simp
  note c = cut_ops [OF w(1,2) le, folded view_def, unfolded r(3)]
  have push: "pb_exec (PB_push n) pb' = Inl Assert_failed" if "pv_exec (PB_push n) v = None" for n
    using that by (simp add: c pbuf_push_def le_ucast_64 split: if_splits)
  have "unat (pb_end pb' - pb_tail pb') = unat (pb_end pb') - unat (pb_tail pb')" using w by (intro unat_sub_32) (simp add: word_le_nat_alt)
  then have put: "pb_exec (PB_put n) pb' = Inl Assert_failed" if "pv_exec (PB_put n) v = None" for n
    using that by (simp add: c pbuf_put_def le_ucast_64 split: if_splits)
  have "unat (pb_end pb' - pb_data pb') = unat (pb_end pb') - unat (pb_data pb')" using w by (intro unat_sub_32) (simp add: word_le_nat_alt)
  moreover have "from_data v = unat (pb_end pb') - unat (pb_data pb')"
    unfolding r(3) [symmetric] using w le by (simp add: from_data_def view_def pb_cut_def)
  ultimately have "pb_exec (PB_pull n) pb' = Inl Assert_failed \<longleftrightarrow> from_data v < unat n"
      "pb_exec (PB_reserve n) pb' = Inl Assert_failed \<longleftrightarrow> from_data v < unat n" for n
    by (cases "unat n \<le> from_data v"; simp add: pbuf_pull_def pbuf_reserve_def le_ucast_64 Let_def)+
  with put show ?thesis using r pv_run_bytes [OF assms(2)] push by auto
qed

text \<open>A buffer with 2 bytes of headroom, 8 of data and 90 of tailroom.\<close>

theorem pbuf_refines_view_witness:
  "\<exists>rs pb'. pb_run [PB_pull 8, PB_reserve 20, PB_put 30, PB_push 10, PB_trim 35] (example_buf 1) = Inr (rs, pb')
     \<and> map (map_option unat) rs = [Some 10, Some 30, Some 30, Some 20, None]
     \<and> pb_exec (PB_push 21) pb' = Inl Assert_failed \<and> pb_exec (PB_put 46) pb' = Inl Assert_failed
     \<and> pb_exec (PB_pull 81) pb' = Inl Assert_failed \<and> pb_exec (PB_pull 80) pb' \<noteq> Inl Assert_failed"
proof -
  let ?bs = "pb_bytes (example_buf 1)"
  have v: "view (example_buf 1) = pb_cut ?bs 2 10 100" by (simp add: view_def example_buf_def)
  have len: "length ?bs = 4100" by (simp add: example_buf_def zero_entry_bytes)
  have run: "pv_run [PB_pull 8, PB_reserve 20, PB_put 30, PB_push 10, PB_trim 35] (view (example_buf 1))
      = Some ([Some 10, Some 30, Some 30, Some 20, None], pb_cut ?bs 20 55 100)"
    using len by (simp add: v cut_ops)
  have stop: "pv_exec (PB_push 21) (pb_cut ?bs 20 55 100) = None" "pv_exec (PB_put 46) (pb_cut ?bs 20 55 100) = None"
      "from_data (pb_cut ?bs 20 55 100) = 80"
    using len by (simp_all add: cut_ops) (simp add: from_data_def pb_cut_def)
  from pbuf_refines_view [OF example_buf_wf(1) run] obtain rs pb' where
    r: "pb_run [PB_pull 8, PB_reserve 20, PB_put 30, PB_push 10, PB_trim 35] (example_buf 1) = Inr (rs, pb')"
      "map (map_option unat) rs = [Some 10, Some 30, Some 30, Some 20, None]"
      "\<forall>n. pv_exec (PB_push n) (pb_cut ?bs 20 55 100) = None \<longrightarrow> pb_exec (PB_push n) pb' = Inl Assert_failed"
      "\<forall>n. pv_exec (PB_put n) (pb_cut ?bs 20 55 100) = None \<longrightarrow> pb_exec (PB_put n) pb' = Inl Assert_failed"
      "\<forall>n. pb_exec (PB_pull n) pb' = Inl Assert_failed \<longleftrightarrow> from_data (pb_cut ?bs 20 55 100) < unat n"
    by (elim exE conjE) (rule that; assumption)
  have "pb_exec (PB_push 21) pb' = Inl Assert_failed" "pb_exec (PB_put 46) pb' = Inl Assert_failed" using r(3,4) stop(1,2) by blast+
  then show ?thesis using r(1,2) spec [OF r(5), of 81] spec [OF r(5), of 80] stop(3) by auto
qed

end
