(* ===== verification/Ckit_Hashtable.thy ===== *)
theory Ckit_Hashtable
  imports Ckit_List Ckit_Atomic
begin

text \<open>
  \<^verbatim>\<open>src/hashtable.c\<close> and \<^verbatim>\<open>include/ckit/hashtable.h\<close>: a table of slots, each a locked list of
  reference-counted elements.

  The state of a table is the struct together with the memory it works on: the slots behind
  \<^verbatim>\<open>table\<close>, the list nodes of slots and elements, and the elements. The list node is the first
  member of \<^verbatim>\<open>struct hashelm\<close> and of \<^verbatim>\<open>struct hashslot\<close>, so an element is known by the address of its
  node. A key stands for the object it points to; the hash function and the equality function are
  the callbacks of the table. The free function is called at the end of an element's life: the call
  is recorded in \<open>ht_freed\<close> and the element's memory is gone, so that any later use faults.

  A lock that is not available makes the operation wait forever (\<open>None\<close>): the operations are run to
  completion one after the other.
\<close>

section \<open>Definitions\<close>

datatype rwlock = Unlocked | Read_locked nat | Write_locked

record hashslot =
  sl_count :: u64
  sl_lock :: rwlock

text \<open>\<open>he_ht\<close> is \<open>None\<close> as long as the pointer is indeterminate.\<close>

record 'k hashelm =
  he_refcount :: atomic_t
  he_hash :: u32
  he_key :: 'k
  he_ht :: "addr option"

record 'k hashtable =
  ht_self :: addr
  ht_table :: addr
  ht_mask :: u32
  ht_count :: atomic_t
  ht_hashfn :: "'k \<Rightarrow> u32"
  ht_equalfn :: "'k hashelm \<Rightarrow> 'k \<Rightarrow> bool"
  ht_freefn :: bool
  ht_slots :: "hashslot arr"
  ht_nodes :: lmem
  ht_elms :: "'k hashelm mem"
  ht_freed :: "addr list"

text \<open>\<open>sizeof(struct hashslot)\<close>: the list head, the count and a \<^verbatim>\<open>pthread_rwlock_t\<close>.\<close>

definition SLOT_SIZE :: nat where
  "SLOT_SIZE = 16 + 8 + 56"

text \<open>The hash function for keys that point to an \<^verbatim>\<open>unsigned int\<close>.\<close>

definition default_hashfn :: "u32 \<Rightarrow> u32" where
  "default_hashfn key = key"

definition HTABLE_MIN_SIZE :: u32 where
  "HTABLE_MIN_SIZE = 32"

definition slot_head :: "'k hashtable \<Rightarrow> nat \<Rightarrow> addr" where
  "slot_head h i = ht_table h + i * SLOT_SIZE"

definition get_slot :: "'k hashtable \<Rightarrow> u32 \<Rightarrow> nat" where
  "get_slot h hash = unat (and hash (ht_mask h))"

subsection \<open>Locks\<close>

fun wr_lock :: "rwlock \<Rightarrow> rwlock option" where
  "wr_lock Unlocked = Some Write_locked"
| "wr_lock _ = None"

fun rd_lock :: "rwlock \<Rightarrow> rwlock option" where
  "rd_lock Unlocked = Some (Read_locked 1)"
| "rd_lock (Read_locked n) = Some (Read_locked (n + 1))"
| "rd_lock Write_locked = None"

fun rw_unlock :: "rwlock \<Rightarrow> rwlock option" where
  "rw_unlock Unlocked = None"
| "rw_unlock (Read_locked n) = Some (if n = 1 then Unlocked else Read_locked (n - 1))"
| "rw_unlock Write_locked = Some Unlocked"

definition slot_lock :: "(rwlock \<Rightarrow> rwlock option) \<Rightarrow> 'k hashtable \<Rightarrow> nat \<Rightarrow> 'k hashtable option" where
  "slot_lock f h i = do {
     s \<leftarrow> aread (ht_slots h) i;
     l \<leftarrow> f (sl_lock s);
     ss \<leftarrow> awrite (ht_slots h) i (s\<lparr>sl_lock := l\<rparr>);
     Some (h\<lparr>ht_slots := ss\<rparr>)
   }"

definition slot_count_upd :: "(u64 \<Rightarrow> u64) \<Rightarrow> 'k hashtable \<Rightarrow> nat \<Rightarrow> 'k hashtable option" where
  "slot_count_upd f h i = do {
     s \<leftarrow> aread (ht_slots h) i;
     ss \<leftarrow> awrite (ht_slots h) i (s\<lparr>sl_count := f (sl_count s)\<rparr>);
     Some (h\<lparr>ht_slots := ss\<rparr>)
   }"

subsection \<open>Elements\<close>

definition hashelm_init :: "'k hashtable \<Rightarrow> addr \<Rightarrow> (int \<times> 'k hashtable) option" where
  "hashelm_init h he = do {
     nodes \<leftarrow> INIT_LIST (ht_nodes h) he;
     e \<leftarrow> load (ht_elms h) he;
     elms \<leftarrow> store (ht_elms h) he (e\<lparr>he_refcount := atomic_set (he_refcount e) 1\<rparr>);
     Some (0, h\<lparr>ht_nodes := nodes, ht_elms := elms\<rparr>)
   }"

definition hashelm_hold :: "'k hashtable \<Rightarrow> addr \<Rightarrow> 'k hashtable option" where
  "hashelm_hold h he = do {
     e \<leftarrow> load (ht_elms h) he;
     elms \<leftarrow> store (ht_elms h) he (e\<lparr>he_refcount := snd (atomic_inc (he_refcount e))\<rparr>);
     Some (h\<lparr>ht_elms := elms\<rparr>)
   }"

text \<open>\<open>he->ht->freefn(he)\<close>\<close>

definition call_freefn :: "'k hashtable \<Rightarrow> addr \<Rightarrow> 'k hashtable" where
  "call_freefn h he = h\<lparr>ht_nodes := (ht_nodes h)(he := None), ht_elms := (ht_elms h)(he := None),
     ht_freed := ht_freed h @ [he]\<rparr>"

definition hashelm_put :: "'k hashtable \<Rightarrow> addr \<Rightarrow> 'k hashtable option" where
  "hashelm_put h he = do {
     e \<leftarrow> load (ht_elms h) he;
     let (last, rc) = atomic_dec_and_test (he_refcount e);
     elms \<leftarrow> store (ht_elms h) he (e\<lparr>he_refcount := rc\<rparr>);
     let h = h\<lparr>ht_elms := elms\<rparr>;
     if last then do {
       p \<leftarrow> he_ht e;
       if p = ht_self h then Some (if ht_freefn h then call_freefn h he else h) else None
     } else Some h
   }"

definition hashelm_hashed :: "'k hashtable \<Rightarrow> addr \<Rightarrow> bool option" where
  "hashelm_hashed h he = map_option Not (list_empty (ht_nodes h) he)"

subsection \<open>Tables\<close>

text \<open>
  The slots start uninitialised. The loop counter is an \<^verbatim>\<open>int\<close>: the increment after slot \<open>2\<^sup>3\<^sup>1 - 1\<close>
  overflows, which is undefined.
\<close>

definition init_slot :: "nat \<Rightarrow> 'k hashtable \<Rightarrow> 'k hashtable option" where
  "init_slot i h =
     (if i + 1 \<ge> 2 ^ 31 then None
      else do {
        nodes \<leftarrow> INIT_LIST (ht_nodes h) (slot_head h i);
        ss \<leftarrow> awrite (ht_slots h) i \<lparr>sl_count = 0, sl_lock = Unlocked\<rparr>;
        Some (h\<lparr>ht_nodes := nodes, ht_slots := ss\<rparr>)
      })"

text \<open>
  \<open>base\<close> is what \<^verbatim>\<open>malloc\<close> returns; \<open>nodes\<close> and \<open>elms\<close> is the memory around the table. After the \<^verbatim>\<open>memset\<close> the function pointers are
  null until \<^verbatim>\<open>malloc\<close> has succeeded; constant functions stand for them, a table without slots calls none.
\<close>

definition hashtable_init ::
  "addr \<Rightarrow> addr \<Rightarrow> u32 \<Rightarrow> ('k \<Rightarrow> u32) \<Rightarrow> ('k hashelm \<Rightarrow> 'k \<Rightarrow> bool) \<Rightarrow> bool \<Rightarrow> lmem \<Rightarrow> 'k hashelm mem
     \<Rightarrow> (int \<times> 'k hashtable) option" where
  "hashtable_init self base sz hashfn equalfn freefn nodes elms =
     (let h = \<lparr>ht_self = self, ht_table = base, ht_mask = 0, ht_count = \<lparr>at_value = 0\<rparr>, ht_hashfn = (\<lambda>_. 0),
               ht_equalfn = (\<lambda>_ _. False), ht_freefn = False, ht_slots = [], ht_nodes = nodes, ht_elms = elms, ht_freed = []\<rparr>
      in if base = NULL then Some (-1, h)
         else do {
           let heads = set (map (slot_head h) [0..<unat sz]);
           let h = h\<lparr>ht_slots := replicate (unat sz) None,
                     ht_nodes := (\<lambda>p. if p \<in> heads then Some \<lparr>lprev = NULL, lnext = NULL\<rparr> else nodes p)\<rparr>;
           let h = h\<lparr>ht_mask := sz - 1, ht_count := atomic_set (ht_count h) 1, ht_hashfn := hashfn, ht_equalfn := equalfn, ht_freefn := freefn\<rparr>;
           h \<leftarrow> for_each init_slot [0..<unat (ht_mask h) + 1] h;
           Some (0, h)
         })"

text \<open>Is the key in the list that starts at \<open>p\<close>? Both loops over a slot stop at the first equal element.\<close>

definition find_body :: "'k hashtable \<Rightarrow> 'k \<Rightarrow> addr \<Rightarrow> addr \<Rightarrow> (bool \<times> addr) option" where
  "find_body h key p found = do {
     e \<leftarrow> load (ht_elms h) p;
     Some (if ht_equalfn h e key then (True, p) else (False, found))
   }"

definition slot_find :: "'k hashtable \<Rightarrow> nat \<Rightarrow> 'k \<Rightarrow> addr option" where
  "slot_find h i key = do {
     p \<leftarrow> list_front (ht_nodes h) (slot_head h i);
     (_, found) \<leftarrow> list_foreach (ht_nodes h) (slot_head h i) (find_body h key) p NULL;
     Some found
   }"

definition hashtable_hash :: "'k hashtable \<Rightarrow> addr \<Rightarrow> 'k \<Rightarrow> (int \<times> 'k hashtable) option" where
  "hashtable_hash h he key = do {
     empty \<leftarrow> list_empty (ht_nodes h) he;
     if \<not> empty then Some (-1, h)
     else do {
       e \<leftarrow> load (ht_elms h) he;
       elms \<leftarrow> store (ht_elms h) he (e\<lparr>he_hash := ht_hashfn h key, he_ht := Some (ht_self h), he_key := key\<rparr>);
       let h = h\<lparr>ht_elms := elms\<rparr>;
       let slot = get_slot h (ht_hashfn h key);
       h \<leftarrow> slot_lock wr_lock h slot;
       found \<leftarrow> slot_find h slot key;
       if found \<noteq> NULL then do { h \<leftarrow> slot_lock rw_unlock h slot; Some (-1, h) }
       else do {
         h \<leftarrow> slot_count_upd (\<lambda>c. c + 1) h slot;
         let h = h\<lparr>ht_count := snd (atomic_inc (ht_count h))\<rparr>;
         nodes \<leftarrow> list_add_front (ht_nodes h) (slot_head h slot) he;
         h \<leftarrow> hashelm_hold (h\<lparr>ht_nodes := nodes\<rparr>) he;
         h \<leftarrow> slot_lock rw_unlock h slot;
         Some (0, h)
       }
     }
   }"

text \<open>\<^verbatim>\<open>__unhash\<close> and \<^verbatim>\<open>__hashtable_unhash\<close>, which takes no lock.\<close>

definition unhash_slot :: "'k hashtable \<Rightarrow> nat \<Rightarrow> addr \<Rightarrow> 'k hashtable option" where
  "unhash_slot h slot he = do {
     nodes \<leftarrow> list_del (ht_nodes h) he;
     h \<leftarrow> slot_count_upd (\<lambda>c. c - 1) (h\<lparr>ht_nodes := nodes\<rparr>) slot;
     hashelm_put (h\<lparr>ht_count := snd (atomic_dec (ht_count h))\<rparr>) he
   }"

definition hashtable_unhash :: "'k hashtable \<Rightarrow> addr \<Rightarrow> 'k hashtable option" where
  "hashtable_unhash h he = do {
     e \<leftarrow> load (ht_elms h) he;
     let slot = get_slot h (he_hash e);
     h \<leftarrow> slot_lock wr_lock h slot;
     h \<leftarrow> unhash_slot h slot he;
     slot_lock rw_unlock h slot
   }"

definition hashtable_unhash_unlocked :: "'k hashtable \<Rightarrow> addr \<Rightarrow> 'k hashtable option" where
  "hashtable_unhash_unlocked h he = do {
     e \<leftarrow> load (ht_elms h) he;
     unhash_slot h (get_slot h (he_hash e)) he
   }"

definition hashtable_lookup :: "'k hashtable \<Rightarrow> 'k \<Rightarrow> (addr \<times> 'k hashtable) option" where
  "hashtable_lookup h key = do {
     let slot = get_slot h (ht_hashfn h key);
     h \<leftarrow> slot_lock rd_lock h slot;
     he \<leftarrow> slot_find h slot key;
     h \<leftarrow> (if he \<noteq> NULL then hashelm_hold h he else Some h);
     h \<leftarrow> slot_lock rw_unlock h slot;
     Some (he, h)
   }"

definition hashtable_count :: "'k hashtable \<Rightarrow> u32" where
  "hashtable_count h = at_value (ht_count h)"

text \<open>
  An action of \<^verbatim>\<open>hashtable_foreach\<close> sees the element and works on data of its own. \<open>lock\<close> is the lock the
  variant takes, \<open>None\<close> stands for a null action. The counter of the slots is unsigned: with a mask of all
  ones the loop does not end. The counter of the elements is an \<^verbatim>\<open>int\<close>, which can overflow.
\<close>

definition foreach_slot ::
  "(rwlock \<Rightarrow> rwlock option) \<Rightarrow> (addr \<Rightarrow> 's \<Rightarrow> 's option) \<Rightarrow> nat \<Rightarrow> 'k hashtable \<times> s32 \<times> 's
     \<Rightarrow> ('k hashtable \<times> s32 \<times> 's) option" where
  "foreach_slot lock action i = (\<lambda>(h, n, s). do {
     h \<leftarrow> slot_lock lock h i;
     p \<leftarrow> list_front (ht_nodes h) (slot_head h i);
     (_, n, s) \<leftarrow> list_foreach (ht_nodes h) (slot_head h i)
        (\<lambda>he (n, s). do { s \<leftarrow> action he s; n \<leftarrow> fit (sint n + 1); Some (False, n, s) }) p (n, s);
     h \<leftarrow> slot_lock rw_unlock h i;
     Some (h, n, s)
   })"

definition foreach_with ::
  "(rwlock \<Rightarrow> rwlock option) \<Rightarrow> 'k hashtable \<Rightarrow> (addr \<Rightarrow> 's \<Rightarrow> 's option) option \<Rightarrow> 's \<Rightarrow> (int \<times> 'k hashtable \<times> 's) option" where
  "foreach_with lock h action data = (case action of
       None \<Rightarrow> Some (-1, h, data)
     | Some act \<Rightarrow> do {
         (h', n, s) \<leftarrow> for_each (foreach_slot lock act) [0..<unat (ht_mask h) + 1] (h, 0, data);
         if ht_mask h = -1 then None else Some (sint n, h', s)
       })"

definition hashtable_foreach ::
  "'k hashtable \<Rightarrow> (addr \<Rightarrow> 's \<Rightarrow> 's option) option \<Rightarrow> 's \<Rightarrow> (int \<times> 'k hashtable \<times> 's) option" where
  "hashtable_foreach h action data = foreach_with wr_lock h action data"

definition hashtable_foreach_read ::
  "'k hashtable \<Rightarrow> (addr \<Rightarrow> 's \<Rightarrow> 's option) option \<Rightarrow> 's \<Rightarrow> (int \<times> 'k hashtable \<times> 's) option" where
  "hashtable_foreach_read h action data = foreach_with rd_lock h action data"

partial_function (option) drain_slot :: "nat \<Rightarrow> 'k hashtable \<Rightarrow> 'k hashtable option" where
  "drain_slot i h = do {
     empty \<leftarrow> list_empty (ht_nodes h) (slot_head h i);
     if empty then Some h
     else do {
       he \<leftarrow> list_front (ht_nodes h) (slot_head h i);
       nodes \<leftarrow> list_del (ht_nodes h) he;
       h \<leftarrow> hashelm_put (h\<lparr>ht_nodes := nodes\<rparr>) he;
       drain_slot i h
     }
   }"

definition fini_slot :: "nat \<Rightarrow> 'k hashtable \<Rightarrow> 'k hashtable option" where
  "fini_slot i h =
     (if i + 1 \<ge> 2 ^ 31 then None
      else do {
        h \<leftarrow> slot_lock wr_lock h i;
        h \<leftarrow> drain_slot i h;
        nodes \<leftarrow> INIT_LIST (ht_nodes h) (slot_head h i);
        h \<leftarrow> slot_count_upd (\<lambda>_. 0) (h\<lparr>ht_nodes := nodes\<rparr>) i;
        slot_lock rw_unlock h i
      })"

definition hashtable_fini :: "'k hashtable \<Rightarrow> 'k hashtable option" where
  "hashtable_fini h = do {
     h \<leftarrow> for_each fini_slot [0..<unat (ht_mask h) + 1] h;
     let table = set (map (slot_head h) [0..<unat (ht_mask h) + 1]);
     Some (h\<lparr>ht_count := atomic_set (ht_count h) 0, ht_slots := [],
             ht_nodes := (\<lambda>p. if p \<in> table then None else ht_nodes h p)\<rparr>)
   }"

subsection \<open>Specification\<close>

text \<open>\<open>cs ! i\<close> are the elements of slot \<open>i\<close>; \<open>heads\<close> the anchors of the slots.\<close>

definition heads :: "'k hashtable \<Rightarrow> addr list" where
  "heads h = map (slot_head h) [0..<unat (ht_mask h) + 1]"

definition key_of :: "'k hashtable \<Rightarrow> addr \<Rightarrow> 'k" where
  "key_of h p = he_key (the (load (ht_elms h) p))"

definition refs_of :: "'k hashtable \<Rightarrow> addr \<Rightarrow> nat" where
  "refs_of h p = unat (at_value (he_refcount (the (load (ht_elms h) p))))"

text \<open>An element that slot \<open>i\<close> may hold.\<close>

definition elm_ok :: "'k hashtable \<Rightarrow> nat \<Rightarrow> addr \<Rightarrow> bool" where
  "elm_ok h i p \<longleftrightarrow> (\<exists>e. load (ht_elms h) p = Some e \<and> he_hash e = ht_hashfn h (he_key e) \<and> get_slot h (he_hash e) = i
     \<and> he_ht e = Some (ht_self h)) \<and> 0 < refs_of h p \<and> refs_of h p < 2 ^ 31"

text \<open>What the table relies on in its equality function.\<close>

definition keyed :: "'k hashtable \<Rightarrow> bool" where
  "keyed h \<longleftrightarrow> (\<forall>e key. ht_equalfn h e key \<longleftrightarrow> he_key e = key)"

definition ht_wf :: "'k hashtable \<Rightarrow> addr list list \<Rightarrow> bool" where
  "ht_wf h cs \<longleftrightarrow> length cs = unat (ht_mask h) + 1 \<and> unat (ht_mask h) + 1 < 2 ^ 31
     \<and> dlists (ht_nodes h) (heads h) cs
     \<and> ht_slots h = map (\<lambda>c. Some \<lparr>sl_count = of_nat (length c), sl_lock = Unlocked\<rparr>) cs
     \<and> (\<forall>i < length cs. \<forall>p \<in> set (cs ! i). elm_ok h i p) \<and> distinct (map (key_of h) (concat cs))
     \<and> at_value (ht_count h) = of_nat (length (concat cs) + 1) \<and> keyed h"

text \<open>The map a table implements.\<close>

definition ht_map :: "'k hashtable \<Rightarrow> addr list list \<Rightarrow> 'k \<rightharpoonup> addr" where
  "ht_map h cs key = find (\<lambda>p. key_of h p = key) (concat cs)"

section \<open>Slots and keys\<close>

text \<open>The addresses of the slots do not depend on the rest of the state.\<close>

lemma geometry [simp]:
  "slot_head (h\<lparr>ht_elms := xe\<rparr>) = slot_head h" "get_slot (h\<lparr>ht_elms := xe\<rparr>) = get_slot h" "heads (h\<lparr>ht_elms := xe\<rparr>) = heads h" "keyed (h\<lparr>ht_elms := xe\<rparr>) = keyed h"
  "slot_head (h\<lparr>ht_nodes := xn\<rparr>) = slot_head h" "get_slot (h\<lparr>ht_nodes := xn\<rparr>) = get_slot h" "heads (h\<lparr>ht_nodes := xn\<rparr>) = heads h" "keyed (h\<lparr>ht_nodes := xn\<rparr>) = keyed h"
  "slot_head (h\<lparr>ht_slots := xs\<rparr>) = slot_head h" "get_slot (h\<lparr>ht_slots := xs\<rparr>) = get_slot h" "heads (h\<lparr>ht_slots := xs\<rparr>) = heads h" "keyed (h\<lparr>ht_slots := xs\<rparr>) = keyed h"
  "slot_head (h\<lparr>ht_count := xc\<rparr>) = slot_head h" "get_slot (h\<lparr>ht_count := xc\<rparr>) = get_slot h" "heads (h\<lparr>ht_count := xc\<rparr>) = heads h" "keyed (h\<lparr>ht_count := xc\<rparr>) = keyed h"
  "slot_head (h\<lparr>ht_freed := xf\<rparr>) = slot_head h" "get_slot (h\<lparr>ht_freed := xf\<rparr>) = get_slot h" "heads (h\<lparr>ht_freed := xf\<rparr>) = heads h" "keyed (h\<lparr>ht_freed := xf\<rparr>) = keyed h"
  by (simp_all add: slot_head_def get_slot_def heads_def keyed_def fun_eq_iff)

lemma get_slot_bound: "get_slot h x < unat (ht_mask h) + 1"
proof -
  have "and x (ht_mask h) \<le> ht_mask h" by (rule word_and_le1)
  then show ?thesis by (simp add: get_slot_def word_le_nat_alt)
qed

lemma length_heads [simp]: "length (heads h) = unat (ht_mask h) + 1"
  by (simp add: heads_def)

lemma heads_nth: "i < unat (ht_mask h) + 1 \<Longrightarrow> heads h ! i = slot_head h i"
  by (simp add: heads_def del: upt_Suc)

lemma ht_wfD:
  assumes "ht_wf h cs"
  shows "length cs = unat (ht_mask h) + 1" "unat (ht_mask h) + 1 < 2 ^ 31" "dlists (ht_nodes h) (heads h) cs"
    "\<And>i p. i < length cs \<Longrightarrow> p \<in> set (cs ! i) \<Longrightarrow> elm_ok h i p" "distinct (map (key_of h) (concat cs))"
    "at_value (ht_count h) = of_nat (length (concat cs) + 1)" "keyed h"
  using assms by (auto simp: ht_wf_def)

lemma ht_wf_slot:
  assumes "ht_wf h cs" "i < length cs"
  shows "aread (ht_slots h) i = Some \<lparr>sl_count = of_nat (length (cs ! i)), sl_lock = Unlocked\<rparr>" "i < length (ht_slots h)"
    "dlist (ht_nodes h) (slot_head h i) (cs ! i)"
proof -
  have s: "ht_slots h = map (\<lambda>c. Some \<lparr>sl_count = of_nat (length c), sl_lock = Unlocked\<rparr>) cs"
    using assms(1) by (simp add: ht_wf_def)
  then show "aread (ht_slots h) i = Some \<lparr>sl_count = of_nat (length (cs ! i)), sl_lock = Unlocked\<rparr>" "i < length (ht_slots h)"
    using assms(2) by (simp_all add: aread_def)
  show "dlist (ht_nodes h) (slot_head h i) (cs ! i)"
    using dlistsD(2) [OF ht_wfD(3) [OF assms(1)], of i] assms(2) ht_wfD(1) [OF assms(1)] by (simp add: heads_nth)
qed

lemma in_concat: "p \<in> set (concat cs) \<longleftrightarrow> (\<exists>i < length cs. p \<in> set (cs ! i))"
  unfolding set_concat by (metis UN_E UN_I in_set_conv_nth nth_mem)

lemma ht_wf_elm:
  assumes "ht_wf h cs" "p \<in> set (concat cs)"
  shows "p \<in> set (cs ! get_slot h (ht_hashfn h (key_of h p)))" "\<exists>e. load (ht_elms h) p = Some e \<and> he_ht e = Some (ht_self h)"
    "0 < refs_of h p" "refs_of h p < 2 ^ 31" "p \<noteq> NULL"
proof -
  obtain i where i: "i < length cs" "p \<in> set (cs ! i)" using assms(2) in_concat by metis
  have ok: "elm_ok h i p" by (rule ht_wfD(4) [OF assms(1) i])
  then show "p \<in> set (cs ! get_slot h (ht_hashfn h (key_of h p)))" "\<exists>e. load (ht_elms h) p = Some e \<and> he_ht e = Some (ht_self h)"
    "0 < refs_of h p" "refs_of h p < 2 ^ 31" "p \<noteq> NULL"
    using i(2) by (auto simp: elm_ok_def key_of_def dest: load_SomeD)
qed

lemma ht_map_iff:
  assumes "ht_wf h cs"
  shows "ht_map h cs key = Some p \<longleftrightarrow> p \<in> set (concat cs) \<and> key_of h p = key"
    "ht_map h cs key = None \<longleftrightarrow> (\<forall>p \<in> set (concat cs). key_of h p \<noteq> key)"
proof -
  have inj: "inj_on (key_of h) (set (concat cs))"
    using ht_wfD(5) [OF assms] by (simp add: distinct_map)
  show "ht_map h cs key = None \<longleftrightarrow> (\<forall>p \<in> set (concat cs). key_of h p \<noteq> key)"
    by (auto simp: ht_map_def find_None_iff)
  show "ht_map h cs key = Some p \<longleftrightarrow> p \<in> set (concat cs) \<and> key_of h p = key"
  proof
    assume "ht_map h cs key = Some p"
    then show "p \<in> set (concat cs) \<and> key_of h p = key"
      by (auto simp: ht_map_def find_Some_iff simp del: set_concat)
  next
    assume p: "p \<in> set (concat cs) \<and> key_of h p = key"
    then obtain q where q: "ht_map h cs key = Some q"
      by (cases "ht_map h cs key") (auto simp: ht_map_def find_None_iff)
    then have "q \<in> set (concat cs)" "key_of h q = key"
      by (auto simp: ht_map_def find_Some_iff simp del: set_concat)
    then show "ht_map h cs key = Some p"
      using inj p q by (auto simp: inj_on_def simp del: set_concat)
  qed
qed

text \<open>Searching a slot.\<close>

lemma foreach_find:
  assumes "\<forall>p \<in> set xs. load (ht_elms h) p \<noteq> None" "keyed h"
  shows "\<exists>b. foreach_list (find_body h key) xs d = Some (b, case find (\<lambda>p. key_of h p = key) xs of None \<Rightarrow> d | Some p \<Rightarrow> p)"
  using assms by (induction xs) (auto simp: find_body_def key_of_def keyed_def)

lemma slot_find_chain:
  assumes "dlist (ht_nodes h) (slot_head h i) c" "\<forall>p \<in> set c. load (ht_elms h) p \<noteq> None" "keyed h"
  shows "slot_find h i key = Some (case find (\<lambda>p. key_of h p = key) c of None \<Rightarrow> NULL | Some p \<Rightarrow> p)"
proof -
  obtain b where "foreach_list (find_body h key) c NULL = Some (b, case find (\<lambda>p. key_of h p = key) c of None \<Rightarrow> NULL | Some p \<Rightarrow> p)"
    using foreach_find [OF assms(2,3)] by blast
  then have "do { p \<leftarrow> list_front (ht_nodes h) (slot_head h i);
      list_foreach (ht_nodes h) (slot_head h i) (find_body h key) p NULL }
      = Some (b, case find (\<lambda>p. key_of h p = key) c of None \<Rightarrow> NULL | Some p \<Rightarrow> p)"
    using list_foreach_dlist [OF assms(1)] by metis
  then show ?thesis by (auto simp: slot_find_def bind_Some_iff)
qed

lemma slot_find_map:
  assumes wf: "ht_wf h cs" and i: "i = get_slot h (ht_hashfn h key)"
  shows "slot_find h i key = Some (case ht_map h cs key of None \<Rightarrow> NULL | Some p \<Rightarrow> p)"
proof -
  have il: "i < length cs" using get_slot_bound ht_wfD(1) [OF wf] i by metis
  have ok: "\<forall>p \<in> set (cs ! i). load (ht_elms h) p \<noteq> None"
    using ht_wfD(4) [OF wf il] by (auto simp: elm_ok_def)
  have sub: "set (cs ! i) \<subseteq> set (concat cs)" using il by (metis in_concat subsetI)
  have "find (\<lambda>p. key_of h p = key) (cs ! i) = ht_map h cs key"
  proof (cases "find (\<lambda>p. key_of h p = key) (cs ! i)")
    case None
    then have "\<forall>p \<in> set (cs ! i). key_of h p \<noteq> key" by (auto simp: find_None_iff)
    then have "\<forall>p \<in> set (concat cs). key_of h p \<noteq> key"
      using ht_wf_elm(1) [OF wf] i by metis
    then show ?thesis using None ht_map_iff(2) [OF wf] by metis
  next
    case (Some p)
    then have "p \<in> set (cs ! i)" "key_of h p = key"
      by (auto simp: find_Some_iff)
    then show ?thesis using Some ht_map_iff(1) [OF wf] sub by (metis subsetD)
  qed
  then show ?thesis
    using slot_find_chain [OF ht_wf_slot(3) [OF wf il] ok ht_wfD(7) [OF wf]] by simp
qed

text \<open>Locking and unlocking a slot.\<close>

definition locked :: "rwlock \<Rightarrow> 'k hashtable \<Rightarrow> nat \<Rightarrow> 'k hashtable" where
  "locked l h i = h\<lparr>ht_slots := (ht_slots h)[i := Some ((the (aread (ht_slots h) i))\<lparr>sl_lock := l\<rparr>)]\<rparr>"

lemma slot_lock_eq:
  "aread (ht_slots h) i = Some s \<Longrightarrow> f (sl_lock s) = Some l \<Longrightarrow> slot_lock f h i = Some (locked l h i)"
  by (auto simp: slot_lock_def locked_def awrite_def aread_def split: if_splits)

lemma find_body_slots: "find_body (h\<lparr>ht_slots := ss\<rparr>) = find_body h"
  by (intro ext) (simp add: find_body_def)

lemma locked_simps [simp]:
  "ht_nodes (locked l h i) = ht_nodes h" "ht_elms (locked l h i) = ht_elms h" "ht_mask (locked l h i) = ht_mask h"
  "ht_table (locked l h i) = ht_table h" "ht_hashfn (locked l h i) = ht_hashfn h" "ht_equalfn (locked l h i) = ht_equalfn h"
  "ht_self (locked l h i) = ht_self h" "ht_freefn (locked l h i) = ht_freefn h" "ht_freed (locked l h i) = ht_freed h"
  "ht_count (locked l h i) = ht_count h" "slot_head (locked l h i) j = slot_head h j" "get_slot (locked l h i) x = get_slot h x"
  "slot_find (locked l h i) j key = slot_find h j key"
  "aread (ht_slots (locked l h i)) j = (if j = i \<and> i < length (ht_slots h) then Some ((the (aread (ht_slots h) i))\<lparr>sl_lock := l\<rparr>)
     else aread (ht_slots h) j)"
  by (simp_all add: locked_def slot_head_def get_slot_def slot_find_def find_body_slots arr_simps)

lemma slot_unlock_eq:
  assumes "aread (ht_slots h) i = Some s" "sl_lock s = l" "rw_unlock l = Some Unlocked"
  shows "slot_lock rw_unlock h i = Some (h\<lparr>ht_slots := (ht_slots h)[i := Some (s\<lparr>sl_lock := Unlocked\<rparr>)]\<rparr>)"
  using assms by (auto simp: slot_lock_def awrite_def aread_def split: if_splits)

text \<open>Changing the reference count of an element.\<close>

definition with_refs :: "'k hashtable \<Rightarrow> addr \<Rightarrow> atomic_t \<Rightarrow> 'k hashtable" where
  "with_refs h p rc = h\<lparr>ht_elms := (ht_elms h)(p \<mapsto> (the (ht_elms h p))\<lparr>he_refcount := rc\<rparr>)\<rparr>"

lemma with_refs_load:
  "load (ht_elms h) p = Some e \<Longrightarrow>
     load (ht_elms (with_refs h p rc)) q = (if q = p then Some (e\<lparr>he_refcount := rc\<rparr>) else load (ht_elms h) q)"
  by (auto simp: with_refs_def mem_simps dest: load_SomeD)

lemma with_refs_simps [simp]:
  "ht_nodes (with_refs h p rc) = ht_nodes h" "ht_mask (with_refs h p rc) = ht_mask h" "ht_table (with_refs h p rc) = ht_table h"
  "ht_slots (with_refs h p rc) = ht_slots h" "ht_hashfn (with_refs h p rc) = ht_hashfn h" "ht_equalfn (with_refs h p rc) = ht_equalfn h"
  "ht_self (with_refs h p rc) = ht_self h" "ht_freefn (with_refs h p rc) = ht_freefn h" "ht_freed (with_refs h p rc) = ht_freed h"
  "ht_count (with_refs h p rc) = ht_count h" "slot_head (with_refs h p rc) = slot_head h" "get_slot (with_refs h p rc) = get_slot h"
  "heads (with_refs h p rc) = heads h" "keyed (with_refs h p rc) = keyed h"
  by (simp_all add: with_refs_def slot_head_def get_slot_def heads_def keyed_def fun_eq_iff)

lemma key_of_with_refs [simp]: "load (ht_elms h) p = Some e \<Longrightarrow> key_of (with_refs h p rc) = key_of h"
  by (auto simp: key_of_def with_refs_load fun_eq_iff)

lemma refs_of_with_refs:
  "load (ht_elms h) p = Some e \<Longrightarrow> refs_of (with_refs h p rc) q = (if q = p then unat (at_value rc) else refs_of h q)"
  by (auto simp: refs_of_def with_refs_load)

lemma elm_ok_with_refs:
  "load (ht_elms h) p = Some e \<Longrightarrow> elm_ok h i q \<Longrightarrow> q = p \<longrightarrow> 0 < unat (at_value rc) \<and> unat (at_value rc) < 2 ^ 31 \<Longrightarrow>
     elm_ok (with_refs h p rc) i q"
  by (auto simp: elm_ok_def with_refs_load refs_of_with_refs)

lemma ht_wf_with_refs:
  assumes "ht_wf h cs" "load (ht_elms h) p = Some e" "0 < unat (at_value rc)" "unat (at_value rc) < 2 ^ 31"
  shows "ht_wf (with_refs h p rc) cs" "ht_map (with_refs h p rc) cs = ht_map h cs"
  using assms elm_ok_with_refs [OF assms(2)] by (auto simp: ht_wf_def ht_map_def fun_eq_iff)

lemma hold_eq:
  "load (ht_elms h) p = Some e \<Longrightarrow> hashelm_hold h p = Some (with_refs h p (snd (atomic_inc (he_refcount e))))"
  by (auto simp: hashelm_hold_def with_refs_def mem_simps dest: load_SomeD)

lemma with_refs_locked: "with_refs (locked l h i) p rc = locked l (with_refs h p rc) i"
  by (simp add: with_refs_def locked_def)

lemma unlock_locked:
  assumes "aread (ht_slots h) i = Some s" "sl_lock s = Unlocked" "rw_unlock l = Some Unlocked"
  shows "slot_lock rw_unlock (locked l h i) i = Some h"
proof -
  have i: "i < length (ht_slots h)" "ht_slots h ! i = Some s"
    using assms(1) by (auto simp: aread_def split: if_splits)
  have s: "s\<lparr>sl_lock := l, sl_lock := Unlocked\<rparr> = s" using assms(2) by simp
  have "(ht_slots h)[i := Some (s\<lparr>sl_lock := l\<rparr>), i := Some (s\<lparr>sl_lock := l, sl_lock := Unlocked\<rparr>)] = ht_slots h"
    using i s by (metis list_update_id list_update_overwrite)
  then show ?thesis
    using i assms slot_unlock_eq [of "locked l h i" i "s\<lparr>sl_lock := l\<rparr>" l] by (simp add: locked_def arr_simps)
qed

lemma inc_refs:
  assumes "unat (at_value rc) + 1 < 2 ^ 31"
  shows "unat (at_value (snd (atomic_inc rc))) = unat (at_value rc) + 1"
  using assms by (simp add: atomic_inc_def unat_plus1_32)

text \<open>\<open>hashtable_lookup\<close> on a table in order.\<close>

lemma lookup_run:
  assumes wf: "ht_wf h cs" and k: "ht_map h cs key = Some p" and e: "load (ht_elms h) p = Some e"
  shows "hashtable_lookup h key = Some (p, with_refs h p (snd (atomic_inc (he_refcount e))))"
proof -
  have p: "p \<in> set (concat cs)" using ht_map_iff(1) [OF wf] k by blast
  define i where "i = get_slot h (ht_hashfn h key)"
  have il: "i < length cs" using get_slot_bound ht_wfD(1) [OF wf] by (simp add: i_def)
  note sl = ht_wf_slot [OF wf il]
  define rc where "rc = snd (atomic_inc (he_refcount e))"
  have "slot_lock rd_lock h i = Some (locked (Read_locked 1) h i)"
    using sl(1) by (intro slot_lock_eq) auto
  moreover have "slot_lock rw_unlock (locked (Read_locked 1) (with_refs h p rc) i) i = Some (with_refs h p rc)"
    using sl(1) by (intro unlock_locked) auto
  moreover have "hashelm_hold (locked (Read_locked 1) h i) p = Some (locked (Read_locked 1) (with_refs h p rc) i)"
    using hold_eq [of "locked (Read_locked 1) h i" p e] e by (simp add: with_refs_locked rc_def)
  ultimately show ?thesis
    using slot_find_map [OF wf i_def] k ht_wf_elm(5) [OF wf p]
    by (simp add: hashtable_lookup_def i_def [symmetric] Let_def rc_def)
qed

lemma lookup_found:
  assumes wf: "ht_wf h cs" and k: "ht_map h cs key = Some p" and r: "refs_of h p + 1 < 2 ^ 31"
  shows "\<exists>h'. hashtable_lookup h key = Some (p, h') \<and> ht_wf h' cs \<and> ht_map h' cs = ht_map h cs
     \<and> (\<forall>q. refs_of h' q = (if q = p then refs_of h p + 1 else refs_of h q)) \<and> ht_count h' = ht_count h"
proof -
  have p: "p \<in> set (concat cs)" using ht_map_iff(1) [OF wf] k by blast
  obtain e where e: "load (ht_elms h) p = Some e" using ht_wf_elm(2) [OF wf p] by blast
  define rc where "rc = snd (atomic_inc (he_refcount e))"
  have rv: "unat (at_value rc) = refs_of h p + 1"
    using inc_refs [of "he_refcount e"] r e by (simp add: rc_def refs_of_def)
  moreover have "ht_wf (with_refs h p rc) cs" "ht_map (with_refs h p rc) cs = ht_map h cs"
    using ht_wf_with_refs [OF wf e] rv r by auto
  ultimately show ?thesis
    using refs_of_with_refs [OF e] lookup_run [OF wf k e] by (auto simp: rc_def)
qed

lemma lookup_absent:
  assumes wf: "ht_wf h cs" and k: "ht_map h cs key = None"
  shows "hashtable_lookup h key = Some (NULL, h)"
proof -
  define i where "i = get_slot h (ht_hashfn h key)"
  have il: "i < length cs" using get_slot_bound ht_wfD(1) [OF wf] by (simp add: i_def)
  note sl = ht_wf_slot [OF wf il]
  have "slot_lock rd_lock h i = Some (locked (Read_locked 1) h i)"
    using sl(1) by (intro slot_lock_eq) auto
  moreover have "slot_lock rw_unlock (locked (Read_locked 1) h i) i = Some h"
    using sl(1) by (intro unlock_locked) auto
  ultimately show ?thesis
    using slot_find_map [OF wf i_def] k by (simp add: hashtable_lookup_def i_def [symmetric] Let_def)
qed

section \<open>Inserting\<close>

lemma mset_concat_upd:
  "i < length cs \<Longrightarrow> mset (concat (cs[i := c])) + mset (cs ! i) = mset (concat cs) + mset c"
proof (induction cs arbitrary: i)
  case (Cons d cs)
  then show ?case by (cases i) (auto simp: ac_simps)
qed simp

lemma distinct_keys_mset: "mset xs = mset ys \<Longrightarrow> distinct (map f xs) \<longleftrightarrow> distinct (map f ys)"
  by (metis mset_eq_imp_distinct_iff mset_map)

text \<open>The elements outside the chains do not matter.\<close>

lemma elm_ok_cong:
  "load elms' p = load (ht_elms h) p \<Longrightarrow> elm_ok (h\<lparr>ht_elms := elms'\<rparr>) i p = elm_ok h i p"
  "key_of (h\<lparr>ht_elms := elms'\<rparr>) p = he_key (the (load elms' p))"
  "load elms' p = load (ht_elms h) p \<Longrightarrow> refs_of (h\<lparr>ht_elms := elms'\<rparr>) p = refs_of h p"
  by (simp_all add: elm_ok_def key_of_def refs_of_def get_slot_def)

lemma ht_wf_elms_frame:
  assumes "ht_wf h cs" "\<forall>p \<in> set (concat cs). load elms' p = load (ht_elms h) p"
  shows "ht_wf (h\<lparr>ht_elms := elms'\<rparr>) cs" "ht_map (h\<lparr>ht_elms := elms'\<rparr>) cs = ht_map h cs"
proof -
  have k: "\<forall>p \<in> set (concat cs). key_of (h\<lparr>ht_elms := elms'\<rparr>) p = key_of h p"
    using assms(2) by (simp add: key_of_def)
  then have m: "map (key_of (h\<lparr>ht_elms := elms'\<rparr>)) (concat cs) = map (key_of h) (concat cs)"
    by (intro map_cong) auto
  have "elm_ok (h\<lparr>ht_elms := elms'\<rparr>) i p" if "i < length cs" "p \<in> set (cs ! i)" for i p
    using that assms(2) ht_wfD(4) [OF assms(1)] elm_ok_cong(1) in_concat by metis
  then show "ht_wf (h\<lparr>ht_elms := elms'\<rparr>) cs"
    using assms(1) ht_wfD(5) [OF assms(1), folded m] by (auto simp: ht_wf_def)
  show "ht_map (h\<lparr>ht_elms := elms'\<rparr>) cs = ht_map h cs"
    unfolding ht_map_def using k by (intro ext find_cong) auto
qed

text \<open>An element that is not in the table: initialised, not hashed, with references of its owners.\<close>

definition spare :: "'k hashtable \<Rightarrow> addr list list \<Rightarrow> addr \<Rightarrow> bool" where
  "spare h cs he \<longleftrightarrow> he \<notin> all_nodes (heads h) cs \<and> list_empty (ht_nodes h) he = Some True
     \<and> load (ht_elms h) he \<noteq> None \<and> 0 < refs_of h he \<and> refs_of h he + 1 < 2 ^ 31"

lemma concat_nodes: "set (concat cs) \<subseteq> all_nodes hs cs"
  by (auto simp: all_nodes_def)

definition labelled :: "'k hashtable \<Rightarrow> addr \<Rightarrow> 'k \<Rightarrow> 'k hashtable" where
  "labelled h he key = h\<lparr>ht_elms := (ht_elms h)(he \<mapsto> (the (ht_elms h he))\<lparr>he_hash := ht_hashfn h key,
     he_ht := Some (ht_self h), he_key := key\<rparr>)\<rparr>"

lemma labelled_simps [simp]:
  "ht_nodes (labelled h he key) = ht_nodes h" "ht_slots (labelled h he key) = ht_slots h" "ht_count (labelled h he key) = ht_count h"
  "ht_hashfn (labelled h he key) = ht_hashfn h" "ht_self (labelled h he key) = ht_self h" "ht_freed (labelled h he key) = ht_freed h"
  "slot_head (labelled h he key) = slot_head h" "get_slot (labelled h he key) = get_slot h" "heads (labelled h he key) = heads h"
  "ht_mask (labelled h he key) = ht_mask h" "keyed (labelled h he key) = keyed h"
  by (simp_all add: labelled_def)

lemma labelled_ok:
  assumes wf: "ht_wf h cs" and sp: "spare h cs he"
  shows "ht_wf (labelled h he key) cs" "ht_map (labelled h he key) cs = ht_map h cs"
    "\<And>q. q \<noteq> he \<Longrightarrow> load (ht_elms (labelled h he key)) q = load (ht_elms h) q"
    "refs_of (labelled h he key) q = refs_of h q"
proof -
  have he: "he \<notin> set (concat cs)" "he \<noteq> NULL" "ht_elms h he \<noteq> None"
    using sp concat_nodes [of cs "heads h"] by (auto simp: spare_def load_def split: if_splits)
  show l: "\<And>q. q \<noteq> he \<Longrightarrow> load (ht_elms (labelled h he key)) q = load (ht_elms h) q"
    by (simp add: labelled_def mem_simps)
  show "refs_of (labelled h he key) q = refs_of h q"
    using he by (auto simp: labelled_def refs_of_def mem_simps load_def)
  have "\<forall>p \<in> set (concat cs). load (ht_elms (labelled h he key)) p = load (ht_elms h) p"
    using l he(1) by metis
  then show "ht_wf (labelled h he key) cs" "ht_map (labelled h he key) cs = ht_map h cs"
    using ht_wf_elms_frame [OF wf, of "ht_elms (labelled h he key)"] by (simp_all add: labelled_def)
qed

text \<open>The run up to the decision whether the key is there.\<close>

lemma hash_start:
  fixes key :: 'k
  assumes wf: "ht_wf h cs" and sp: "spare h cs he"
  defines "i \<equiv> get_slot h (ht_hashfn h key)" and "h1 \<equiv> labelled h he key"
  shows "hashtable_hash h he key =
     (if ht_map h cs key \<noteq> None then Some (-1, h1)
      else do {
        h2 \<leftarrow> slot_count_upd (\<lambda>c. c + 1) (locked Write_locked h1 i) i;
        let h2 = h2\<lparr>ht_count := snd (atomic_inc (ht_count h2))\<rparr>;
        nodes \<leftarrow> list_add_front (ht_nodes h2) (slot_head h2 i) he;
        h2 \<leftarrow> hashelm_hold (h2\<lparr>ht_nodes := nodes\<rparr>) he;
        h2 \<leftarrow> slot_lock rw_unlock h2 i;
        Some (0, h2)
      })"
proof -
  note lb = labelled_ok [OF wf sp, where key = key, folded h1_def]
  have il: "i < length cs" using get_slot_bound ht_wfD(1) [OF wf] by (simp add: i_def)
  note sl = ht_wf_slot [OF lb(1) il]
  obtain e where e: "load (ht_elms h) he = Some e" "ht_elms h he = Some e"
    using sp by (auto simp: spare_def dest: load_SomeD)
  have h1: "h\<lparr>ht_elms := (ht_elms h)(he \<mapsto> e\<lparr>he_hash := ht_hashfn h key, he_ht := Some (ht_self h), he_key := key\<rparr>)\<rparr> = h1"
    using e by (simp add: labelled_def h1_def)
  have fnd: "slot_find h1 i key = Some (case ht_map h cs key of None \<Rightarrow> NULL | Some p \<Rightarrow> p)"
    using slot_find_map [OF lb(1), of i key] lb(2) by (simp add: i_def h1_def)
  have nz: "ht_map h cs key = Some p \<Longrightarrow> p \<noteq> NULL" for p
    using ht_wf_elm(5) [OF wf] ht_map_iff(1) [OF wf] by blast
  have lk: "slot_lock wr_lock h1 i = Some (locked Write_locked h1 i)"
    using sl(1) by (intro slot_lock_eq) auto
  have ul: "slot_lock rw_unlock (locked Write_locked h1 i) i = Some h1"
    using sl(1) by (intro unlock_locked) auto
  have gs: "get_slot h1 (ht_hashfn h1 key) = i" by (simp add: i_def h1_def)
  have "hashtable_hash h he key = do {
       h \<leftarrow> slot_lock wr_lock h1 i;
       found \<leftarrow> slot_find h i key;
       if found \<noteq> NULL then do { h \<leftarrow> slot_lock rw_unlock h i; Some (-1, h) }
       else do {
         h \<leftarrow> slot_count_upd (\<lambda>c. c + 1) h i;
         let h = h\<lparr>ht_count := snd (atomic_inc (ht_count h))\<rparr>;
         nodes \<leftarrow> list_add_front (ht_nodes h) (slot_head h i) he;
         h \<leftarrow> hashelm_hold (h\<lparr>ht_nodes := nodes\<rparr>) he;
         h \<leftarrow> slot_lock rw_unlock h i;
         Some (0, h)
       } }"
    unfolding hashtable_hash_def Let_def using sp e h1 gs by (simp add: spare_def mem_simps h1 gs i_def [symmetric] cong: if_cong)
  then show ?thesis
    using lk ul fnd nz by (cases "ht_map h cs key") simp_all
qed

text \<open>The count of a locked slot, and unlocking it afterwards.\<close>

lemma slot_count_locked:
  assumes "aread (ht_slots h) i = Some s"
  shows "slot_count_upd f (locked l h i) i
    = Some (h\<lparr>ht_slots := (ht_slots h)[i := Some (s\<lparr>sl_lock := l, sl_count := f (sl_count s)\<rparr>)]\<rparr>)"
proof -
  have i: "i < length (ht_slots h)" "ht_slots h ! i = Some s"
    using assms by (auto simp: aread_def split: if_splits)
  show ?thesis
    using assms i by (simp add: slot_count_upd_def) (simp add: locked_def awrite_def)
qed

lemma slot_unlock_upd:
  assumes "ht_slots h = ss[i := Some (s\<lparr>sl_lock := Write_locked, sl_count := c\<rparr>)]" "i < length ss"
  shows "slot_lock rw_unlock h i = Some (h\<lparr>ht_slots := ss[i := Some \<lparr>sl_count = c, sl_lock = Unlocked\<rparr>]\<rparr>)"
  using assms slot_unlock_eq [of h i "s\<lparr>sl_lock := Write_locked, sl_count := c\<rparr>" Write_locked]
  by (cases s) (simp add: arr_simps)

lemma slots_upd:
  assumes "ht_wf h cs" "i < length cs"
  shows "(ht_slots h)[i := Some \<lparr>sl_count = of_nat (length c), sl_lock = Unlocked\<rparr>]
    = map (\<lambda>c. Some \<lparr>sl_count = of_nat (length c), sl_lock = Unlocked\<rparr>) (cs[i := c])"
  using assms by (simp add: ht_wf_def map_update)

text \<open>What an insertion gives.\<close>

definition hashed :: "'k hashtable \<Rightarrow> addr \<Rightarrow> 'k \<Rightarrow> lmem \<Rightarrow> nat \<Rightarrow> addr list \<Rightarrow> 'k hashtable" where
  "hashed h he key m i c = (with_refs (labelled h he key) he (snd (atomic_inc (he_refcount (the (ht_elms h he))))))
     \<lparr>ht_nodes := m, ht_count := snd (atomic_inc (ht_count h)),
      ht_slots := (ht_slots h)[i := Some \<lparr>sl_count = of_nat (length (he # c)), sl_lock = Unlocked\<rparr>]\<rparr>"

lemma hash_absent_run:
  fixes key :: 'k
  assumes wf: "ht_wf h cs" and sp: "spare h cs he" and k: "ht_map h cs key = None"
  defines "i \<equiv> get_slot h (ht_hashfn h key)"
  shows "\<exists>m. hashtable_hash h he key = Some (0, hashed h he key m i (cs ! i))
     \<and> dlists m (heads h) (cs[i := he # cs ! i])
     \<and> (\<forall>q. q \<notin> insert he (all_nodes (heads h) cs) \<longrightarrow> load m q = load (ht_nodes h) q)"
proof -
  have il: "i < length cs" using get_slot_bound ht_wfD(1) [OF wf] by (simp add: i_def)
  note sl = ht_wf_slot [OF wf il]
  have he: "he \<notin> all_nodes (heads h) cs" "load (ht_nodes h) he \<noteq> None"
    using sp by (auto simp: spare_def list_empty_def bind_Some_iff)
  obtain m where m: "list_add_front (ht_nodes h) (slot_head h i) he = Some m" "dlists m (heads h) (cs[i := he # cs ! i])"
      "\<forall>q. q \<notin> insert he (all_nodes (heads h) cs) \<longrightarrow> load m q = load (ht_nodes h) q"
    using ll.add_front_law [OF ht_wfD(3) [OF wf], of i he] il ht_wfD(1) [OF wf] he by (auto simp: heads_nth)
  obtain e where e: "load (ht_elms h) he = Some e" "ht_elms h he = Some e" "he \<noteq> NULL"
    using sp by (auto simp: spare_def dest: load_SomeD)
  let ?h1 = "labelled h he key"
  have l1: "load (ht_elms ?h1) he = Some (e\<lparr>he_hash := ht_hashfn h key, he_ht := Some (ht_self h), he_key := key\<rparr>)"
    using e by (simp add: labelled_def mem_simps)
  note cu = slot_count_locked [of ?h1 i, OF _, of "\<lparr>sl_count = of_nat (length (cs ! i)), sl_lock = Unlocked\<rparr>" "\<lambda>c. c + 1" Write_locked]
  let ?s = "\<lparr>sl_count = of_nat (length (cs ! i)), sl_lock = Unlocked\<rparr>"
  let ?ss = "(ht_slots h)[i := Some (?s\<lparr>sl_lock := Write_locked, sl_count := of_nat (length (cs ! i)) + 1\<rparr>)]"
  let ?h2 = "?h1\<lparr>ht_slots := ?ss, ht_count := snd (atomic_inc (ht_count h)), ht_nodes := m\<rparr>"
  have "load (ht_elms ?h2) he = Some (e\<lparr>he_hash := ht_hashfn h key, he_ht := Some (ht_self h), he_key := key\<rparr>)"
    using l1 by simp
  from hold_eq [OF this] have ho: "hashelm_hold ?h2 he = Some (with_refs ?h2 he (snd (atomic_inc (he_refcount e))))"
    by simp
  have ul: "slot_lock rw_unlock (with_refs ?h2 he (snd (atomic_inc (he_refcount e)))) i
      = Some ((with_refs ?h2 he (snd (atomic_inc (he_refcount e))))
          \<lparr>ht_slots := (ht_slots h)[i := Some \<lparr>sl_count = of_nat (length (cs ! i)) + 1, sl_lock = Unlocked\<rparr>]\<rparr>)"
    using sl(2) by (intro slot_unlock_upd [where s = ?s]) auto
  have "hashtable_hash h he key = Some (0, (with_refs ?h2 he (snd (atomic_inc (he_refcount e))))
          \<lparr>ht_slots := (ht_slots h)[i := Some \<lparr>sl_count = of_nat (length (cs ! i)) + 1, sl_lock = Unlocked\<rparr>]\<rparr>)"
    unfolding hash_start [OF wf sp, where key = key, folded i_def]
    using k cu sl(1) m(1) ho ul by (simp add: Let_def)
  moreover have "(with_refs ?h2 he (snd (atomic_inc (he_refcount e))))
          \<lparr>ht_slots := (ht_slots h)[i := Some \<lparr>sl_count = of_nat (length (cs ! i)) + 1, sl_lock = Unlocked\<rparr>]\<rparr>
        = hashed h he key m i (cs ! i)"
    using e by (simp add: hashed_def with_refs_def add.commute)
  ultimately show ?thesis using m(2,3) by auto
qed

lemma hashed_simps [simp]:
  "ht_nodes (hashed h he key m i c) = m" "ht_mask (hashed h he key m i c) = ht_mask h"
  "ht_hashfn (hashed h he key m i c) = ht_hashfn h" "ht_self (hashed h he key m i c) = ht_self h"
  "heads (hashed h he key m i c) = heads h" "keyed (hashed h he key m i c) = keyed h"
  "get_slot (hashed h he key m i c) = get_slot h" "ht_freed (hashed h he key m i c) = ht_freed h"
  "ht_freefn (hashed h he key m i c) = ht_freefn h"
  by (simp_all add: hashed_def) (simp add: labelled_def)

lemma hashed_elms:
  assumes "spare h cs he"
  shows "load (ht_elms (hashed h he key m i c)) q = (if q = he
       then Some ((the (load (ht_elms h) he))\<lparr>he_hash := ht_hashfn h key, he_ht := Some (ht_self h), he_key := key,
          he_refcount := snd (atomic_inc (he_refcount (the (load (ht_elms h) he))))\<rparr>) else load (ht_elms h) q)"
  using assms by (auto simp: spare_def hashed_def with_refs_def labelled_def mem_simps dest!: load_SomeD) (simp_all add: load_def)

lemma hashed_keys:
  assumes "spare h cs he"
  shows "key_of (hashed h he key m i c) = (key_of h)(he := key)"
    "refs_of (hashed h he key m i c) = (refs_of h)(he := refs_of h he + 1)"
  using assms inc_refs [of "he_refcount (the (load (ht_elms h) he))"]
  by (auto simp: fun_eq_iff key_of_def refs_of_def hashed_elms [OF assms]) (simp add: spare_def refs_of_def)

lemma hashed_elm_ok:
  assumes "spare h cs he"
  shows "q \<noteq> he \<Longrightarrow> elm_ok (hashed h he key m i c) j q = elm_ok h j q"
    "elm_ok (hashed h he key m i c) (get_slot h (ht_hashfn h key)) he"
  using assms
  by (auto simp: elm_ok_def hashed_elms [OF assms] hashed_keys [OF assms]) (simp_all add: spare_def)

lemma ht_map_insert:
  assumes wf: "ht_wf h cs" and w': "ht_wf h' cs'" and st: "set (concat cs') = insert he (set (concat cs))"
    and ky: "key_of h' he = key" "\<forall>p \<in> set (concat cs). key_of h' p = key_of h p" "he \<notin> set (concat cs)"
  shows "ht_map h' cs' = (ht_map h cs)(key \<mapsto> he)"
proof
  fix x
  have he: "ht_map h' cs' key = Some he" unfolding ht_map_iff(1) [OF w'] using st ky(1) by simp
  have "ht_map h' cs' x = Some p \<longleftrightarrow> ht_map h cs x = Some p" if "x \<noteq> key" for p
    unfolding ht_map_iff(1) [OF w'] ht_map_iff(1) [OF wf] st using that ky by (auto simp del: set_concat)
  then show "ht_map h' cs' x = ((ht_map h cs)(key \<mapsto> he)) x"
    using he by (cases "x = key") (simp, metis fun_upd_other option.exhaust)
qed

lemma hash_absent:
  fixes key :: 'k
  assumes wf: "ht_wf h cs" and sp: "spare h cs he" and k: "ht_map h cs key = None"
  defines "cs' \<equiv> cs[get_slot h (ht_hashfn h key) := he # cs ! get_slot h (ht_hashfn h key)]"
  shows "\<exists>h'. hashtable_hash h he key = Some (0, h') \<and> ht_wf h' cs' \<and> ht_map h' cs' = (ht_map h cs)(key \<mapsto> he)
     \<and> refs_of h' = (refs_of h)(he := refs_of h he + 1) \<and> set (concat cs') = insert he (set (concat cs))
     \<and> length (concat cs') = length (concat cs) + 1"
proof -
  define i where "i = get_slot h (ht_hashfn h key)"
  have il: "i < length cs" using get_slot_bound ht_wfD(1) [OF wf] by (simp add: i_def)
  obtain m where m: "hashtable_hash h he key = Some (0, hashed h he key m i (cs ! i))" "dlists m (heads h) cs'"
    using hash_absent_run [OF wf sp k] by (auto simp: i_def cs'_def)
  define h' where "h' = hashed h he key m i (cs ! i)"
  have ms: "mset (concat cs') = add_mset he (mset (concat cs))"
    using mset_concat_upd [OF il, of "he # cs ! i"] by (simp add: cs'_def i_def)
  have st: "set (concat cs') = insert he (set (concat cs))"
    using ms by (metis set_mset_add_mset_insert set_mset_mset)
  have ln: "length (concat cs') = length (concat cs) + 1"
    using ms by (metis size_mset size_add_mset Suc_eq_plus1)
  have nh: "he \<notin> set (concat cs)"
    using sp concat_nodes [of cs "heads h"] by (auto simp: spare_def)
  have ka: "\<forall>p \<in> set (concat cs). key_of h p \<noteq> key"
    using k ht_map_iff(2) [OF wf] by blast
  have eq: "map (key_of h') (concat cs) = map (key_of h) (concat cs)"
    unfolding h'_def hashed_keys [OF sp] using nh by (intro map_cong) auto
  have "distinct (map (key_of h') (he # concat cs))"
    using ht_wfD(5) [OF wf] ka eq nh by (auto simp: h'_def hashed_keys [OF sp] simp del: map_concat)
  then have dk: "distinct (map (key_of h') (concat cs'))"
    using distinct_keys_mset [of "concat cs'" "he # concat cs" "key_of h'"] ms by simp
  have ek: "elm_ok h' j p" if "j < length cs'" "p \<in> set (cs' ! j)" for j p
  proof (cases "p = he")
    case True
    then have "j = i"
      using that nh in_concat [of he cs] by (cases "j = i") (auto simp: cs'_def i_def)
    then show ?thesis using True hashed_elm_ok(2) [OF sp] by (simp add: h'_def i_def)
  next
    case False
    then have "p \<in> set (cs ! j)" using that il by (cases "j = i") (auto simp: cs'_def i_def)
    then show ?thesis
      using False ht_wfD(4) [OF wf] that hashed_elm_ok(1) [OF sp] by (simp add: h'_def cs'_def)
  qed
  have "at_value (ht_count h') = of_nat (length (concat cs') + 1)"
    using ht_wfD(6) [OF wf] ln by (simp add: h'_def hashed_def atomic_inc_def)
  moreover have "ht_slots h' = map (\<lambda>c. Some \<lparr>sl_count = of_nat (length c), sl_lock = Unlocked\<rparr>) cs'"
    using slots_upd [OF wf il, of "he # cs ! i"] by (simp add: h'_def hashed_def cs'_def i_def)
  ultimately have w': "ht_wf h' cs'"
    using ht_wfD(1,2,7) [OF wf] m(2) dk ek unfolding ht_wf_def by (auto simp: h'_def cs'_def)
  have "ht_map h' cs' = (ht_map h cs)(key \<mapsto> he)"
    using ht_map_insert [OF wf w' st] nh by (auto simp: h'_def hashed_keys [OF sp] simp del: set_concat)
  then show ?thesis
    using m(1) w' st ln hashed_keys(2) [OF sp] by (simp add: h'_def)
qed

section \<open>Dropping references and removing\<close>

text \<open>Dropping a reference; the last one ends the element.\<close>

definition put_state :: "'k hashtable \<Rightarrow> addr \<Rightarrow> 'k hashtable" where
  "put_state h p =
     (let h1 = with_refs h p (snd (atomic_dec_and_test (he_refcount (the (ht_elms h p)))))
      in if refs_of h p = 1 \<and> ht_freefn h then call_freefn h1 p else h1)"

lemma put_eq:
  assumes "load (ht_elms h) p = Some e" "he_ht e = Some (ht_self h)" "0 < refs_of h p" "refs_of h p < 2 ^ 31"
  shows "hashelm_put h p = Some (put_state h p)"
proof -
  have c: "counts (he_refcount e) (refs_of h p)"
    using assms by (simp add: counts_def refs_of_def)
  obtain l rc where d: "atomic_dec_and_test (he_refcount e) = (l, rc)" by fastforce
  then have l: "l \<longleftrightarrow> refs_of h p = 1"
    using rc.release_last [OF c assms(3)] by simp
  have e: "ht_elms h p = Some e" using assms(1) by (auto dest: load_SomeD)
  show ?thesis
    using assms(1,2) d l e by (simp add: hashelm_put_def put_state_def mem_simps with_refs_def Let_def)
qed

lemma put_state_simps [simp]:
  "ht_mask (put_state h p) = ht_mask h" "ht_slots (put_state h p) = ht_slots h" "ht_count (put_state h p) = ht_count h"
  "ht_hashfn (put_state h p) = ht_hashfn h" "ht_self (put_state h p) = ht_self h" "ht_freefn (put_state h p) = ht_freefn h"
  "heads (put_state h p) = heads h" "keyed (put_state h p) = keyed h" "get_slot (put_state h p) = get_slot h"
  "slot_head (put_state h p) = slot_head h"
  "ht_freed (put_state h p) = ht_freed h @ (if refs_of h p = 1 \<and> ht_freefn h then [p] else [])"
  by (simp_all add: put_state_def call_freefn_def Let_def)

lemma put_state_other:
  assumes "q \<noteq> p"
  shows "load (ht_elms (put_state h p)) q = load (ht_elms h) q" "load (ht_nodes (put_state h p)) q = load (ht_nodes h) q"
    "refs_of (put_state h p) q = refs_of h q" "key_of (put_state h p) q = key_of h q"
proof -
  show l: "load (ht_elms (put_state h p)) q = load (ht_elms h) q" "load (ht_nodes (put_state h p)) q = load (ht_nodes h) q"
    using assms by (simp_all add: put_state_def call_freefn_def Let_def with_refs_def mem_simps load_def)
  then show "refs_of (put_state h p) q = refs_of h q" "key_of (put_state h p) q = key_of h q"
    by (simp_all add: refs_of_def key_of_def)
qed

lemma put_state_self:
  assumes "load (ht_elms h) p = Some e" "0 < refs_of h p"
  shows "load (ht_elms (put_state h p)) p = None \<longleftrightarrow> refs_of h p = 1 \<and> ht_freefn h"
    "\<not> (refs_of h p = 1 \<and> ht_freefn h) \<Longrightarrow> refs_of (put_state h p) p = refs_of h p - 1"
proof -
  have "p \<noteq> NULL" "ht_elms h p = Some e" using assms(1) by (auto dest: load_SomeD)
  moreover have "unat (at_value (snd (atomic_dec_and_test (he_refcount e)))) = refs_of h p - 1"
    using assms by (simp add: atomic_dec_and_test_def atomic_dec_def refs_of_def unat_minus1_32)
  ultimately show "load (ht_elms (put_state h p)) p = None \<longleftrightarrow> refs_of h p = 1 \<and> ht_freefn h"
    "\<not> (refs_of h p = 1 \<and> ht_freefn h) \<Longrightarrow> refs_of (put_state h p) p = refs_of h p - 1"
    by (auto simp: put_state_def call_freefn_def Let_def with_refs_def mem_simps load_def refs_of_def)
qed

lemma dlists_frame:
  assumes "dlists m hs cs" "\<forall>q \<in> all_nodes hs cs. load m' q = load m q"
  shows "dlists m' hs cs"
proof -
  have "dlist m' (hs ! i) (cs ! i) = dlist m (hs ! i) (cs ! i)" if "i < length hs" for i
    using that assms all_nodes_nth [OF dlistsD(1) [OF assms(1)]] by (intro dlist_frame) auto
  then show ?thesis using assms(1) by (simp add: dlists_def)
qed

lemma put_state_wf:
  assumes wf: "ht_wf h cs" and p: "p \<notin> all_nodes (heads h) cs"
  shows "ht_wf (put_state h p) cs" "ht_map (put_state h p) cs = ht_map h cs"
proof -
  have nc: "q \<noteq> p" if "q \<in> set (concat cs)" for q
    using that p concat_nodes [of cs "heads h"] by blast
  then have k: "\<forall>q \<in> set (concat cs). key_of (put_state h p) q = key_of h q"
    using put_state_other(4) by metis
  then have m: "map (key_of (put_state h p)) (concat cs) = map (key_of h) (concat cs)"
    by (intro map_cong) auto
  have "\<forall>q \<in> all_nodes (heads h) cs. load (ht_nodes (put_state h p)) q = load (ht_nodes h) q"
    using p put_state_other(2) by metis
  then have "dlists (ht_nodes (put_state h p)) (heads h) cs"
    using dlists_frame [OF ht_wfD(3) [OF wf]] by blast
  moreover have "elm_ok (put_state h p) i q" if "i < length cs" "q \<in> set (cs ! i)" for i q
  proof -
    have "q \<noteq> p" using nc in_concat [of q cs] that by blast
    then show ?thesis
      using ht_wfD(4) [OF wf that] by (simp add: elm_ok_def put_state_other)
  qed
  ultimately show "ht_wf (put_state h p) cs"
    using wf ht_wfD(5) [OF wf, folded m] by (auto simp: ht_wf_def)
  show "ht_map (put_state h p) cs = ht_map h cs"
    unfolding ht_map_def using k by (intro ext find_cong) auto
qed

text \<open>The table once the element is out of its slot and the counts are adjusted.\<close>

definition unlinked :: "'k hashtable \<Rightarrow> lmem \<Rightarrow> nat \<Rightarrow> addr list \<Rightarrow> 'k hashtable" where
  "unlinked h m i c = h\<lparr>ht_nodes := m, ht_count := snd (atomic_dec (ht_count h)),
     ht_slots := (ht_slots h)[i := Some \<lparr>sl_count = of_nat (length c), sl_lock = Unlocked\<rparr>]\<rparr>"

lemma unlinked_simps [simp]:
  "ht_nodes (unlinked h m i c) = m" "ht_mask (unlinked h m i c) = ht_mask h" "ht_elms (unlinked h m i c) = ht_elms h"
  "ht_hashfn (unlinked h m i c) = ht_hashfn h" "ht_self (unlinked h m i c) = ht_self h" "ht_freefn (unlinked h m i c) = ht_freefn h"
  "heads (unlinked h m i c) = heads h" "keyed (unlinked h m i c) = keyed h" "get_slot (unlinked h m i c) = get_slot h"
  "ht_freed (unlinked h m i c) = ht_freed h" "refs_of (unlinked h m i c) = refs_of h" "key_of (unlinked h m i c) = key_of h"
  "elm_ok (unlinked h m i c) j q = elm_ok h j q"
  by (simp_all add: unlinked_def refs_of_def key_of_def fun_eq_iff elm_ok_def)

lemma unlinked_wf:
  assumes wf: "ht_wf h cs" and i: "i < length cs" "cs ! i = xs @ p # ys" and m: "dlists m (heads h) (cs[i := xs @ ys])"
  defines "cs' \<equiv> cs[i := xs @ ys]" and "h' \<equiv> unlinked h m i (xs @ ys)"
  shows "ht_wf h' cs'" "ht_map h' cs' = (ht_map h cs)(key_of h p := None)" "set (concat cs') = set (concat cs) - {p}"
    "length (concat cs) = length (concat cs') + 1" "p \<in> set (concat cs)"
proof -
  have ms: "mset (concat cs) = add_mset p (mset (concat cs'))"
    using mset_concat_upd [OF i(1), of "xs @ ys"] i(2) by (simp add: cs'_def)
  have dk: "distinct (map (key_of h) (p # concat cs'))"
    using ht_wfD(5) [OF wf] distinct_keys_mset [of "concat cs" "p # concat cs'" "key_of h"] ms by simp
  show st: "set (concat cs') = set (concat cs) - {p}"
  proof -
    have "set (concat cs) = insert p (set (concat cs'))"
      using ms by (metis set_mset_add_mset_insert set_mset_mset)
    moreover have "p \<notin> set (concat cs')" using dk by (metis distinct.simps(2) distinct_map)
    ultimately show ?thesis by blast
  qed
  show ln: "length (concat cs) = length (concat cs') + 1"
    using ms by (metis size_mset size_add_mset Suc_eq_plus1)
  show pc: "p \<in> set (concat cs)"
    using ms by (metis union_single_eq_member set_mset_mset)
  have "elm_ok h j q" if "j < length cs'" "q \<in> set (cs' ! j)" for j q
  proof -
    have "q \<in> set (cs ! j)" using that i by (cases "j = i") (auto simp: cs'_def)
    then show ?thesis using ht_wfD(4) [OF wf] that(1) by (simp add: cs'_def)
  qed
  moreover have "at_value (ht_count h') = of_nat (length (concat cs') + 1)"
    using ht_wfD(6) [OF wf] ln by (simp add: h'_def unlinked_def atomic_dec_def)
  moreover have "ht_slots h' = map (\<lambda>c. Some \<lparr>sl_count = of_nat (length c), sl_lock = Unlocked\<rparr>) cs'"
    using slots_upd [OF wf i(1), of "xs @ ys"] by (simp add: h'_def unlinked_def cs'_def)
  ultimately show w': "ht_wf h' cs'"
    using ht_wfD(1,2,7) [OF wf] m dk unfolding ht_wf_def by (auto simp: h'_def cs'_def)
  show "ht_map h' cs' = (ht_map h cs)(key_of h p := None)"
  proof
    fix x
    show "ht_map h' cs' x = ((ht_map h cs)(key_of h p := None)) x"
    proof (cases "x = key_of h p")
      case True
      have "key_of h p \<notin> key_of h ` set (concat cs')"
        using dk by (simp del: set_concat)
      then have "\<forall>q \<in> set (concat cs'). key_of h' q \<noteq> x"
        using True by (metis imageI h'_def unlinked_simps(12))
      then show ?thesis using True ht_map_iff(2) [OF w'] by (metis fun_upd_same)
    next
      case False
      have "ht_map h' cs' x = Some q \<longleftrightarrow> ht_map h cs x = Some q" for q
        unfolding ht_map_iff(1) [OF w'] ht_map_iff(1) [OF wf] st
        using False by (auto simp: h'_def simp del: set_concat)
      then show ?thesis using False by (metis fun_upd_other option.exhaust)
    qed
  qed
qed

lemma put_state_commute:
  "(put_state h p)\<lparr>ht_slots := ss\<rparr> = put_state (h\<lparr>ht_slots := ss\<rparr>) p"
  by (simp add: put_state_def with_refs_def call_freefn_def refs_of_def Let_def)

lemma unhash_run:
  assumes wf: "ht_wf h cs" and i: "i < length cs" "cs ! i = xs @ p # ys"
  shows "\<exists>m. hashtable_unhash h p = Some (put_state (unlinked h m i (xs @ ys)) p)
     \<and> dlists m (heads h) (cs[i := xs @ ys]) \<and> dlist m p []
     \<and> (\<forall>q. q \<notin> all_nodes (heads h) cs \<longrightarrow> load m q = load (ht_nodes h) q)"
proof -
  note sl = ht_wf_slot [OF wf i(1)]
  have ok: "elm_ok h i p" using ht_wfD(4) [OF wf i(1)] i(2) by simp
  then obtain e where e: "load (ht_elms h) p = Some e" "he_ht e = Some (ht_self h)" "get_slot h (he_hash e) = i"
    and r: "0 < refs_of h p" "refs_of h p < 2 ^ 31"
    by (auto simp: elm_ok_def)
  obtain m where m: "list_del (ht_nodes h) p = Some m" "dlists m (heads h) (cs[i := xs @ ys])" "dlist m p []"
      "\<forall>q. q \<notin> all_nodes (heads h) cs \<longrightarrow> load m q = load (ht_nodes h) q"
    using ll.del_law [OF ht_wfD(3) [OF wf], of i xs p ys] i ht_wfD(1) [OF wf] by auto
  let ?s = "\<lparr>sl_count = of_nat (length (cs ! i)), sl_lock = Unlocked\<rparr>"
  have c: "of_nat (length (cs ! i)) - 1 = (of_nat (length (xs @ ys)) :: u64)"
    using i(2) by simp
  let ?ss = "(ht_slots h)[i := Some (?s\<lparr>sl_lock := Write_locked, sl_count := of_nat (length (xs @ ys))\<rparr>)]"
  let ?h2 = "h\<lparr>ht_nodes := m, ht_slots := ?ss, ht_count := snd (atomic_dec (ht_count h))\<rparr>"
  have "slot_lock wr_lock h i = Some (locked Write_locked h i)"
    using sl(1) by (intro slot_lock_eq) auto
  moreover have "slot_count_upd (\<lambda>c. c - 1) ((locked Write_locked h i)\<lparr>ht_nodes := m\<rparr>) i = Some (h\<lparr>ht_nodes := m, ht_slots := ?ss\<rparr>)"
  proof -
    have "(locked Write_locked h i)\<lparr>ht_nodes := m\<rparr> = locked Write_locked (h\<lparr>ht_nodes := m\<rparr>) i"
      by (simp add: locked_def)
    then show ?thesis
      using slot_count_locked [of "h\<lparr>ht_nodes := m\<rparr>" i ?s "\<lambda>c. c - 1" Write_locked] sl(1) c by simp
  qed
  moreover have "refs_of ?h2 p = refs_of h p" by (simp add: refs_of_def)
  then have "hashelm_put ?h2 p = Some (put_state ?h2 p)"
    using e r by (intro put_eq [where e = e]) auto
  moreover have "slot_lock rw_unlock (put_state ?h2 p) i
      = Some ((put_state ?h2 p)\<lparr>ht_slots := (ht_slots h)[i := Some \<lparr>sl_count = of_nat (length (xs @ ys)), sl_lock = Unlocked\<rparr>]\<rparr>)"
    using sl(2) by (intro slot_unlock_upd [where s = ?s]) auto
  moreover have "(put_state ?h2 p)\<lparr>ht_slots := (ht_slots h)[i := Some \<lparr>sl_count = of_nat (length (xs @ ys)), sl_lock = Unlocked\<rparr>]\<rparr>
      = put_state (unlinked h m i (xs @ ys)) p"
    unfolding put_state_commute by (simp add: unlinked_def)
  ultimately have "hashtable_unhash h p = Some (put_state (unlinked h m i (xs @ ys)) p)"
    using e m(1) by (simp add: hashtable_unhash_def unhash_slot_def Let_def)
  with m(2-4) show ?thesis by blast
qed

lemma unhash_present:
  assumes wf: "ht_wf h cs" and p: "p \<in> set (concat cs)"
  shows "\<exists>h' cs'. hashtable_unhash h p = Some h' \<and> ht_wf h' cs' \<and> ht_map h' cs' = (ht_map h cs)(key_of h p := None)
     \<and> set (concat cs') = set (concat cs) - {p} \<and> length (concat cs) = length (concat cs') + 1
     \<and> (\<forall>q. q \<noteq> p \<longrightarrow> refs_of h' q = refs_of h q)
     \<and> (if refs_of h p = 1 \<and> ht_freefn h then ht_freed h' = ht_freed h @ [p] \<and> load (ht_elms h') p = None
        else ht_freed h' = ht_freed h \<and> load (ht_elms h') p \<noteq> None \<and> refs_of h' p = refs_of h p - 1)"
proof -
  obtain i where i: "i < length cs" "p \<in> set (cs ! i)" using p in_concat by metis
  then obtain xs ys where c: "cs ! i = xs @ p # ys" by (meson split_list)
  obtain m where m: "hashtable_unhash h p = Some (put_state (unlinked h m i (xs @ ys)) p)"
      "dlists m (heads h) (cs[i := xs @ ys])"
    using unhash_run [OF wf i(1) c] by blast
  let ?g = "unlinked h m i (xs @ ys)" and ?cs = "cs[i := xs @ ys]"
  note un = unlinked_wf [OF wf i(1) c m(2)]
  have np: "p \<notin> all_nodes (heads ?g) ?cs"
    using ll.rep_once [OF ht_wfD(3) [OF wf] _ c] i(1) ht_wfD(1) [OF wf] by simp
  obtain e where e: "load (ht_elms h) p = Some e" using ht_wf_elm(2) [OF wf p] by blast
  have r: "0 < refs_of h p" by (rule ht_wf_elm(3) [OF wf p])
  show ?thesis
    using m(1) put_state_wf [OF un(1) np] un(2-4) put_state_other(3) [of _ p ?g]
      put_state_self [of ?g p e] e r
    by (intro exI [of _ "put_state ?g p"] exI [of _ ?cs]) auto
qed

section \<open>The table as a map\<close>

text \<open>
  The contract of a table of reference-counted elements: \<open>inv\<close> says that the table is in order and
  stands for a map from keys to elements; insertion and removal update the map; a lookup gives what
  the map says.
\<close>

locale keyed_table =
  fixes inv :: "'t \<Rightarrow> ('k \<rightharpoonup> addr) \<Rightarrow> bool"
    and fresh :: "'t \<Rightarrow> addr \<Rightarrow> bool"
    and insert_op :: "'t \<Rightarrow> addr \<Rightarrow> 'k \<Rightarrow> (int \<times> 't) option"
    and remove_op :: "'t \<Rightarrow> addr \<Rightarrow> 't option"
    and lookup_op :: "'t \<Rightarrow> 'k \<Rightarrow> (addr \<times> 't) option"
    and shared :: "'t \<Rightarrow> addr \<Rightarrow> bool"
  assumes insert_new: "inv t M \<Longrightarrow> fresh t he \<Longrightarrow> M key = None \<Longrightarrow>
         \<exists>t'. insert_op t he key = Some (0, t') \<and> inv t' (M(key \<mapsto> he)) \<and> shared t' he"
    and insert_old: "inv t M \<Longrightarrow> fresh t he \<Longrightarrow> M key = Some p \<Longrightarrow> \<exists>t'. insert_op t he key = Some (-1, t') \<and> inv t' M"
    and remove_law: "inv t M \<Longrightarrow> M key = Some p \<Longrightarrow> \<exists>t'. remove_op t p = Some t' \<and> inv t' (M(key := None))"
    and lookup_some: "inv t M \<Longrightarrow> M key = Some p \<Longrightarrow> shared t p \<Longrightarrow> \<exists>t'. lookup_op t key = Some (p, t') \<and> inv t' M"
    and lookup_none: "inv t M \<Longrightarrow> M key = None \<Longrightarrow> lookup_op t key = Some (NULL, t)"
begin

lemma insert_then_lookup:
  assumes "inv t M" "fresh t he" "M key = None"
  shows "\<exists>t1 t2. insert_op t he key = Some (0, t1) \<and> lookup_op t1 key = Some (he, t2) \<and> inv t2 (M(key \<mapsto> he))"
proof -
  obtain t1 where "insert_op t he key = Some (0, t1)" "inv t1 (M(key \<mapsto> he))" "shared t1 he"
    using insert_new [OF assms] by blast
  with lookup_some [of t1 "M(key \<mapsto> he)" key he] show ?thesis by auto
qed

lemma insert_then_remove:
  assumes "inv t M" "fresh t he" "M key = None"
  shows "\<exists>t1 t2. insert_op t he key = Some (0, t1) \<and> remove_op t1 he = Some t2 \<and> inv t2 M
     \<and> lookup_op t2 key = Some (NULL, t2)"
proof -
  obtain t1 where t1: "insert_op t he key = Some (0, t1)" "inv t1 (M(key \<mapsto> he))"
    using insert_new [OF assms] by blast
  then obtain t2 where "remove_op t1 he = Some t2" "inv t2 ((M(key \<mapsto> he))(key := None))"
    using remove_law [of t1 "M(key \<mapsto> he)" key he] by auto
  moreover have "(M(key \<mapsto> he))(key := None) = M" using assms(3) by (simp add: fun_upd_idem)
  ultimately show ?thesis using t1 lookup_none [of _ M key] assms(3) by auto
qed

end

text \<open>A reference can still be added to an element.\<close>

definition ht_inv :: "'k hashtable \<Rightarrow> ('k \<rightharpoonup> addr) \<Rightarrow> bool" where
  "ht_inv h M \<longleftrightarrow> (\<exists>cs. ht_wf h cs \<and> ht_map h cs = M)"

definition ht_spare :: "'k hashtable \<Rightarrow> addr \<Rightarrow> bool" where
  "ht_spare h he \<longleftrightarrow> (\<forall>cs. ht_wf h cs \<longrightarrow> spare h cs he \<and> refs_of h he + 2 < 2 ^ 31)"

definition holdable :: "'k hashtable \<Rightarrow> addr \<Rightarrow> bool" where
  "holdable h p \<longleftrightarrow> refs_of h p + 1 < 2 ^ 31"

interpretation hm: keyed_table ht_inv ht_spare hashtable_hash hashtable_unhash hashtable_lookup holdable
proof (unfold_locales, goal_cases)
  case (1 h M he key)
  then obtain cs where cs: "ht_wf h cs" "ht_map h cs = M" by (auto simp: ht_inv_def)
  then have sp: "spare h cs he" "refs_of h he + 2 < 2 ^ 31" using 1 by (auto simp: ht_spare_def)
  from hash_absent [OF cs(1) sp(1), of key] 1 cs(2) sp(2) show ?case
    unfolding ht_inv_def holdable_def by fastforce
next
  case (2 h M he key p)
  then obtain cs where cs: "ht_wf h cs" "ht_map h cs = M" by (auto simp: ht_inv_def)
  then have sp: "spare h cs he" using 2 by (auto simp: ht_spare_def)
  have "hashtable_hash h he key = Some (-1, labelled h he key)"
    using hash_start [OF cs(1) sp, of key] 2 cs(2) by simp
  then show ?case
    using labelled_ok(1,2) [OF cs(1) sp, of key] cs(2) unfolding ht_inv_def by blast
next
  case (3 h M key p)
  then obtain cs where cs: "ht_wf h cs" "ht_map h cs = M" by (auto simp: ht_inv_def)
  then have "p \<in> set (concat cs)" "key_of h p = key" using ht_map_iff(1) [OF cs(1)] 3 by blast+
  with unhash_present [OF cs(1), of p] cs(2) show ?case unfolding ht_inv_def by blast
next
  case (4 h M key p)
  then obtain cs where cs: "ht_wf h cs" "ht_map h cs = M" by (auto simp: ht_inv_def)
  with lookup_found [OF cs(1), of key p] 4 show ?case unfolding ht_inv_def holdable_def by auto
next
  case (5 h M key)
  then show ?case using lookup_absent by (auto simp: ht_inv_def)
qed

section \<open>Setting a table up\<close>

lemma slot_head_inj: "slot_head h i = slot_head h j \<longleftrightarrow> i = j"
  by (simp add: slot_head_def SLOT_SIZE_def)

text \<open>After \<open>k\<close> of \<open>n\<close> slots.\<close>

definition init_st :: "'k hashtable \<Rightarrow> nat \<Rightarrow> nat \<Rightarrow> lmem \<Rightarrow> 'k hashtable" where
  "init_st h n k m = h\<lparr>ht_nodes := m,
     ht_slots := replicate k (Some \<lparr>sl_count = 0, sl_lock = Unlocked\<rparr>) @ replicate (n - k) None\<rparr>"

definition init_nodes :: "'k hashtable \<Rightarrow> nat \<Rightarrow> nat \<Rightarrow> lmem \<Rightarrow> bool" where
  "init_nodes h n k m \<longleftrightarrow> (\<forall>j < k. dlist m (slot_head h j) []) \<and> (\<forall>j < n. live m (slot_head h j))
     \<and> (\<forall>q. q \<notin> slot_head h ` {0..<n} \<longrightarrow> load m q = load (ht_nodes h) q)"

lemma init_slot_step:
  assumes inv: "init_nodes h n k m" and k: "k < n" "k + 1 < 2 ^ 31"
  shows "\<exists>m'. init_slot k (init_st h n k m) = Some (init_st h n (Suc k) m') \<and> init_nodes h n (Suc k) m'"
proof -
  have "live m (slot_head h k)" using inv k by (simp add: init_nodes_def)
  then obtain m' where m: "INIT_LIST m (slot_head h k) = Some m'" "dlist m' (slot_head h k) []"
      "\<forall>q. q \<noteq> slot_head h k \<longrightarrow> load m' q = load m q" "\<forall>q. live m' q = live m q"
    using INIT_LIST_ok by blast
  have "n - k = Suc (n - Suc k)" using k by simp
  then have s1: "(replicate k (Some \<lparr>sl_count = 0, sl_lock = Unlocked\<rparr>) @ replicate (n - k) None)
        [k := Some \<lparr>sl_count = 0, sl_lock = Unlocked\<rparr>]
      = replicate (Suc k) (Some \<lparr>sl_count = 0, sl_lock = Unlocked\<rparr>) @ replicate (n - Suc k) None"
    by (simp add: list_update_append replicate_append_same)
  have "dlist m' (slot_head h j) []" if "j < Suc k" for j
  proof (cases "j = k")
    case False
    then have "dlist m (slot_head h j) []" "slot_head h j \<noteq> slot_head h k"
      using that inv by (auto simp: init_nodes_def slot_head_inj)
    then show ?thesis using m(3) dlist_frame [of "slot_head h j" "[]" m' m] by simp
  qed (use m(2) in simp)
  moreover have "init_slot k (init_st h n k m) = Some (init_st h n (Suc k) m')"
    using m(1) k s1 by (simp add: init_slot_def awrite_def init_st_def)
  moreover have "load m' q = load (ht_nodes h) q" if "q \<notin> slot_head h ` {0..<n}" for q
  proof -
    have "q \<noteq> slot_head h k" using that k(1) by auto
    then show ?thesis using that m(3) inv by (simp add: init_nodes_def)
  qed
  ultimately show ?thesis
    using m(4) inv by (auto simp: init_nodes_def)
qed

lemma init_slots:
  assumes "init_nodes h n 0 m" "k \<le> n" "n < 2 ^ 31"
  shows "\<exists>m'. for_each init_slot [0..<k] (init_st h n 0 m) = Some (init_st h n k m') \<and> init_nodes h n k m'"
  using assms(2)
proof (induction k)
  case 0
  then show ?case using assms(1) by auto
next
  case (Suc k)
  then obtain m1 where "for_each init_slot [0..<k] (init_st h n 0 m) = Some (init_st h n k m1)" "init_nodes h n k m1"
    by auto
  with init_slot_step [of h n k m1] Suc.prems assms(3) show ?case
    by (auto simp: for_each_append)
qed

lemma init_family:
  assumes "init_nodes h n n m" "n = unat (ht_mask h) + 1"
  shows "dlists m (heads h) (replicate n [])"
  using assms by (simp add: dlists_def heads_nth init_nodes_def slot_head_inj del: replicate_Suc)

section \<open>Visiting all elements\<close>

lemma foreach_count:
  assumes "for_each action xs s = Some s'"
  shows "foreach_list (\<lambda>he (n, s). do { s \<leftarrow> action he s; n \<leftarrow> fit (sint n + 1); Some (False, n, s) }) xs (n :: s32, s)
     = map_option (\<lambda>m. (False, m, s')) (fit (sint n + int (length xs)))"
  using assms
proof (induction xs arbitrary: n s)
  case (Cons x xs)
  then obtain s1 where s1: "action x s = Some s1" "for_each action xs s1 = Some s'" by (auto simp: bind_Some_iff)
  have "-2147483648 \<le> sint n + 1" using in_int_sint [of n] by (simp add: in_int_def)
  from fit_add [OF this, of "int (length xs)"]
  have f: "(fit (sint n + int (length (x # xs))) :: s32 option) = do { m :: s32 \<leftarrow> fit (sint n + 1); fit (sint m + int (length xs)) }"
    by (simp add: algebra_simps)
  show ?case unfolding f using s1 Cons.IH [OF s1(2)] by (cases "fit (sint n + 1) :: s32 option") auto
qed simp

lemma foreach_slot_ok:
  assumes wf: "ht_wf h cs" and i: "i < length cs" and l: "lock Unlocked = Some l" "rw_unlock l = Some Unlocked"
    and act: "for_each action (cs ! i) s = Some s'"
  shows "foreach_slot lock action i (h, n, s) = map_option (\<lambda>m. (h, m, s')) (fit (sint n + int (length (cs ! i))))"
proof -
  note sl = ht_wf_slot [OF wf i]
  have lk: "slot_lock lock h i = Some (locked l h i)"
    using sl(1) l(1) by (intro slot_lock_eq) auto
  have ul: "slot_lock rw_unlock (locked l h i) i = Some h"
    using sl(1) l(2) by (intro unlock_locked) auto
  let ?body = "\<lambda>he (n, s). do { s \<leftarrow> action he s; n \<leftarrow> fit (sint n + 1); Some (False, n :: s32, s) }"
  have run: "do { p \<leftarrow> list_front (ht_nodes h) (slot_head h i); list_foreach (ht_nodes h) (slot_head h i) ?body p (n, s) }
      = map_option (\<lambda>m. (False, m, s')) (fit (sint n + int (length (cs ! i))))"
    using list_foreach_dlist [OF sl(3), of ?body "(n, s)"] foreach_count [OF act, of n] by simp
  show ?thesis
  proof (cases "list_front (ht_nodes h) (slot_head h i)")
    case None
    then show ?thesis using run lk by (simp add: foreach_slot_def)
  next
    case (Some p)
    then show ?thesis
      using run lk ul by (cases "fit (sint n + int (length (cs ! i))) :: s32 option") (simp_all add: foreach_slot_def)
  qed
qed

lemma foreach_slots:
  assumes wf: "ht_wf h cs" and l: "lock Unlocked = Some l" "rw_unlock l = Some Unlocked"
    and act: "for_each action (concat cs) s = Some s'"
  shows "foreach_with lock h (Some action) s = (if length (concat cs) < 2 ^ 31 then Some (int (length (concat cs)), h, s') else None)"
proof -
  have "\<exists>sk. for_each (foreach_slot lock action) [0..<k] (h, 0, s) = map_option (\<lambda>m. (h, m, sk)) (fit (int (length (concat (take k cs)))))
      \<and> for_each action (concat (take k cs)) s = Some sk" if "k \<le> length cs" for k
    using that
  proof (induction k)
    case 0
    then show ?case by (simp add: fit_32 in_int_def)
  next
    case (Suc k)
    then obtain sk where sk: "for_each (foreach_slot lock action) [0..<k] (h, 0, s) = map_option (\<lambda>m. (h, m, sk)) (fit (int (length (concat (take k cs)))))"
        "for_each action (concat (take k cs)) s = Some sk" by auto
    have ts: "concat (take (Suc k) cs) = concat (take k cs) @ cs ! k"
      using Suc.prems by (simp add: take_Suc_conv_app_nth)
    have "concat cs = concat (take (Suc k) cs) @ concat (drop (Suc k) cs)"
      by (metis append_take_drop_id concat_append)
    then have "\<exists>s2. for_each action (cs ! k) sk = Some s2"
      using act sk(2) ts by (auto simp: for_each_append bind_Some_iff)
    then obtain s2 where s2: "for_each action (cs ! k) sk = Some s2" by blast
    let ?a = "int (length (concat (take k cs)))"
    have f: "(fit (int (length (concat (take (Suc k) cs)))) :: s32 option) = do { m :: s32 \<leftarrow> fit ?a; fit (sint m + int (length (cs ! k))) }"
      unfolding ts by (subst fit_add) simp_all
    have "for_each (foreach_slot lock action) [0..<Suc k] (h, 0, s)
        = map_option (\<lambda>m. (h, m, s2)) (fit (int (length (concat (take (Suc k) cs)))))"
      unfolding f using sk(1) foreach_slot_ok [of h cs k lock l action sk s2] wf l s2 Suc.prems
      by (cases "fit ?a :: s32 option") (simp_all add: for_each_append del: length_concat)
    moreover have "for_each action (concat (take (Suc k) cs)) s = Some s2"
      unfolding ts using sk(2) s2 by (simp add: for_each_append)
    ultimately show ?case by blast
  qed
  from this [of "length cs"] act have all: "for_each (foreach_slot lock action) [0..<length cs] (h, 0, s) = map_option (\<lambda>m. (h, m, s')) (fit (int (length (concat cs))))"
    by auto
  have "ht_mask h \<noteq> -1"
    using ht_wfD(2) [OF wf] by (auto simp: unsigned_minus_1_eq_mask mask_eq_exp_minus_1)
  then have run: "foreach_with lock h (Some action) s = map_option (\<lambda>m :: s32. (sint m, h, s')) (fit (int (length (concat cs))))"
    using all ht_wfD(1) [OF wf] by (cases "fit (int (length (concat cs))) :: s32 option") (simp_all add: foreach_with_def del: upt_Suc)
  have "in_int (int (length (concat cs))) \<longleftrightarrow> length (concat cs) < 2 ^ 31" by (auto simp: in_int_def simp del: length_concat)
  then show ?thesis unfolding run using fit_int [of "int (length (concat cs))"] by (auto simp del: length_concat)
qed

section \<open>Taking a table down\<close>

text \<open>What dropping the table's reference does to the elements \<open>ps\<close>.\<close>

definition dropped :: "'k hashtable \<Rightarrow> addr list \<Rightarrow> 'k hashtable \<Rightarrow> bool" where
  "dropped h ps h' \<longleftrightarrow>
     ht_freed h' = ht_freed h @ filter (\<lambda>p. refs_of h p = 1 \<and> ht_freefn h) ps
     \<and> (\<forall>q. q \<notin> set ps \<longrightarrow> load (ht_elms h') q = load (ht_elms h) q)
     \<and> (\<forall>p \<in> set ps. if refs_of h p = 1 \<and> ht_freefn h then load (ht_elms h') p = None
          else load (ht_elms h') p \<noteq> None \<and> refs_of h' p = refs_of h p - 1)"

definition droppable :: "'k hashtable \<Rightarrow> addr list \<Rightarrow> bool" where
  "droppable h ps \<longleftrightarrow> distinct ps \<and> (\<forall>p \<in> set ps. (\<exists>e. load (ht_elms h) p = Some e \<and> he_ht e = Some (ht_self h))
     \<and> 0 < refs_of h p \<and> refs_of h p < 2 ^ 31)"

lemma refs_of_load: "load (ht_elms h') p = load (ht_elms h) p \<Longrightarrow> refs_of h' p = refs_of h p"
  by (simp add: refs_of_def)

lemma dropped_step:
  assumes p: "droppable h (p # ps)" and d: "dropped (put_state (h\<lparr>ht_nodes := m\<rparr>) p) ps h'"
  shows "dropped h (p # ps) h'"
proof -
  let ?h = "h\<lparr>ht_nodes := m\<rparr>" and ?g = "put_state (h\<lparr>ht_nodes := m\<rparr>) p"
  obtain e where e: "load (ht_elms h) p = Some e" "0 < refs_of h p" using p by (auto simp: droppable_def)
  have r: "refs_of ?h = refs_of h" by (simp add: refs_of_def fun_eq_iff)
  have np: "p \<notin> set ps" using p by (simp add: droppable_def)
  have o: "refs_of ?g q = refs_of h q" if "q \<in> set ps" for q
    using put_state_other(3) [of q p ?h] np that r by metis
  have f: "filter (\<lambda>q. refs_of ?g q = 1 \<and> ht_freefn ?g) ps = filter (\<lambda>q. refs_of h q = 1 \<and> ht_freefn h) ps"
    using o by (intro filter_cong) auto
  have l: "load (ht_elms h') p = load (ht_elms ?g) p" using d np by (simp add: dropped_def)
  have "load (ht_elms h') q = load (ht_elms h) q" if "q \<notin> set (p # ps)" for q
    using d that put_state_other(1) [of q p ?h] by (simp add: dropped_def)
  moreover have "if refs_of h q = 1 \<and> ht_freefn h then load (ht_elms h') q = None
          else load (ht_elms h') q \<noteq> None \<and> refs_of h' q = refs_of h q - 1" if "q \<in> set (p # ps)" for q
  proof (cases "q = p")
    case True
    then show ?thesis
      using put_state_self [of ?h p e] e l refs_of_load [OF l] r by auto
  next
    case False
    then have "q \<in> set ps" using that by simp
    then show ?thesis using d o by (auto simp: dropped_def)
  qed
  ultimately show ?thesis
    using d f r by (simp add: dropped_def)
qed

lemma droppable_step: "droppable h (p # ps) \<Longrightarrow> droppable (put_state (h\<lparr>ht_nodes := m\<rparr>) p) ps"
proof -
  assume d: "droppable h (p # ps)"
  let ?g = "put_state (h\<lparr>ht_nodes := m\<rparr>) p"
  have l: "load (ht_elms ?g) q = load (ht_elms h) q" if "q \<in> set ps" for q
    using d that put_state_other(1) [of q p "h\<lparr>ht_nodes := m\<rparr>"] by (auto simp: droppable_def)
  then have "refs_of ?g q = refs_of h q" if "q \<in> set ps" for q
    using refs_of_load that by blast
  with l show ?thesis
    using d by (simp add: droppable_def)
qed

text \<open>The fields that taking elements out of slots leaves alone.\<close>

definition same_frame :: "'k hashtable \<Rightarrow> 'k hashtable \<Rightarrow> bool" where
  "same_frame h h' \<longleftrightarrow> ht_self h' = ht_self h \<and> ht_table h' = ht_table h \<and> ht_mask h' = ht_mask h
     \<and> ht_count h' = ht_count h \<and> ht_freefn h' = ht_freefn h"

lemma same_frame_geometry: "same_frame h h' \<Longrightarrow> slot_head h' = slot_head h \<and> heads h' = heads h"
  by (simp add: same_frame_def slot_head_def heads_def fun_eq_iff)

lemma drain_slot_ok:
  assumes "dlists (ht_nodes h) (heads h) cs" "i < length cs" "length cs = unat (ht_mask h) + 1" "droppable h (cs ! i)"
  shows "\<exists>h'. drain_slot i h = Some h' \<and> dlists (ht_nodes h') (heads h) (cs[i := []]) \<and> dropped h (cs ! i) h'
     \<and> same_frame h h' \<and> ht_slots h' = ht_slots h"
  using assms
proof (induction "cs ! i" arbitrary: h cs)
  case Nil
  have "dlist (ht_nodes h) (slot_head h i) []"
    using dlistsD(2) [OF Nil.prems(1), of i] Nil by (simp add: heads_nth)
  moreover have "cs[i := []] = cs" using Nil.hyps Nil.prems(2) by (metis list_update_id)
  ultimately show ?case
    using Nil.prems(1) Nil.hyps by (subst drain_slot.simps)
      (auto simp: list_empty_dlist dropped_def same_frame_def)
next
  case (Cons p ps)
  have hd: "heads h ! i = slot_head h i" using Cons.prems by (simp add: heads_nth)
  have d: "dlist (ht_nodes h) (slot_head h i) (p # ps)"
    using dlistsD(2) [OF Cons.prems(1), of i] Cons.prems(2,3) Cons.hyps(2) hd by simp
  obtain m where m: "list_del (ht_nodes h) p = Some m" "dlists m (heads h) (cs[i := ps])"
    using ll.del_law [OF Cons.prems(1), of i "[]" p ps] Cons.prems(2,3) Cons.hyps(2) by auto
  have np: "p \<notin> all_nodes (heads h) (cs[i := ps])"
    using ll.rep_once [OF Cons.prems(1), of i "[]" p ps] Cons.prems(2,3) Cons.hyps(2) by simp
  have dr: "droppable h (p # ps)" using Cons.prems(4) Cons.hyps(2) by simp
  let ?g = "put_state (h\<lparr>ht_nodes := m\<rparr>) p"
  obtain e where e: "load (ht_elms h) p = Some e" "he_ht e = Some (ht_self h)" "0 < refs_of h p" "refs_of h p < 2 ^ 31"
    using dr by (auto simp: droppable_def)
  have "refs_of (h\<lparr>ht_nodes := m\<rparr>) p = refs_of h p" by (simp add: refs_of_def)
  then have "hashelm_put (h\<lparr>ht_nodes := m\<rparr>) p = Some ?g"
    using e by (intro put_eq [where e = e]) auto
  then have run: "drain_slot i h = drain_slot i ?g"
    using m(1) d by (subst drain_slot.simps) (simp add: list_empty_dlist list_front_dlist)
  have "\<forall>q \<in> all_nodes (heads h) (cs[i := ps]). load (ht_nodes ?g) q = load m q"
  proof
    fix q assume "q \<in> all_nodes (heads h) (cs[i := ps])"
    then have "q \<noteq> p" using np by blast
    then show "load (ht_nodes ?g) q = load m q"
      using put_state_other(2) [of q p "h\<lparr>ht_nodes := m\<rparr>"] by simp
  qed
  then have dg: "dlists (ht_nodes ?g) (heads ?g) (cs[i := ps])"
    using dlists_frame [OF m(2)] by simp
  have ps: "ps = cs[i := ps] ! i" using Cons.prems(2) by simp
  obtain h' where h': "drain_slot i ?g = Some h'" "dlists (ht_nodes h') (heads ?g) (cs[i := []])" "dropped ?g ps h'"
      "same_frame ?g h'" "ht_slots h' = ht_slots ?g"
    using Cons.hyps(1) [OF ps dg] Cons.prems(2,3) droppable_step [OF dr, of m] ps by auto
  have "same_frame h ?g" by (simp add: same_frame_def put_state_def Let_def call_freefn_def)
  then show ?case
    using run h' dropped_step [OF dr h'(3)] Cons.hyps(2) by (auto simp: same_frame_def)
qed

lemma dropped_append:
  assumes d1: "dropped h xs g" and d2: "dropped g ys h'" and dis: "set xs \<inter> set ys = {}" and f: "ht_freefn g = ht_freefn h"
  shows "dropped h (xs @ ys) h'"
proof -
  have r1: "refs_of g q = refs_of h q" if "q \<in> set ys" for q
    using d1 dis that by (intro refs_of_load) (auto simp: dropped_def)
  have r2: "refs_of h' q = refs_of g q" "load (ht_elms h') q = load (ht_elms g) q" if "q \<in> set xs" for q
    using d2 dis that by (auto simp: dropped_def intro!: refs_of_load)
  have "filter (\<lambda>p. refs_of g p = 1 \<and> ht_freefn g) ys = filter (\<lambda>p. refs_of h p = 1 \<and> ht_freefn h) ys"
    using r1 f by (intro filter_cong) auto
  moreover have "if refs_of h q = 1 \<and> ht_freefn h then load (ht_elms h') q = None
          else load (ht_elms h') q \<noteq> None \<and> refs_of h' q = refs_of h q - 1" if "q \<in> set (xs @ ys)" for q
  proof (cases "q \<in> set xs")
    case True
    then show ?thesis using d1 r2 [OF True] by (simp add: dropped_def)
  next
    case False
    then have "q \<in> set ys" using that by simp
    then show ?thesis using d2 r1 f by (auto simp: dropped_def)
  qed
  ultimately show ?thesis
    using d1 d2 unfolding dropped_def by auto
qed

lemma dlist_nil_load: "dlist m a [] \<Longrightarrow> load m a = Some \<lparr>lprev = a, lnext = a\<rparr>"
  by (auto simp: dlist_def nxt_def prv_def)

lemma fini_slot_ok:
  assumes dl: "dlists (ht_nodes h) (heads h) cs" and i: "i < length cs" "length cs = unat (ht_mask h) + 1" "i + 1 < 2 ^ 31"
    and s: "aread (ht_slots h) i = Some s" "sl_lock s = Unlocked" and dr: "droppable h (cs ! i)"
  shows "\<exists>h'. fini_slot i h = Some h' \<and> dlists (ht_nodes h') (heads h) (cs[i := []]) \<and> dropped h (cs ! i) h'
     \<and> same_frame h h' \<and> ht_slots h' = (ht_slots h)[i := Some \<lparr>sl_count = 0, sl_lock = Unlocked\<rparr>]"
proof -
  let ?l = "locked Write_locked h i"
  have il: "i < length (ht_slots h)" using s(1) by (auto simp: aread_def split: if_splits)
  have lk: "slot_lock wr_lock h i = Some ?l" using s by (intro slot_lock_eq) auto
  have hl: "heads ?l = heads h" by (simp add: locked_def)
  obtain g where g: "drain_slot i ?l = Some g" "dlists (ht_nodes g) (heads h) (cs[i := []])" "dropped ?l (cs ! i) g"
      "same_frame ?l g" "ht_slots g = ht_slots ?l"
    using drain_slot_ok [of ?l cs i] dl i dr hl by (auto simp: droppable_def refs_of_def)
  have sh: "slot_head g = slot_head h" using same_frame_geometry [OF g(4)] by (simp add: fun_eq_iff)
  have dn: "dlist (ht_nodes g) (slot_head h i) []"
    using dlistsD(2) [OF g(2), of i] i by (simp add: heads_nth)
  then obtain m where m: "INIT_LIST (ht_nodes g) (slot_head h i) = Some m" "dlist m (slot_head h i) []"
      "\<forall>q. q \<noteq> slot_head h i \<longrightarrow> load m q = load (ht_nodes g) q"
    using INIT_LIST_ok [of "ht_nodes g" "slot_head h i"] dlist_live [of "ht_nodes g" "slot_head h i" "[]" "slot_head h i"] by auto
  have "load m q = load (ht_nodes g) q" for q
    using m(3) dlist_nil_load [OF m(2)] dlist_nil_load [OF dn] by (cases "q = slot_head h i") auto
  then have dm: "dlists m (heads h) (cs[i := []])"
    using dlists_frame [OF g(2)] by blast
  let ?ss = "(ht_slots h)[i := Some (s\<lparr>sl_lock := Write_locked, sl_count := 0\<rparr>)]"
  let ?h' = "g\<lparr>ht_nodes := m, ht_slots := (ht_slots h)[i := Some \<lparr>sl_count = 0, sl_lock = Unlocked\<rparr>]\<rparr>"
  have "slot_count_upd (\<lambda>_. 0) (g\<lparr>ht_nodes := m\<rparr>) i = Some (g\<lparr>ht_nodes := m, ht_slots := ?ss\<rparr>)"
    using s(1) il g(5) by (simp add: slot_count_upd_def locked_def arr_simps)
  moreover have "slot_lock rw_unlock (g\<lparr>ht_nodes := m, ht_slots := ?ss\<rparr>) i = Some ?h'"
    using il slot_unlock_upd [where h = "g\<lparr>ht_nodes := m, ht_slots := ?ss\<rparr>" and ss = "ht_slots h" and i = i and s = s and c = 0] by simp
  ultimately have "fini_slot i h = Some ?h'"
    using i(3) lk g(1) m(1) sh by (simp add: fini_slot_def)
  moreover have "dropped h (cs ! i) ?h'"
  proof -
    have "refs_of ?l = refs_of h" "refs_of ?h' = refs_of g" by (simp_all add: refs_of_def fun_eq_iff)
    then show ?thesis using g(3) unfolding dropped_def by simp
  qed
  moreover have "same_frame h ?h'"
    using g(4) by (simp add: same_frame_def)
  ultimately show ?thesis using dm by auto
qed

lemma fini_loop:
  assumes wf: "ht_wf h cs" and k: "k \<le> length cs"
  shows "\<exists>g. for_each fini_slot [0..<k] h = Some g \<and> dlists (ht_nodes g) (heads h) (replicate k [] @ drop k cs)
     \<and> dropped h (concat (take k cs)) g \<and> same_frame h g \<and> (\<forall>j. k \<le> j \<longrightarrow> aread (ht_slots g) j = aread (ht_slots h) j)"
  using k
proof (induction k)
  case 0
  then show ?case using ht_wfD(3) [OF wf] by (simp add: dropped_def same_frame_def)
next
  case (Suc k)
  then obtain g where g: "for_each fini_slot [0..<k] h = Some g" "dlists (ht_nodes g) (heads h) (replicate k [] @ drop k cs)"
      "dropped h (concat (take k cs)) g" "same_frame h g" "\<forall>j. k \<le> j \<longrightarrow> aread (ht_slots g) j = aread (ht_slots h) j"
    by auto
  have kl: "k < length cs" using Suc.prems by simp
  note len = ht_wfD(1) [OF wf]
  let ?cs = "replicate k [] @ drop k cs"
  have nth: "?cs ! k = cs ! k" "?cs[k := []] = replicate (Suc k) [] @ drop (Suc k) cs"
  proof -
    have "drop k cs = cs ! k # drop (Suc k) cs" using kl by (simp add: Cons_nth_drop_Suc)
    then show "?cs ! k = cs ! k" "?cs[k := []] = replicate (Suc k) [] @ drop (Suc k) cs"
      by (simp_all add: nth_append list_update_append replicate_append_same)
  qed
  have "concat cs = concat (take k cs) @ cs ! k @ concat (drop (Suc k) cs)"
    using kl by (metis append_take_drop_id concat_append Cons_nth_drop_Suc concat.simps(2))
  moreover have "distinct (concat cs)" using ht_wfD(5) [OF wf] by (simp add: distinct_map del: distinct_concat)
  ultimately have dis: "set (concat (take k cs)) \<inter> set (cs ! k) = {}" "distinct (cs ! k)"
    by (auto simp del: set_concat)
  have same: "load (ht_elms g) p = load (ht_elms h) p" "refs_of g p = refs_of h p" if "p \<in> set (cs ! k)" for p
  proof -
    have "p \<notin> set (concat (take k cs))" using dis(1) that by blast
    then show "load (ht_elms g) p = load (ht_elms h) p" using g(3) unfolding dropped_def by blast
    then show "refs_of g p = refs_of h p" by (rule refs_of_load)
  qed
  have "ht_self g = ht_self h" using g(4) by (simp add: same_frame_def)
  then have "droppable g (cs ! k)"
    using same ht_wfD(4) [OF wf kl] dis(2) unfolding droppable_def elm_ok_def by fastforce
  moreover have "aread (ht_slots g) k = Some \<lparr>sl_count = of_nat (length (cs ! k)), sl_lock = Unlocked\<rparr>"
    using g(5) ht_wf_slot(1) [OF wf kl] by simp
  moreover have "heads g = heads h" using same_frame_geometry [OF g(4)] by simp
  moreover have "ht_mask g = ht_mask h" using g(4) by (simp add: same_frame_def)
  ultimately obtain h' where h': "fini_slot k g = Some h'" "dlists (ht_nodes h') (heads h) (?cs[k := []])"
      "dropped g (cs ! k) h'" "same_frame g h'" "ht_slots h' = (ht_slots g)[k := Some \<lparr>sl_count = 0, sl_lock = Unlocked\<rparr>]"
    using fini_slot_ok [of g ?cs k] g(2) kl len ht_wfD(2) [OF wf] nth by auto
  have "concat (take (Suc k) cs) = concat (take k cs) @ cs ! k"
    using kl by (simp add: take_Suc_conv_app_nth)
  then have "dropped h (concat (take (Suc k) cs)) h'"
    using dropped_append [OF g(3) h'(3) dis(1)] g(4) by (simp add: same_frame_def)
  moreover have "aread (ht_slots h') j = aread (ht_slots h) j" if "Suc k \<le> j" for j
    using g(5) h'(5) that by (simp add: arr_simps)
  ultimately show ?case
    using g(1,4) h'(1,2,4) nth(2) by (simp add: for_each_append same_frame_def)
qed

section \<open>Properties\<close>

lemma hashtable_init_zero:
  assumes "base \<noteq> NULL"
  shows "hashtable_init self base 0 hashfn equalfn freefn nodes elms = None"
proof -
  have "[0..<unat (-1 :: u32) + 1] = 0 # [1..<unat (-1 :: u32) + 1]" by (simp add: upt_conv_Cons del: upt_Suc)
  moreover have "init_slot 0 g = None" if "ht_slots g = []" for g :: "'a hashtable"
    using that by (simp add: init_slot_def awrite_def)
  ultimately show ?thesis using assms by (simp add: hashtable_init_def Let_def del: upt_Suc)
qed

text \<open>
  C6: \<open>hashtable_init\<close>. Without memory it returns \<open>-1\<close>. With a size between \<open>1\<close> and \<open>2\<^sup>3\<^sup>1 - 1\<close> and a
  comparison by key it returns \<open>0\<close> and the table is well formed and empty: every slot has an empty list and a
  count of zero, and no key has an element. \<open>hashtable_count\<close> of the empty table is \<open>1\<close>, not \<open>0\<close>. With
  size zero the mask wraps to all ones and the first write goes beyond the block.
\<close>

theorem hashtable_init_correct:
  assumes "\<forall>e k. equalfn e k \<longleftrightarrow> he_key e = k" "0 < sz" "unat sz < 2 ^ 31" "base \<noteq> NULL"
  shows "\<exists>h. hashtable_init self base sz hashfn equalfn freefn nodes elms = Some (0, h)
       \<and> ht_wf h (replicate (unat sz) []) \<and> ht_map h (replicate (unat sz) []) = Map.empty \<and> hashtable_count h = 1
       \<and> ht_mask h = sz - 1 \<and> ht_elms h = elms \<and> (\<forall>q. q \<notin> set (heads h) \<longrightarrow> load (ht_nodes h) q = load nodes q)
     \<and> map_option fst (hashtable_init self NULL sz hashfn equalfn freefn nodes elms) = Some (-1)
     \<and> hashtable_init self base 0 hashfn equalfn freefn nodes elms = None"
proof -
  have z: "0 < unat sz" using assms(2) by (simp add: unat_gt_0 word_neq_0_conv)
  define n where "n = unat sz"
  have mk: "unat (sz - 1) + 1 = n" using unat_minus1_32 [OF z] z by (simp add: n_def)
  define heads0 where "heads0 = (\<lambda>j. base + j * SLOT_SIZE) ` {0..<n}"
  define m where "m = (\<lambda>p. if p \<in> heads0 then Some \<lparr>lprev = NULL, lnext = NULL\<rparr> else nodes p)"
  define h where "h = \<lparr>ht_self = self, ht_table = base, ht_mask = sz - 1, ht_count = \<lparr>at_value = 1\<rparr>, ht_hashfn = hashfn,
     ht_equalfn = equalfn, ht_freefn = freefn, ht_slots = [], ht_nodes = nodes, ht_elms = elms, ht_freed = []\<rparr>"
  have sh: "slot_head h = (\<lambda>j. base + j * SLOT_SIZE)" by (simp add: h_def slot_head_def fun_eq_iff)
  have "init_nodes h n 0 m"
    unfolding init_nodes_def sh using assms(4)
    by (auto simp: live_def load_def m_def heads0_def h_def)
  then obtain m' where m': "for_each init_slot [0..<n] (init_st h n 0 m) = Some (init_st h n n m')" "init_nodes h n n m'"
    using init_slots [of h n m n] assms(3) by (auto simp: n_def)
  have hd: "heads (init_st h n n m') = heads h" by (simp add: init_st_def)
  have n1: "n = unat (ht_mask h) + 1" using mk by (simp add: h_def)
  have run: "hashtable_init self base sz hashfn equalfn freefn nodes elms = Some (0, init_st h n n m')"
  proof -
    have "init_st h n 0 m = \<lparr>ht_self = self, ht_table = base, ht_mask = sz - 1, ht_count = \<lparr>at_value = 1\<rparr>, ht_hashfn = hashfn,
       ht_equalfn = equalfn, ht_freefn = freefn, ht_slots = replicate n None, ht_nodes = m, ht_elms = elms, ht_freed = []\<rparr>"
      by (simp add: init_st_def h_def)
    then show ?thesis
      using m'(1) mk assms(4) unfolding hashtable_init_def Let_def
      by (simp add: slot_head_def atomic_set_def m_def heads0_def n_def del: upt_Suc)
  qed
  have g: "unat (ht_mask (init_st h n n m')) + 1 = n" "ht_nodes (init_st h n n m') = m'" "keyed (init_st h n n m')"
      "ht_slots (init_st h n n m') = replicate n (Some \<lparr>sl_count = 0, sl_lock = Unlocked\<rparr>)" "at_value (ht_count (init_st h n n m')) = 1"
    using mk assms(1) by (simp_all add: init_st_def h_def keyed_def)
  have "set (replicate n [] ! i) = {}" if "i < n" for i using that by simp
  then have "ht_wf (init_st h n n m') (replicate n [])"
    using g hd init_family [OF m'(2) n1] assms(3)
    by (simp add: ht_wf_def n_def [symmetric] map_replicate_const del: replicate_Suc)
  moreover have "\<forall>q. q \<notin> set (heads h) \<longrightarrow> load m' q = load nodes q"
    using m'(2) n1 by (simp add: init_nodes_def heads_def h_def del: upt_Suc)
  moreover have "ht_map (init_st h n n m') (replicate n []) = Map.empty"
    by (simp add: ht_map_def fun_eq_iff)
  ultimately have ok: "ht_wf (init_st h n n m') (replicate n [])" "ht_map (init_st h n n m') (replicate n []) = Map.empty"
      "\<forall>q. q \<notin> set (heads (init_st h n n m')) \<longrightarrow> load (ht_nodes (init_st h n n m')) q = load nodes q"
    using hd by (simp_all add: init_st_def)
  show ?thesis
    using run ok hashtable_init_zero [OF assms(4), of self hashfn equalfn freefn nodes elms]
    by (auto simp: n_def [symmetric] hashtable_count_def init_st_def h_def hashtable_init_def Let_def)
qed

lemma member_hashed:
  assumes wf: "ht_wf h cs" and p: "p \<in> set (concat cs)"
  shows "hashelm_hashed h p = Some True"
proof -
  obtain i where i: "i < length cs" "p \<in> set (cs ! i)" using p in_concat by metis
  obtain xs ys where c: "cs ! i = xs @ p # ys" using split_list [OF i(2)] by blast
  have d: "dlist (ht_nodes h) (slot_head h i) (xs @ p # ys)"
    using ht_wf_slot(3) [OF wf i(1)] c by simp
  then have "linked (ht_nodes h) p ys (slot_head h i)" "p \<noteq> slot_head h i" "p \<notin> set ys"
    by (auto simp: dlist_def linked_append)
  then have "nxt (ht_nodes h) p = Some (hd (ys @ [slot_head h i]))" "hd (ys @ [slot_head h i]) \<noteq> p"
    using linked_ends [of "ht_nodes h" p ys "slot_head h i"] by (auto simp: hd_append)
  then show ?thesis
    by (auto simp: hashelm_hashed_def list_empty_def dest!: nxt_load)
qed

text \<open>
  C1: \<open>hashtable_hash\<close>. An initialised element that is in no list is put at the front of its slot if the key is
  new: the result is \<open>0\<close>, the table is well formed and maps the key to the element, the element has one
  reference more and the count is one higher. If the key is taken the result is \<open>-1\<close> and the table maps as before,
  but the element has been given the key. An element that is hashed already gives \<open>-1\<close> and nothing changes.
\<close>

theorem hashtable_hash_correct:
  fixes key :: 'k and he :: addr
  assumes "ht_wf h cs"
  defines "c \<equiv> cs[get_slot h (ht_hashfn h key) := he # cs ! get_slot h (ht_hashfn h key)]"
  shows "(spare h cs he \<and> ht_map h cs key = None \<longrightarrow>
        (\<exists>h'. hashtable_hash h he key = Some (0, h') \<and> ht_wf h' c \<and> ht_map h' c = (ht_map h cs)(key \<mapsto> he)
           \<and> refs_of h' = (refs_of h)(he := refs_of h he + 1) \<and> hashtable_count h' = hashtable_count h + 1))
     \<and> (spare h cs he \<and> ht_map h cs key \<noteq> None \<longrightarrow>
        (\<exists>h'. hashtable_hash h he key = Some (-1, h') \<and> ht_wf h' cs \<and> ht_map h' cs = ht_map h cs \<and> key_of h' he = key
           \<and> (\<forall>q. refs_of h' q = refs_of h q) \<and> hashtable_count h' = hashtable_count h))
     \<and> (he \<in> set (concat cs) \<longrightarrow> hashtable_hash h he key = Some (-1, h))"
proof (intro conjI impI)
  assume a: "spare h cs he \<and> ht_map h cs key = None"
  then obtain h' where "hashtable_hash h he key = Some (0, h')" "ht_wf h' c" "ht_map h' c = (ht_map h cs)(key \<mapsto> he)"
      "refs_of h' = (refs_of h)(he := refs_of h he + 1)" "length (concat c) = length (concat cs) + 1"
    using hash_absent [OF assms(1), of he key] unfolding c_def by blast
  then show "\<exists>h'. hashtable_hash h he key = Some (0, h') \<and> ht_wf h' c \<and> ht_map h' c = (ht_map h cs)(key \<mapsto> he)
      \<and> refs_of h' = (refs_of h)(he := refs_of h he + 1) \<and> hashtable_count h' = hashtable_count h + 1"
    using ht_wfD(6) [OF assms(1)] ht_wfD(6) [of h' c] by (auto simp: hashtable_count_def simp del: length_concat)
next
  assume a: "spare h cs he \<and> ht_map h cs key \<noteq> None"
  then have sp: "spare h cs he" by simp
  then have "key_of (labelled h he key) he = key"
    by (auto simp: key_of_def labelled_def spare_def mem_simps dest: load_SomeD)
  then show "\<exists>h'. hashtable_hash h he key = Some (-1, h') \<and> ht_wf h' cs \<and> ht_map h' cs = ht_map h cs \<and> key_of h' he = key
      \<and> (\<forall>q. refs_of h' q = refs_of h q) \<and> hashtable_count h' = hashtable_count h"
    using a hash_start [OF assms(1) sp, where key = key] labelled_ok [OF assms(1) sp, where key = key]
    by (simp add: hashtable_count_def)
next
  assume "he \<in> set (concat cs)"
  from member_hashed [OF assms(1) this] have "list_empty (ht_nodes h) he = Some False"
    by (auto simp: hashelm_hashed_def)
  then show "hashtable_hash h he key = Some (-1, h)" by (simp add: hashtable_hash_def)
qed

text \<open>
  C2: \<open>hashtable_lookup\<close> returns the element of the key, with one reference more, or \<open>NULL\<close> if the
  key has none; the mapping and the count stay.
\<close>

theorem hashtable_lookup_correct:
  assumes "ht_wf h cs" "\<forall>p \<in> set (concat cs). refs_of h p + 1 < 2 ^ 31"
  shows "(\<forall>p. ht_map h cs key = Some p \<longrightarrow> (\<exists>h'. hashtable_lookup h key = Some (p, h') \<and> ht_wf h' cs \<and> ht_map h' cs = ht_map h cs
          \<and> refs_of h' = (refs_of h)(p := refs_of h p + 1) \<and> hashtable_count h' = hashtable_count h))
     \<and> (ht_map h cs key = None \<longrightarrow> hashtable_lookup h key = Some (NULL, h))"
proof (intro conjI allI impI)
  fix p assume p: "ht_map h cs key = Some p"
  have "p \<in> set (concat cs)" using p ht_map_iff(1) [OF assms(1)] by blast
  then have "refs_of h p + 1 < 2 ^ 31" using assms(2) by blast
  from lookup_found [OF assms(1) p this]
  show "\<exists>h'. hashtable_lookup h key = Some (p, h') \<and> ht_wf h' cs \<and> ht_map h' cs = ht_map h cs
      \<and> refs_of h' = (refs_of h)(p := refs_of h p + 1) \<and> hashtable_count h' = hashtable_count h"
    by (auto simp: hashtable_count_def fun_eq_iff)
qed (rule lookup_absent [OF assms(1)])

text \<open>
  C3: \<open>hashtable_unhash\<close> of an element of the table removes exactly its key and drops the table's
  reference: if it was the last one and there is a free function, the element is freed, once; otherwise it stays alive
  with one reference less. The count is one lower and all other elements keep their references.
\<close>

theorem hashtable_unhash_correct:
  assumes "ht_wf h cs" "p \<in> set (concat cs)"
  shows "\<exists>h' cs'. hashtable_unhash h p = Some h' \<and> ht_wf h' cs' \<and> ht_map h' cs' = (ht_map h cs)(key_of h p := None)
     \<and> hashtable_count h' = hashtable_count h - 1 \<and> (\<forall>q. q \<noteq> p \<longrightarrow> refs_of h' q = refs_of h q)
     \<and> (if refs_of h p = 1 \<and> ht_freefn h then ht_freed h' = ht_freed h @ [p] \<and> load (ht_elms h') p = None
        else ht_freed h' = ht_freed h \<and> load (ht_elms h') p \<noteq> None \<and> refs_of h' p = refs_of h p - 1)"
proof -
  obtain h' cs' where h': "hashtable_unhash h p = Some h'" "ht_wf h' cs'" "ht_map h' cs' = (ht_map h cs)(key_of h p := None)"
      "length (concat cs) = length (concat cs') + 1" "\<forall>q. q \<noteq> p \<longrightarrow> refs_of h' q = refs_of h q"
      "if refs_of h p = 1 \<and> ht_freefn h then ht_freed h' = ht_freed h @ [p] \<and> load (ht_elms h') p = None
        else ht_freed h' = ht_freed h \<and> load (ht_elms h') p \<noteq> None \<and> refs_of h' p = refs_of h p - 1"
    using unhash_present [OF assms] by blast
  have "hashtable_count h' = hashtable_count h - 1"
    using ht_wfD(6) [OF assms(1)] ht_wfD(6) [OF h'(2)] h'(4) by (simp add: hashtable_count_def del: length_concat)
  then show ?thesis using h' by blast
qed

text \<open>
  A table is a map: an element hashed under a new key is what a lookup of that key returns; hashing it
  and unhashing it again leaves the mapping as it was, and the key has no element then.
\<close>

theorem hashtable_roundtrip:
  assumes "ht_inv h M" "ht_spare h he" "M key = None"
  shows "(\<exists>h1 h2. hashtable_hash h he key = Some (0, h1) \<and> hashtable_lookup h1 key = Some (he, h2) \<and> ht_inv h2 (M(key \<mapsto> he)))
     \<and> (\<exists>h1 h2. hashtable_hash h he key = Some (0, h1) \<and> hashtable_unhash h1 he = Some h2 \<and> ht_inv h2 M
          \<and> hashtable_lookup h2 key = Some (NULL, h2))"
  using hm.insert_then_lookup [OF assms] hm.insert_then_remove [OF assms] by blast

text \<open>
  C7: \<open>hashtable_foreach\<close> and \<open>hashtable_foreach_read\<close> on a table of fewer than \<open>2\<^sup>3\<^sup>1\<close> elements run the action once on every element, slot by slot, return the number of
  elements and leave all locks free; with more elements the counter overflows. Without an action they return \<open>-1\<close>.
\<close>

theorem hashtable_foreach_correct:
  assumes "ht_wf h cs" "for_each action (concat cs) s = Some s'"
  shows "(length (concat cs) < 2 ^ 31 \<longrightarrow> hashtable_foreach h (Some action) s = Some (int (length (concat cs)), h, s')
        \<and> hashtable_foreach_read h (Some action) s = Some (int (length (concat cs)), h, s'))
     \<and> (2 ^ 31 \<le> length (concat cs) \<longrightarrow> hashtable_foreach h (Some action) s = None \<and> hashtable_foreach_read h (Some action) s = None)
     \<and> hashtable_foreach h None s = Some (-1, h, s) \<and> hashtable_foreach_read h None s = Some (-1, h, s)"
proof -
  have "foreach_with wr_lock h (Some action) s = (if length (concat cs) < 2 ^ 31 then Some (int (length (concat cs)), h, s') else None)"
    by (rule foreach_slots [OF assms(1) _ _ assms(2), where l = Write_locked]) simp_all
  moreover have "foreach_with rd_lock h (Some action) s = (if length (concat cs) < 2 ^ 31 then Some (int (length (concat cs)), h, s') else None)"
    by (rule foreach_slots [OF assms(1) _ _ assms(2), where l = "Read_locked 1"]) simp_all
  moreover have "foreach_with lock h None s = Some (-1, h, s)" for lock by (simp add: foreach_with_def)
  ultimately show ?thesis unfolding hashtable_foreach_def hashtable_foreach_read_def by (simp del: length_concat)
qed

text \<open>
  C8: \<open>hashtable_fini\<close> terminates, drops the table's reference of every element, freeing those and only those that have no
  other reference, in the order of the slots, and frees the slots.
\<close>

theorem hashtable_fini_correct:
  assumes "ht_wf h cs"
  shows "\<exists>h'. hashtable_fini h = Some h' \<and> hashtable_count h' = 0 \<and> ht_slots h' = []
     \<and> ht_freed h' = ht_freed h @ filter (\<lambda>p. refs_of h p = 1 \<and> ht_freefn h) (concat cs)
     \<and> (\<forall>p \<in> set (concat cs). if refs_of h p = 1 \<and> ht_freefn h then load (ht_elms h') p = None
          else load (ht_elms h') p \<noteq> None \<and> refs_of h' p = refs_of h p - 1)
     \<and> (\<forall>q. q \<notin> set (concat cs) \<longrightarrow> load (ht_elms h') q = load (ht_elms h) q)
     \<and> (\<forall>a \<in> set (heads h). load (ht_nodes h') a = None)"
proof -
  obtain g where g: "for_each fini_slot [0..<length cs] h = Some g" "dropped h (concat cs) g" "same_frame h g"
    using fini_loop [OF assms, of "length cs"] by auto
  let ?h' = "g\<lparr>ht_count := \<lparr>at_value = 0\<rparr>, ht_slots := [], ht_nodes := (\<lambda>p. if p \<in> set (heads h) then None else ht_nodes g p)\<rparr>"
  have "ht_mask g = ht_mask h" "slot_head g = slot_head h"
    using g(3) same_frame_geometry by (auto simp: same_frame_def)
  then have run: "hashtable_fini h = Some ?h'"
    using g(1) ht_wfD(1) [OF assms] by (simp add: hashtable_fini_def heads_def atomic_set_def Let_def del: upt_Suc)
  have r: "refs_of ?h' = refs_of g" by (simp add: refs_of_def fun_eq_iff)
  have "\<forall>a \<in> set (heads h). load (ht_nodes ?h') a = None" by (simp add: load_def)
  then show ?thesis
    using g(2) unfolding dropped_def run
    by (intro exI [of _ ?h'] conjI) (simp_all add: r hashtable_count_def del: set_concat)
qed

subsection \<open>Examples\<close>

text \<open>A table of two slots that has element \<open>100\<close> under key \<open>5\<close>; element \<open>200\<close> is initialised and not hashed.\<close>

definition example_table :: "nat hashtable" where
  "example_table = \<lparr>ht_self = 8, ht_table = 1000, ht_mask = 1, ht_count = \<lparr>at_value = 2\<rparr>, ht_hashfn = of_nat,
     ht_equalfn = (\<lambda>e k. he_key e = k), ht_freefn = True,
     ht_slots = [Some \<lparr>sl_count = 0, sl_lock = Unlocked\<rparr>, Some \<lparr>sl_count = 1, sl_lock = Unlocked\<rparr>],
     ht_nodes = [1000 \<mapsto> \<lparr>lprev = 1000, lnext = 1000\<rparr>, 1080 \<mapsto> \<lparr>lprev = 100, lnext = 100\<rparr>,
       100 \<mapsto> \<lparr>lprev = 1080, lnext = 1080\<rparr>, 200 \<mapsto> \<lparr>lprev = 200, lnext = 200\<rparr>],
     ht_elms = [100 \<mapsto> \<lparr>he_refcount = \<lparr>at_value = 1\<rparr>, he_hash = 5, he_key = 5, he_ht = Some 8\<rparr>,
       200 \<mapsto> \<lparr>he_refcount = \<lparr>at_value = 1\<rparr>, he_hash = 0, he_key = 0, he_ht = None\<rparr>],
     ht_freed = []\<rparr>"

lemma example_table_facts:
  "heads example_table = [1000, 1080]" "refs_of example_table 100 = 1" "refs_of example_table 200 = 1"
  "key_of example_table 100 = 5" "ht_freefn example_table" "ht_freed example_table = []"
  "get_slot example_table 4 = 0" "get_slot example_table 5 = 1" "ht_hashfn example_table = of_nat"
  by (simp_all add: heads_def slot_head_def SLOT_SIZE_def example_table_def refs_of_def key_of_def load_def get_slot_def)

lemma example_table_wf: "ht_wf example_table [[], [100]]"
proof -
  have "dlists (ht_nodes example_table) (heads example_table) [[], [100]]"
    unfolding example_table_facts
    by (simp add: dlists_def dlist_def nxt_def prv_def load_def example_table_def less_Suc_eq)
  moreover have "elm_ok example_table 1 100"
    using example_table_facts by (simp add: elm_ok_def, simp add: example_table_def load_def)
  then have "\<forall>i < length [[], [100 :: addr]]. \<forall>p \<in> set ([[], [100]] ! i). elm_ok example_table i p"
    by (simp add: less_Suc_eq)
  moreover have "keyed example_table" by (simp add: keyed_def example_table_def)
  ultimately show ?thesis
    unfolding ht_wf_def by (simp add: example_table_def)
qed

lemma example_table_map:
  "ht_map example_table [[], [100]] 5 = Some 100" "ht_map example_table [[], [100]] 4 = None"
  by (simp_all add: ht_map_def example_table_facts)

lemma example_table_spare: "spare example_table [[], [100]] 200"
proof -
  have "list_empty (ht_nodes example_table) 200 = Some True" "load (ht_elms example_table) 200 \<noteq> None"
    by (simp_all add: example_table_def list_empty_def load_def)
  then show ?thesis by (simp add: spare_def all_nodes_def example_table_facts)
qed

theorem hashtable_init_correct_witness:
  "\<exists>h. hashtable_init 8 1000 4 (of_nat :: nat \<Rightarrow> u32) (\<lambda>e k. he_key e = k) True Map.empty Map.empty = Some (0, h)
     \<and> ht_wf h (replicate 4 []) \<and> hashtable_count h = 1"
  using hashtable_init_correct [of "\<lambda>e (k :: nat). he_key e = k" 4 1000 8 of_nat True Map.empty Map.empty] by auto

theorem hashtable_hash_correct_witness:
  "(\<exists>h'. hashtable_hash example_table 200 4 = Some (0, h') \<and> ht_wf h' [[200], [100]] \<and> ht_map h' [[200], [100]] 4 = Some 200)
   \<and> (\<exists>h'. hashtable_hash example_table 200 5 = Some (-1, h') \<and> key_of h' 200 = 5)
   \<and> hashtable_hash example_table 100 4 = Some (-1, example_table)"
  using hashtable_hash_correct [OF example_table_wf, where key = 4 and he = 200]
    hashtable_hash_correct [OF example_table_wf, where key = 5 and he = 200]
    hashtable_hash_correct [OF example_table_wf, where key = 4 and he = 100]
    example_table_map example_table_spare by (auto simp: example_table_facts)

theorem hashtable_lookup_correct_witness:
  "\<exists>h'. hashtable_lookup example_table 5 = Some (100, h') \<and> ht_wf h' [[], [100]] \<and> refs_of h' 100 = 2"
  using hashtable_lookup_correct [OF example_table_wf, where key = 5] example_table_map
  by (auto simp: example_table_facts)

theorem hashtable_unhash_correct_witness:
  "\<exists>h'. hashtable_unhash example_table 100 = Some h' \<and> ht_freed h' = [100] \<and> load (ht_elms h') 100 = None"
  using hashtable_unhash_correct [OF example_table_wf, where p = 100] by (auto simp: example_table_facts)

theorem hashtable_roundtrip_witness:
  "\<exists>h1 h2 h3 h4. hashtable_hash example_table 200 4 = Some (0, h1) \<and> hashtable_lookup h1 4 = Some (200, h2)
     \<and> hashtable_unhash h1 200 = Some h3 \<and> hashtable_lookup h3 4 = Some (NULL, h4)"
proof -
  have "spare example_table cs 200" if wf: "ht_wf example_table cs" for cs
  proof -
    have "200 \<notin> set (concat cs)"
    proof
      assume "200 \<in> set (concat cs)"
      from ht_wf_elm(2) [OF wf this] show False by (simp add: example_table_def load_def)
    qed
    then have "200 \<notin> all_nodes (heads example_table) cs" by (auto simp: all_nodes_def example_table_facts)
    then show ?thesis using example_table_spare by (simp add: spare_def)
  qed
  then have "ht_spare example_table 200" by (simp add: ht_spare_def example_table_facts)
  moreover have "ht_inv example_table (ht_map example_table [[], [100]])"
    using example_table_wf by (auto simp: ht_inv_def)
  ultimately show ?thesis
    using hashtable_roundtrip [of example_table "ht_map example_table [[], [100]]" 200 4] example_table_map(2) by fastforce
qed

theorem hashtable_foreach_correct_witness:
  "hashtable_foreach example_table (Some (\<lambda>p s. Some (p # s))) [] = Some (1, example_table, [100])"
  using hashtable_foreach_correct [OF example_table_wf, of "\<lambda>p s. Some (p # s)" "[]" "[100]"] by simp

theorem hashtable_fini_correct_witness:
  "\<exists>h'. hashtable_fini example_table = Some h' \<and> ht_freed h' = [100] \<and> load (ht_elms h') 200 \<noteq> None"
proof -
  have "load (ht_elms example_table) 200 \<noteq> None" by (simp add: example_table_def load_def)
  then show ?thesis
    using hashtable_fini_correct [OF example_table_wf] by (auto simp: example_table_facts)
qed

end
