(* ===== verification/Ckit_Clients.thy ===== *)
theory Ckit_Clients
  imports Ckit_Hashtable
begin

text \<open>
  Threads that share a hash table of \<^verbatim>\<open>src/hashtable.c\<close>. An operation takes the lock of a slot, works and releases it, or is one step
  on an atomic counter; here each operation is one step, and what several threads do is any sequence of such steps. A thread keeps track of the references it has: those it
  started with, those that \<^verbatim>\<open>hashtable_lookup\<close> and \<^verbatim>\<open>hashelm_hold\<close> gave it, less those it dropped with \<^verbatim>\<open>hashelm_put\<close>.

  The threads follow the rules of \<^verbatim>\<open>hashtable.h\<close>: an element is used, held again, hashed, unhashed and put only by a thread with a reference to it. The
  theory shows that this is enough: no such sequence of operations uses an element after it was freed, or frees one twice.
\<close>

section \<open>Operations of threads\<close>

datatype 'k client_op = Lookup 'k | Hold addr | Put addr | Hash addr 'k | Unhash addr

record 'k clients =
  cl_table :: "'k hashtable"
  cl_held :: "nat \<Rightarrow> addr \<Rightarrow> nat"

definition held_add :: "(nat \<Rightarrow> addr \<Rightarrow> nat) \<Rightarrow> nat \<Rightarrow> addr \<Rightarrow> nat \<Rightarrow> addr \<Rightarrow> nat" where
  "held_add f t p = f(t := (f t)(p := f t p + 1))"

definition held_sub :: "(nat \<Rightarrow> addr \<Rightarrow> nat) \<Rightarrow> nat \<Rightarrow> addr \<Rightarrow> nat \<Rightarrow> addr \<Rightarrow> nat" where
  "held_sub f t p = f(t := (f t)(p := f t p - 1))"

text \<open>Thread \<open>t\<close> runs an operation; \<open>None\<close> is a fault.\<close>

fun client_exec :: "nat \<Rightarrow> 'k client_op \<Rightarrow> 'k clients \<Rightarrow> 'k clients option" where
  "client_exec t (Lookup key) s = do {
     (p, h) \<leftarrow> hashtable_lookup (cl_table s) key;
     Some \<lparr>cl_table = h, cl_held = (if p = NULL then cl_held s else held_add (cl_held s) t p)\<rparr>
   }"
| "client_exec t (Hold p) s = do {
     h \<leftarrow> hashelm_hold (cl_table s) p;
     Some \<lparr>cl_table = h, cl_held = held_add (cl_held s) t p\<rparr>
   }"
| "client_exec t (Put p) s = do {
     h \<leftarrow> hashelm_put (cl_table s) p;
     Some \<lparr>cl_table = h, cl_held = held_sub (cl_held s) t p\<rparr>
   }"
| "client_exec t (Hash p key) s = do {
     (ret, h) \<leftarrow> hashtable_hash (cl_table s) p key;
     Some (s\<lparr>cl_table := h\<rparr>)
   }"
| "client_exec t (Unhash p) s = do {
     h \<leftarrow> hashtable_unhash (cl_table s) p;
     Some (s\<lparr>cl_table := h\<rparr>)
   }"

text \<open>
  The rules. A counter must not overflow. An element is unhashed only while it is hashed. The last reference to an element that never was in a table
  must not be put, because its pointer to the table is indeterminate.
\<close>

definition roomy :: "'k hashtable \<Rightarrow> addr \<Rightarrow> bool" where
  "roomy h p \<longleftrightarrow> refs_of h p + 1 < 2 ^ 31"

fun allowed :: "nat \<Rightarrow> 'k clients \<Rightarrow> nat \<Rightarrow> 'k client_op \<Rightarrow> bool" where
  "allowed N s t (Lookup key) \<longleftrightarrow> t < N \<and> (\<forall>p. load (ht_elms (cl_table s)) p \<noteq> None \<longrightarrow> roomy (cl_table s) p)"
| "allowed N s t (Hold p) \<longleftrightarrow> t < N \<and> 0 < cl_held s t p \<and> roomy (cl_table s) p"
| "allowed N s t (Put p) \<longleftrightarrow> t < N \<and> 0 < cl_held s t p
     \<and> (refs_of (cl_table s) p = 1 \<longrightarrow> (case load (ht_elms (cl_table s)) p of None \<Rightarrow> False | Some e \<Rightarrow> he_ht e \<noteq> None))"
| "allowed N s t (Hash p key) \<longleftrightarrow> t < N \<and> 0 < cl_held s t p \<and> roomy (cl_table s) p"
| "allowed N s t (Unhash p) \<longleftrightarrow> t < N \<and> 0 < cl_held s t p \<and> hashelm_hashed (cl_table s) p = Some True"

inductive client_step :: "nat \<Rightarrow> 'k clients \<Rightarrow> 'k clients \<Rightarrow> bool" for N where
  "allowed N s t op \<Longrightarrow> client_exec t op s = Some s' \<Longrightarrow> client_step N s s'"

inductive_cases client_stepE: "client_step N s s'"

section \<open>The invariant\<close>

definition held_total :: "nat \<Rightarrow> (nat \<Rightarrow> addr \<Rightarrow> nat) \<Rightarrow> addr \<Rightarrow> nat" where
  "held_total N f p = (\<Sum>t < N. f t p)"

text \<open>
  The count of an element is the number of references that threads have, and one for the table if it is hashed. An element that is gone has no
  references, and it was freed once.
\<close>

definition elm_counted :: "nat \<Rightarrow> 'k hashtable \<Rightarrow> addr set \<Rightarrow> (nat \<Rightarrow> addr \<Rightarrow> nat) \<Rightarrow> addr \<Rightarrow> bool" where
  "elm_counted N h S f p \<longleftrightarrow> (case load (ht_elms h) p of
       None \<Rightarrow> held_total N f p = 0
     | Some e \<Rightarrow> refs_of h p = held_total N f p + (if p \<in> S then 1 else 0) \<and> 0 < refs_of h p \<and> refs_of h p < 2 ^ 31
         \<and> (he_ht e = None \<or> he_ht e = Some (ht_self h))
         \<and> (p \<notin> S \<longrightarrow> p \<notin> set (heads h) \<and> list_empty (ht_nodes h) p = Some True))"

definition clients_ok :: "nat \<Rightarrow> 'k clients \<Rightarrow> bool" where
  "clients_ok N s \<longleftrightarrow> (\<exists>cs. ht_wf (cl_table s) cs \<and> (\<forall>p. elm_counted N (cl_table s) (set (concat cs)) (cl_held s) p))
     \<and> ht_freefn (cl_table s) \<and> distinct (ht_freed (cl_table s)) \<and> (\<forall>p \<in> set (ht_freed (cl_table s)). load (ht_elms (cl_table s)) p = None)"

lemma total_add: "t < N \<Longrightarrow> held_total N (held_add f t p) q = held_total N f q + (if q = p then 1 else 0)"
proof -
  assume t: "t < N"
  have "(\<Sum>i < N. held_add f t p i q) = (\<Sum>i < N. f i q + (if i = t \<and> q = p then 1 else 0))"
    by (rule sum.cong) (auto simp: held_add_def)
  also have "\<dots> = (\<Sum>i < N. f i q) + (if q = p then 1 else 0)" using t by (auto simp: sum.distrib)
  finally show ?thesis by (simp add: held_total_def)
qed

lemma total_sub: "t < N \<Longrightarrow> 0 < f t p \<Longrightarrow> held_total N (held_sub f t p) q = held_total N f q - (if q = p then 1 else 0)"
proof -
  assume a: "t < N" "0 < f t p"
  then have "held_add (held_sub f t p) t p = f" by (auto simp: held_add_def held_sub_def fun_eq_iff)
  then show ?thesis using total_add [OF a(1), of "held_sub f t p" p q] by auto
qed

lemma total_pos: "t < N \<Longrightarrow> 0 < f t p \<Longrightarrow> 0 < held_total N f p"
  using member_le_sum [of t "{..<N}" "\<lambda>t. f t p"] by (auto simp: held_total_def)

lemma all_nodes_eq: "all_nodes hs cs = set hs \<union> set (concat cs)"
  by (auto simp: all_nodes_def)

lemma clients_okE:
  assumes "clients_ok N s"
  obtains cs where "ht_wf (cl_table s) cs" "\<forall>p. elm_counted N (cl_table s) (set (concat cs)) (cl_held s) p" "ht_freefn (cl_table s)"
    "distinct (ht_freed (cl_table s))" "\<forall>p \<in> set (ht_freed (cl_table s)). load (ht_elms (cl_table s)) p = None"
  using assms by (auto simp: clients_ok_def)

text \<open>A thread with a reference has a live element.\<close>

lemma held_alive:
  assumes "elm_counted N h S f p" "t < N" "0 < f t p"
  obtains e where "load (ht_elms h) p = Some e" "refs_of h p = held_total N f p + (if p \<in> S then 1 else 0)" "0 < held_total N f p" "refs_of h p < 2 ^ 31"
    "he_ht e = None \<or> he_ht e = Some (ht_self h)" "p \<notin> S \<Longrightarrow> p \<notin> set (heads h) \<and> list_empty (ht_nodes h) p = Some True"
  using assms total_pos [of t N f p] by (auto simp: elm_counted_def split: option.splits)

section \<open>Each operation keeps the invariant\<close>

lemma elm_counted_cong:
  assumes "elm_counted N h S f q" "load (ht_elms h') q = load (ht_elms h) q" "q \<notin> S \<Longrightarrow> load (ht_elms h) q \<noteq> None \<Longrightarrow> load (ht_nodes h') q = load (ht_nodes h) q"
    and "heads h' = heads h" "ht_self h' = ht_self h" "q \<in> S' \<longleftrightarrow> q \<in> S" "held_total N f' q = held_total N f q"
  shows "elm_counted N h' S' f' q"
  using assms by (auto simp: elm_counted_def refs_of_def list_empty_def split: option.splits)

lemma acquire_ok:
  assumes ok: "clients_ok N s" and t: "t < N" and e: "load (ht_elms (cl_table s)) p = Some e" and room: "roomy (cl_table s) p"
  shows "clients_ok N \<lparr>cl_table = with_refs (cl_table s) p (snd (atomic_inc (he_refcount e))), cl_held = held_add (cl_held s) t p\<rparr>"
proof -
  obtain cs where cs: "ht_wf (cl_table s) cs" "\<forall>p. elm_counted N (cl_table s) (set (concat cs)) (cl_held s) p" "ht_freefn (cl_table s)"
      "distinct (ht_freed (cl_table s))" "\<forall>p \<in> set (ht_freed (cl_table s)). load (ht_elms (cl_table s)) p = None"
    using ok by (rule clients_okE)
  let ?h = "cl_table s" and ?rc = "snd (atomic_inc (he_refcount e))"
  let ?g = "with_refs ?h p ?rc" and ?f = "held_add (cl_held s) t p"
  have rv: "unat (at_value ?rc) = refs_of ?h p + 1"
    using inc_refs [of "he_refcount e"] room e by (simp add: roomy_def refs_of_def)
  have "ht_wf ?g cs" using ht_wf_with_refs(1) [OF cs(1) e] rv room by (simp add: roomy_def)
  moreover have "elm_counted N ?g (set (concat cs)) ?f q" for q
  proof (cases "q = p")
    case True
    then show ?thesis
      using cs(2) [rule_format, of p] e rv room by (simp add: elm_counted_def with_refs_load [OF e] refs_of_with_refs [OF e] total_add [OF t] roomy_def)
  next
    case False
    then show ?thesis by (intro elm_counted_cong [OF cs(2) [rule_format]]) (simp_all add: with_refs_load [OF e] total_add [OF t])
  qed
  moreover have "load (ht_elms ?g) q = None" if "q \<in> set (ht_freed ?h)" for q
    using cs(5) [rule_format, OF that] e by (auto simp: with_refs_load [OF e])
  ultimately show ?thesis using cs(3,4) unfolding clients_ok_def by auto
qed

lemma put_state_kept: "\<not> (refs_of h p = 1 \<and> ht_freefn h) \<Longrightarrow> put_state h p = with_refs h p (snd (atomic_dec_and_test (he_refcount (the (ht_elms h p)))))"
  by (auto simp: put_state_def Let_def)

text \<open>Dropping a reference, where \<open>S\<close> are the elements of the table afterwards.\<close>

lemma release_counted:
  assumes c: "elm_counted N h S f q" "elm_counted N h S f p" and e: "load (ht_elms h) p = Some e" and fn: "ht_freefn h"
    and S: "S' \<subseteq> S" "S - S' \<subseteq> {p}" and node: "p \<notin> S' \<Longrightarrow> p \<notin> set (heads h) \<and> list_empty (ht_nodes h) p = Some True"
    and f: "\<And>q. held_total N f' q + (if q \<in> S' then 1 else 0) = held_total N f q + (if q \<in> S then 1 else 0) - (if q = p then 1 else 0)"
  shows "elm_counted N (put_state h p) S' f' q"
proof (cases "q = p")
  case False
  then have "q \<in> S' \<longleftrightarrow> q \<in> S" using S by auto
  then show ?thesis
    using False f [of q] by (intro elm_counted_cong [OF c(1)]) (simp_all add: put_state_other)
next
  case True
  have r: "refs_of h p = held_total N f p + (if p \<in> S then 1 else 0)" "0 < refs_of h p" "refs_of h p < 2 ^ 31" "he_ht e = None \<or> he_ht e = Some (ht_self h)"
    using c(2) e by (auto simp: elm_counted_def)
  note self = put_state_self [OF e r(2)]
  show ?thesis
  proof (cases "refs_of h p = 1 \<and> ht_freefn h")
    case freed: True
    then have "load (ht_elms (put_state h p)) p = None" "held_total N f' p = 0" using self(1) f [of p] r(1) by auto
    then show ?thesis using True by (simp add: elm_counted_def)
  next
    case kept: False
    have "load (ht_elms (put_state h p)) p = Some (e\<lparr>he_refcount := snd (atomic_dec_and_test (he_refcount (the (ht_elms h p))))\<rparr>)"
      unfolding put_state_kept [OF kept] by (simp add: with_refs_load [OF e])
    moreover have "ht_nodes (put_state h p) = ht_nodes h" unfolding put_state_kept [OF kept] by simp
    ultimately show ?thesis
      using True self(2) [OF kept] r f [of p] node kept fn by (auto simp: elm_counted_def)
  qed
qed

lemma freed_once:
  assumes e: "load (ht_elms h) p = Some e" and r: "0 < refs_of h p" and d: "distinct (ht_freed h)" "\<forall>q \<in> set (ht_freed h). load (ht_elms h) q = None"
  shows "distinct (ht_freed (put_state h p))" "\<forall>q \<in> set (ht_freed (put_state h p)). load (ht_elms (put_state h p)) q = None"
proof -
  have p: "p \<notin> set (ht_freed h)" using e d(2) by auto
  then show "distinct (ht_freed (put_state h p))" using d(1) by auto
  have "load (ht_elms (put_state h p)) q = None" if "q \<in> set (ht_freed h)" for q
    using that p d(2) put_state_other(1) [of q p h] by metis
  then show "\<forall>q \<in> set (ht_freed (put_state h p)). load (ht_elms (put_state h p)) q = None"
    using put_state_self(1) [OF e r] by auto
qed

lemma put_ok:
  assumes ok: "clients_ok N s" and al: "allowed N s t (Put p)"
  shows "\<exists>s'. client_exec t (Put p) s = Some s' \<and> clients_ok N s'"
proof -
  obtain cs where cs: "ht_wf (cl_table s) cs" "\<forall>p. elm_counted N (cl_table s) (set (concat cs)) (cl_held s) p" "ht_freefn (cl_table s)"
      "distinct (ht_freed (cl_table s))" "\<forall>p \<in> set (ht_freed (cl_table s)). load (ht_elms (cl_table s)) p = None"
    using ok by (rule clients_okE)
  let ?h = "cl_table s" and ?S = "set (concat cs)" and ?f = "held_sub (cl_held s) t p"
  have t: "t < N" "0 < cl_held s t p" using al by auto
  obtain e where e: "load (ht_elms ?h) p = Some e" "refs_of ?h p = held_total N (cl_held s) p + (if p \<in> ?S then 1 else 0)"
      "0 < held_total N (cl_held s) p" "refs_of ?h p < 2 ^ 31" "he_ht e = None \<or> he_ht e = Some (ht_self ?h)"
      "p \<notin> ?S \<Longrightarrow> p \<notin> set (heads ?h) \<and> list_empty (ht_nodes ?h) p = Some True"
    using held_alive [OF cs(2) [rule_format] t] by blast
  have run: "hashelm_put ?h p = Some (put_state ?h p)"
  proof (cases "he_ht e")
    case None
    have d: "fst (atomic_dec_and_test (he_refcount e)) \<longleftrightarrow> refs_of ?h p = 1"
      using rc.release_last [of "he_refcount e" "refs_of ?h p"] e by (simp add: counts_def refs_of_def)
    have "refs_of ?h p \<noteq> 1" using al e(1) None by auto
    moreover have "ht_elms ?h p = Some e" using e(1) by (auto dest: load_SomeD)
    ultimately show ?thesis
      using d e(1) by (simp add: hashelm_put_def put_state_def with_refs_def mem_simps Let_def case_prod_beta)
  qed (use put_eq [OF e(1)] e in auto)
  have wf: "ht_wf (put_state ?h p) cs"
  proof (cases "p \<in> ?S")
    case True
    then have kept: "\<not> (refs_of ?h p = 1 \<and> ht_freefn ?h)" "1 < refs_of ?h p" using e(2,3) by auto
    have "refs_of (put_state ?h p) p = refs_of ?h p - 1" by (rule put_state_self(2) [OF e(1) _ kept(1)]) (use kept(2) in simp)
    then show ?thesis
      using ht_wf_with_refs(1) [OF cs(1) e(1)] kept(2) e(4) refs_of_with_refs [OF e(1)] unfolding put_state_kept [OF kept(1)] by simp
  next
    case False
    then show ?thesis using put_state_wf(1) [OF cs(1), of p] e(6) by (simp add: all_nodes_eq)
  qed
  have "elm_counted N (put_state ?h p) ?S ?f q" for q
  proof (rule release_counted [OF cs(2) [rule_format] cs(2) [rule_format] e(1) cs(3)])
    show "held_total N ?f q + (if q \<in> ?S then 1 else 0) = held_total N (cl_held s) q + (if q \<in> ?S then 1 else 0) - (if q = p then 1 else 0)" for q
      using total_sub [of t N "cl_held s" p q, OF t] e(3) by auto
  qed (use e(6) in auto)
  then have "clients_ok N \<lparr>cl_table = put_state ?h p, cl_held = ?f\<rparr>"
    using wf cs(3) freed_once [OF e(1) _ cs(4,5)] e(2,3) unfolding clients_ok_def by auto
  then show ?thesis using run by simp
qed

lemma unhash_ok:
  assumes ok: "clients_ok N s" and al: "allowed N s t (Unhash p)"
  shows "\<exists>s'. client_exec t (Unhash p) s = Some s' \<and> clients_ok N s'"
proof -
  obtain cs where cs: "ht_wf (cl_table s) cs" "\<forall>p. elm_counted N (cl_table s) (set (concat cs)) (cl_held s) p" "ht_freefn (cl_table s)"
      "distinct (ht_freed (cl_table s))" "\<forall>p \<in> set (ht_freed (cl_table s)). load (ht_elms (cl_table s)) p = None"
    using ok by (rule clients_okE)
  let ?h = "cl_table s" and ?S = "set (concat cs)"
  have t: "t < N" "0 < cl_held s t p" "hashelm_hashed ?h p = Some True" using al by auto
  obtain e where e: "load (ht_elms ?h) p = Some e" "refs_of ?h p = held_total N (cl_held s) p + (if p \<in> ?S then 1 else 0)"
      "0 < held_total N (cl_held s) p" "p \<notin> ?S \<Longrightarrow> p \<notin> set (heads ?h) \<and> list_empty (ht_nodes ?h) p = Some True"
    using held_alive [OF cs(2) [rule_format] t(1,2)] by blast
  have p: "p \<in> ?S" using e(4) t(3) by (cases "p \<in> ?S") (auto simp: hashelm_hashed_def simp del: set_concat)
  obtain i where i: "i < length cs" "p \<in> set (cs ! i)" using p in_concat by metis
  then obtain xs ys where c: "cs ! i = xs @ p # ys" by (meson split_list)
  obtain m where m: "hashtable_unhash ?h p = Some (put_state (unlinked ?h m i (xs @ ys)) p)"
      "dlists m (heads ?h) (cs[i := xs @ ys])" "dlist m p []" "\<forall>q. q \<notin> all_nodes (heads ?h) cs \<longrightarrow> load m q = load (ht_nodes ?h) q"
    using unhash_run [OF cs(1) i(1) c] by blast
  let ?g = "unlinked ?h m i (xs @ ys)" and ?cs = "cs[i := xs @ ys]"
  note un = unlinked_wf [OF cs(1) i(1) c m(2)]
  have np: "p \<notin> all_nodes (heads ?g) ?cs"
    using ll.rep_once [OF ht_wfD(3) [OF cs(1)] _ c] i(1) ht_wfD(1) [OF cs(1)] by simp
  have eg: "ht_elms ?g = ht_elms ?h" "refs_of ?g = refs_of ?h" "ht_freed ?g = ht_freed ?h" by (simp_all add: unlinked_def refs_of_def fun_eq_iff)
  have cg: "elm_counted N ?g ?S (cl_held s) q" for q
  proof (rule elm_counted_cong [OF cs(2) [rule_format]])
    show "load (ht_nodes ?g) q = load (ht_nodes ?h) q" if "q \<notin> ?S" "load (ht_elms ?h) q \<noteq> None"
    proof -
      have "q \<notin> set (heads ?h)" using cs(2) [rule_format, of q] that by (auto simp: elm_counted_def simp del: set_concat)
      then show ?thesis using m(4) that(1) by (simp add: all_nodes_eq del: set_concat)
    qed
  qed (simp_all add: eg)
  have "elm_counted N (put_state ?g p) (set (concat ?cs)) (cl_held s) q" for q
  proof (rule release_counted [OF cg cg])
    show "load (ht_elms ?g) p = Some e" using e(1) eg by simp
    show "p \<notin> set (heads ?g) \<and> list_empty (ht_nodes ?g) p = Some True"
      using dlist_nil_load [OF m(3)] np by (simp add: list_empty_def all_nodes_eq)
  qed (use cs(3) un(3) np p in \<open>auto simp: all_nodes_eq\<close>)
  moreover have "ht_wf (put_state ?g p) ?cs" by (rule put_state_wf(1) [OF un(1) np])
  ultimately have "clients_ok N (s\<lparr>cl_table := put_state ?g p\<rparr>)"
    using cs(3) freed_once [of ?g p e] e(1-3) cs(4,5) eg unfolding clients_ok_def by auto
  then show ?thesis using m(1) by simp
qed

lemma hash_refused_ok:
  assumes ok: "ht_wf (cl_table s) cs" "\<forall>p. elm_counted N (cl_table s) (set (concat cs)) (cl_held s) p" "ht_freefn (cl_table s)"
      "distinct (ht_freed (cl_table s))" "\<forall>p \<in> set (ht_freed (cl_table s)). load (ht_elms (cl_table s)) p = None"
    and e: "load (ht_elms (cl_table s)) p = Some e" and sp: "spare (cl_table s) cs p"
  shows "clients_ok N (s\<lparr>cl_table := labelled (cl_table s) p key\<rparr>)"
proof -
  let ?h = "cl_table s" and ?S = "set (concat cs)"
  have pf: "p \<notin> set (ht_freed ?h)" using ok(5) e by auto
  note lb = labelled_ok [OF ok(1) sp, where key = key]
  have "load (ht_elms (labelled ?h p key)) p = Some (e\<lparr>he_hash := ht_hashfn ?h key, he_ht := Some (ht_self ?h), he_key := key\<rparr>)"
    using e load_SomeD [OF e] by (simp add: labelled_def mem_simps)
  then have "elm_counted N (labelled ?h p key) ?S (cl_held s) p"
    using ok(2) [rule_format, of p] lb(4) [of p] e by (auto simp: elm_counted_def simp del: set_concat)
  moreover have "elm_counted N (labelled ?h p key) ?S (cl_held s) q" if "q \<noteq> p" for q
    by (rule elm_counted_cong [OF ok(2) [rule_format]]) (simp_all add: lb(3) [OF that])
  ultimately have "elm_counted N (labelled ?h p key) ?S (cl_held s) q" for q by metis
  moreover have "load (ht_elms (labelled ?h p key)) q = None" if "q \<in> set (ht_freed ?h)" for q
    using ok(5) that pf lb(3) [of q] by metis
  ultimately show ?thesis
    using lb(1) ok(3,4) unfolding clients_ok_def by (auto simp: labelled_def)
qed

lemma hash_new_ok:
  assumes ok: "ht_wf (cl_table s) cs" "\<forall>p. elm_counted N (cl_table s) (set (concat cs)) (cl_held s) p" "ht_freefn (cl_table s)"
      "distinct (ht_freed (cl_table s))" "\<forall>p \<in> set (ht_freed (cl_table s)). load (ht_elms (cl_table s)) p = None"
    and e: "load (ht_elms (cl_table s)) p = Some e" "refs_of (cl_table s) p = held_total N (cl_held s) p" "0 < held_total N (cl_held s) p"
    and sp: "spare (cl_table s) cs p" and key: "ht_map (cl_table s) cs key = None"
  shows "\<exists>h. hashtable_hash (cl_table s) p key = Some (0, h) \<and> clients_ok N (s\<lparr>cl_table := h\<rparr>)"
proof -
  let ?h = "cl_table s" and ?S = "set (concat cs)"
  let ?i = "get_slot ?h (ht_hashfn ?h key)"
  obtain m where m: "hashtable_hash ?h p key = Some (0, hashed ?h p key m ?i (cs ! ?i))"
      "\<forall>q. q \<notin> insert p (all_nodes (heads ?h) cs) \<longrightarrow> load m q = load (ht_nodes ?h) q"
    using hash_absent_run [OF ok(1) sp key] by blast
  let ?g = "hashed ?h p key m ?i (cs ! ?i)" and ?cs = "cs[?i := p # cs ! ?i]"
  have wf: "ht_wf ?g ?cs" "set (concat ?cs) = insert p ?S"
    using hash_absent [OF ok(1) sp key] m(1) by auto
  have "elm_counted N ?g (insert p ?S) (cl_held s) q" for q
  proof (cases "q = p")
    case True
    then show ?thesis using e(2,3) sp by (simp add: elm_counted_def hashed_elms [OF sp] hashed_keys [OF sp] spare_def)
  next
    case False
    show ?thesis
    proof (rule elm_counted_cong [OF ok(2) [rule_format]])
      show "load (ht_nodes ?g) q = load (ht_nodes ?h) q" if "q \<notin> ?S" "load (ht_elms ?h) q \<noteq> None"
        using m(2) ok(2) [rule_format, of q] that False by (auto simp: elm_counted_def all_nodes_eq simp del: set_concat)
    qed (use False in \<open>simp_all add: hashed_elms [OF sp]\<close>)
  qed
  moreover have "load (ht_elms ?g) q = None" if "q \<in> set (ht_freed ?h)" for q
    using ok(5) that e(1) hashed_elms [OF sp, of key m ?i "cs ! ?i" q] by (cases "q = p") auto
  ultimately have "clients_ok N (s\<lparr>cl_table := ?g\<rparr>)"
    using wf ok(3,4) unfolding clients_ok_def by (auto simp del: set_concat)
  then show ?thesis using m(1) by simp
qed

lemma hash_ok:
  assumes ok: "clients_ok N s" and al: "allowed N s t (Hash p key)"
  shows "\<exists>s'. client_exec t (Hash p key) s = Some s' \<and> clients_ok N s'"
proof -
  obtain cs where cs: "ht_wf (cl_table s) cs" "\<forall>p. elm_counted N (cl_table s) (set (concat cs)) (cl_held s) p" "ht_freefn (cl_table s)"
      "distinct (ht_freed (cl_table s))" "\<forall>p \<in> set (ht_freed (cl_table s)). load (ht_elms (cl_table s)) p = None"
    using ok by (rule clients_okE)
  let ?h = "cl_table s" and ?S = "set (concat cs)"
  have t: "t < N" "0 < cl_held s t p" "roomy ?h p" using al by auto
  obtain e where e: "load (ht_elms ?h) p = Some e" "refs_of ?h p = held_total N (cl_held s) p + (if p \<in> ?S then 1 else 0)"
      "0 < held_total N (cl_held s) p" "p \<notin> ?S \<Longrightarrow> p \<notin> set (heads ?h) \<and> list_empty (ht_nodes ?h) p = Some True"
    using held_alive [OF cs(2) [rule_format] t(1,2)] by blast
  show ?thesis
  proof (cases "p \<in> ?S")
    case True
    have "list_empty (ht_nodes ?h) p = Some False" using member_hashed [OF cs(1) True] by (auto simp: hashelm_hashed_def)
    then show ?thesis using ok by (simp add: hashtable_hash_def)
  next
    case False
    then have sp: "spare ?h cs p" using e t(3) by (simp add: spare_def all_nodes_eq roomy_def del: set_concat)
    show ?thesis
    proof (cases "ht_map ?h cs key")
      case None
      obtain h where "hashtable_hash ?h p key = Some (0, h)" "clients_ok N (s\<lparr>cl_table := h\<rparr>)"
        using hash_new_ok [OF cs e(1) _ e(3) sp None] e(2) False by auto
      then show ?thesis by simp
    next
      case (Some q)
      then show ?thesis using hash_start [OF cs(1) sp, where key = key] hash_refused_ok [OF cs e(1) sp, of key] by simp
    qed
  qed
qed

lemma client_exec_ok:
  assumes ok: "clients_ok N s" and al: "allowed N s t op"
  shows "\<exists>s'. client_exec t op s = Some s' \<and> clients_ok N s'"
proof (cases op)
  case (Lookup key)
  obtain cs where cs: "ht_wf (cl_table s) cs" using ok by (auto simp: clients_ok_def)
  show ?thesis
  proof (cases "ht_map (cl_table s) cs key")
    case None
    then show ?thesis using lookup_absent [OF cs None] ok Lookup by (cases s) simp
  next
    case (Some p)
    then have p: "p \<in> set (concat cs)" using ht_map_iff(1) [OF cs] by blast
    obtain e where e: "load (ht_elms (cl_table s)) p = Some e" using ht_wf_elm(2) [OF cs p] by blast
    have "roomy (cl_table s) p" using al Lookup e by auto
    then show ?thesis
      using lookup_run [OF cs Some e] acquire_ok [OF ok _ e] al Lookup ht_wf_elm(5) [OF cs p] by auto
  qed
next
  case (Hold p)
  then have t: "t < N" "0 < cl_held s t p" "roomy (cl_table s) p" using al by auto
  obtain cs where "\<forall>p. elm_counted N (cl_table s) (set (concat cs)) (cl_held s) p" using ok by (auto simp: clients_ok_def)
  then have "elm_counted N (cl_table s) (set (concat cs)) (cl_held s) p" by blast
  from held_alive [OF this t(1,2)] obtain e where e: "load (ht_elms (cl_table s)) p = Some e" by blast
  show ?thesis using hold_eq [OF e] acquire_ok [OF ok t(1) e t(3)] Hold by simp
qed (use al put_ok [OF ok] hash_ok [OF ok] unhash_ok [OF ok] in simp_all)

section \<open>Properties\<close>

lemma clients_reach: "rtranclp (client_step N) s0 s \<Longrightarrow> clients_ok N s0 \<Longrightarrow> clients_ok N s"
proof (induction rule: rtranclp_induct)
  case (step y z)
  then obtain t op where "allowed N y t op" "client_exec t op y = Some z" by (auto elim: client_stepE)
  then show ?case using client_exec_ok [of N y t op] step by auto
qed

lemma clients_exact:
  assumes "clients_ok N s"
  shows "distinct (ht_freed (cl_table s))" "\<forall>p \<in> set (ht_freed (cl_table s)). \<forall>t < N. cl_held s t p = 0"
    "\<forall>p. (\<forall>t < N. cl_held s t p = 0) \<and> hashelm_hashed (cl_table s) p \<noteq> Some True \<longrightarrow> load (ht_elms (cl_table s)) p = None"
proof -
  obtain cs where cs: "ht_wf (cl_table s) cs" "\<forall>p. elm_counted N (cl_table s) (set (concat cs)) (cl_held s) p" "ht_freefn (cl_table s)"
      "distinct (ht_freed (cl_table s))" "\<forall>p \<in> set (ht_freed (cl_table s)). load (ht_elms (cl_table s)) p = None"
    using assms by (rule clients_okE)
  show "distinct (ht_freed (cl_table s))" by (fact cs(4))
  have zero: "held_total N (cl_held s) p = 0 \<longleftrightarrow> (\<forall>t < N. cl_held s t p = 0)" for p by (auto simp: held_total_def)
  show "\<forall>p \<in> set (ht_freed (cl_table s)). \<forall>t < N. cl_held s t p = 0"
  proof
    show "\<forall>t < N. cl_held s t p = 0" if "p \<in> set (ht_freed (cl_table s))" for p
      using cs(2) [rule_format, of p] cs(5) that zero [of p] by (simp add: elm_counted_def)
  qed
  have "load (ht_elms (cl_table s)) p = None" if "\<forall>t < N. cl_held s t p = 0" "hashelm_hashed (cl_table s) p \<noteq> Some True" for p
    using cs(2) [rule_format, of p] that zero [of p] member_hashed [OF cs(1), of p]
    by (cases "p \<in> set (concat cs)") (auto simp: elm_counted_def simp del: set_concat split: option.splits)
  then show "\<forall>p. (\<forall>t < N. cl_held s t p = 0) \<and> hashelm_hashed (cl_table s) p \<noteq> Some True \<longrightarrow> load (ht_elms (cl_table s)) p = None" by blast
qed

text \<open>
  Threads that share a table and follow its rules. Whatever they have done, in any order, starting from a table in order with exact counts: every operation that
  the rules allow runs without a fault, so no thread uses an element that is gone; the counts are exact again; no element was freed twice, or while a thread
  had a reference to it; and an element that no thread has a reference to and that is not in the table is gone.
\<close>

theorem hashtable_clients_safe:
  assumes "clients_ok N s0" "rtranclp (client_step N) s0 s"
  shows "clients_ok N s \<and> (\<forall>t op. allowed N s t op \<longrightarrow> (\<exists>s'. client_exec t op s = Some s'))
     \<and> distinct (ht_freed (cl_table s)) \<and> (\<forall>p \<in> set (ht_freed (cl_table s)). \<forall>t < N. cl_held s t p = 0)
     \<and> (\<forall>p. (\<forall>t < N. cl_held s t p = 0) \<and> hashelm_hashed (cl_table s) p \<noteq> Some True \<longrightarrow> load (ht_elms (cl_table s)) p = None)"
proof -
  have ok: "clients_ok N s" using clients_reach assms by blast
  then show ?thesis using clients_exact [OF ok] client_exec_ok [OF ok] by blast
qed

text \<open>
  \<open>hashelm_init\<close> leaves the pointer to the table indeterminate: putting the last reference to an element that never was in a table reads it.
\<close>

theorem put_never_hashed:
  assumes "load (ht_elms h) p = Some e" "he_ht e = None" "refs_of h p = 1"
  shows "hashelm_put h p = None"
proof -
  have "fst (atomic_dec_and_test (he_refcount e))"
    using rc.release_last [of "he_refcount e" 1] assms by (simp add: counts_def refs_of_def)
  then show ?thesis using assms(1,2) by (simp add: hashelm_put_def mem_simps case_prod_beta Let_def)
qed

subsection \<open>Examples\<close>

definition example_clients :: "nat clients" where
  "example_clients = \<lparr>cl_table = example_table, cl_held = (\<lambda>t p. if t = 0 \<and> p = 200 then 1 else 0)\<rparr>"

lemma example_elms:
  "load (ht_elms example_table) 100 = Some \<lparr>he_refcount = \<lparr>at_value = 1\<rparr>, he_hash = 5, he_key = 5, he_ht = Some 8\<rparr>"
  "load (ht_elms example_table) 200 = Some \<lparr>he_refcount = \<lparr>at_value = 1\<rparr>, he_hash = 0, he_key = 0, he_ht = None\<rparr>"
  "p \<notin> {100, 200} \<Longrightarrow> load (ht_elms example_table) p = None"
  by (simp_all add: example_table_def load_def)

lemma example_clients_ok: "clients_ok 2 example_clients"
proof -
  let ?f = "\<lambda>t p. if t = (0 :: nat) \<and> p = (200 :: addr) then 1 else 0 :: nat"
  have n: "list_empty (ht_nodes example_table) 200 = Some True" "ht_self example_table = 8"
    by (simp_all add: example_table_def list_empty_def load_def)
  have two: "{..<2 :: nat} = {0, 1}" by auto
  have tot: "held_total 2 ?f 100 = 0" "held_total 2 ?f 200 = 1" "p \<noteq> 200 \<Longrightarrow> held_total 2 ?f p = 0" for p
    by (simp_all add: held_total_def two)
  have "elm_counted 2 example_table (set (concat [[], [100]])) ?f 100"
    by (simp add: elm_counted_def example_elms(1) tot(1) example_table_facts(2) n(2))
  moreover have "elm_counted 2 example_table (set (concat [[], [100]])) ?f 200"
    by (simp add: elm_counted_def example_elms(2) tot(2) example_table_facts(1,3) n(1))
  moreover have "elm_counted 2 example_table (set (concat [[], [100]])) ?f p" if "p \<notin> {100, 200}" for p
    using that by (simp add: elm_counted_def example_elms(3) tot(3))
  ultimately have "elm_counted 2 example_table (set (concat [[], [100]])) ?f p" for p
    by (cases "p \<in> {100, 200}") blast+
  then show ?thesis
    unfolding clients_ok_def example_clients_def using example_table_wf by (auto simp: example_table_facts simp del: set_concat)
qed

theorem hashtable_clients_safe_witness:
  "\<exists>s s'. client_exec 1 (Lookup 5) example_clients = Some s \<and> cl_held s 1 100 = 1 \<and> client_exec 1 (Put 100) s = Some s'"
proof -
  have "allowed 2 example_clients 1 (Lookup 5)"
  proof -
    have "roomy example_table p" if "load (ht_elms example_table) p \<noteq> None" for p
      using that example_elms(3) [of p] by (cases "p \<in> {100, 200}") (auto simp: roomy_def example_table_facts)
    then show ?thesis by (simp add: example_clients_def)
  qed
  then obtain s where s: "client_exec 1 (Lookup 5) example_clients = Some s"
    using hashtable_clients_safe [OF example_clients_ok rtranclp.rtrancl_refl] by blast
  have lk: "hashtable_lookup example_table 5 = Some (100, with_refs example_table 100 \<lparr>at_value = 2\<rparr>)"
    using lookup_run [OF example_table_wf example_table_map(1) example_elms(1)] by (simp add: atomic_inc_def)
  have h: "cl_held s 1 100 = 1" "refs_of (cl_table s) 100 = 2"
    using s lk refs_of_with_refs [OF example_elms(1)] by (auto simp: example_clients_def held_add_def)
  have "rtranclp (client_step 2) example_clients s"
    using client_step.intros [OF \<open>allowed 2 example_clients 1 (Lookup 5)\<close> s] by blast
  moreover have "allowed 2 s 1 (Put 100)" using h by simp
  ultimately have "\<exists>s'. client_exec 1 (Put 100) s = Some s'"
    using hashtable_clients_safe [OF example_clients_ok] by blast
  then show ?thesis using s h(1) by blast
qed

end
