(* ===== verification/Ckit_Race.thy ===== *)
theory Ckit_Race
  imports Ckit_Clients
begin

text \<open>
  \<^verbatim>\<open>hashtable_hash\<close> and \<^verbatim>\<open>hashtable_unhash\<close> of \<^verbatim>\<open>src/hashtable.c\<close> in two steps, with other threads in between. \<^verbatim>\<open>hashtable_hash\<close> tests whether the element is hashed, writes hash,
  table and key into it and computes the slot before it takes the lock of the slot; \<^verbatim>\<open>hashtable_unhash\<close> reads the hash of the element and computes the slot before it takes the lock. Only the rest runs
  under the lock. The other operations do their work under one lock or are a step on an atomic counter, and stay one step here.

  As long as no two threads hash or unhash the same element at the same time, the two steps are as good as one: the step under the lock does what the whole function would do there. Two
  threads that hash one element under different keys break the table.
\<close>

section \<open>The two steps\<close>

text \<open>Up to the lock. The inner \<open>None\<close> stands for the return with \<open>-1\<close>.\<close>

definition hash_begin :: "'k hashtable \<Rightarrow> addr \<Rightarrow> 'k \<Rightarrow> 'k hashtable option option" where
  "hash_begin h he key = do {
     empty \<leftarrow> list_empty (ht_nodes h) he;
     if \<not> empty then Some None
     else do {
       e \<leftarrow> load (ht_elms h) he;
       elms \<leftarrow> store (ht_elms h) he (e\<lparr>he_hash := ht_hashfn h key, he_ht := Some (ht_self h), he_key := key\<rparr>);
       Some (Some (h\<lparr>ht_elms := elms\<rparr>))
     }
   }"

text \<open>From the lock on. The slot is a local variable that the first step computed from the hash of the key.\<close>

definition hash_finish :: "'k hashtable \<Rightarrow> addr \<Rightarrow> 'k \<Rightarrow> (int \<times> 'k hashtable) option" where
  "hash_finish h he key = do {
     let slot = get_slot h (ht_hashfn h key);
     h \<leftarrow> slot_lock wr_lock h slot;
     found \<leftarrow> slot_find h slot key;
     if found \<noteq> NULL then do { h \<leftarrow> slot_lock rw_unlock h slot; Some (-1, h) }
     else do {
       h \<leftarrow> slot_count_upd (\<lambda>c. c + 1) h slot;
       let h = h\<lparr>ht_count := snd (atomic_inc (ht_count h))\<rparr>;
       nodes \<leftarrow> list_add_front (ht_nodes h) (slot_head h slot) he;
       h \<leftarrow> hashelm_hold (h\<lparr>ht_nodes := nodes\<rparr>) he;
       h \<leftarrow> slot_lock rw_unlock h slot;
       Some (0, h)
     }
   }"

text \<open>\<^verbatim>\<open>hashtable_unhash\<close> up to the lock, where it knows the slot, and from the lock on.\<close>

definition unhash_begin :: "'k hashtable \<Rightarrow> addr \<Rightarrow> nat option" where
  "unhash_begin h he = do { e \<leftarrow> load (ht_elms h) he; Some (get_slot h (he_hash e)) }"

definition unhash_finish :: "'k hashtable \<Rightarrow> nat \<Rightarrow> addr \<Rightarrow> 'k hashtable option" where
  "unhash_finish h slot he = do {
     h \<leftarrow> slot_lock wr_lock h slot;
     h \<leftarrow> unhash_slot h slot he;
     slot_lock rw_unlock h slot
   }"

text \<open>
  A state is that of the clients and, per thread, what it is about to do under the lock: hash an element under a key, or take an element out of a slot. No thread starts to hash or unhash an
  element that another one is about to hash or unhash.
\<close>

datatype 'k locked_part = Hashing addr 'k | Unhashing addr nat

fun target :: "'k locked_part \<Rightarrow> addr" where
  "target (Hashing p key) = p"
| "target (Unhashing p slot) = p"

type_synonym 'k pending = "nat \<Rightarrow> 'k locked_part option"

definition claimed :: "'k pending \<Rightarrow> addr \<Rightarrow> bool" where
  "claimed pend p \<longleftrightarrow> (\<exists>t w. pend t = Some w \<and> target w = p)"

fun undisturbed :: "'k pending \<Rightarrow> 'k client_op \<Rightarrow> bool" where
  "undisturbed pend (Hash p key) \<longleftrightarrow> \<not> claimed pend p"
| "undisturbed pend (Unhash p) \<longleftrightarrow> \<not> claimed pend p"
| "undisturbed pend _ \<longleftrightarrow> True"

inductive thread_step :: "nat \<Rightarrow> 'k clients \<times> 'k pending \<Rightarrow> 'k clients \<times> 'k pending \<Rightarrow> bool" for N where
  whole: "pend t = None \<Longrightarrow> allowed N s t op \<Longrightarrow> undisturbed pend op \<Longrightarrow> client_exec t op s = Some s' \<Longrightarrow>
     thread_step N (s, pend) (s', pend)"
| hash_begins: "pend t = None \<Longrightarrow> allowed N s t (Hash p key) \<Longrightarrow> \<not> claimed pend p \<Longrightarrow> hash_begin (cl_table s) p key = Some (Some h) \<Longrightarrow>
     thread_step N (s, pend) (s\<lparr>cl_table := h\<rparr>, pend(t \<mapsto> Hashing p key))"
| hash_finishes: "pend t = Some (Hashing p key) \<Longrightarrow> roomy (cl_table s) p \<Longrightarrow> hash_finish (cl_table s) p key = Some (ret, h) \<Longrightarrow>
     thread_step N (s, pend) (s\<lparr>cl_table := h\<rparr>, pend(t := None))"
| unhash_begins: "pend t = None \<Longrightarrow> allowed N s t (Unhash p) \<Longrightarrow> \<not> claimed pend p \<Longrightarrow> unhash_begin (cl_table s) p = Some slot \<Longrightarrow>
     thread_step N (s, pend) (s, pend(t \<mapsto> Unhashing p slot))"
| unhash_finishes: "pend t = Some (Unhashing p slot) \<Longrightarrow> unhash_finish (cl_table s) slot p = Some h \<Longrightarrow>
     thread_step N (s, pend) (s\<lparr>cl_table := h\<rparr>, pend(t := None))"

section \<open>The two steps and the whole\<close>

lemma hash_split:
  "hashtable_hash h he key = do { r \<leftarrow> hash_begin h he key; case r of None \<Rightarrow> Some (-1, h) | Some h \<Rightarrow> hash_finish h he key }"
  unfolding hashtable_hash_def hash_begin_def hash_finish_def
  by (auto simp: Let_def bind_assoc intro!: Option.bind_cong split: if_splits)

lemma unhash_split: "hashtable_unhash h he = do { slot \<leftarrow> unhash_begin h he; unhash_finish h slot he }"
  by (simp add: hashtable_unhash_def unhash_begin_def unhash_finish_def bind_assoc Let_def)

text \<open>An element in the table, and the slot of its hash.\<close>

definition resident :: "'k hashtable \<Rightarrow> addr \<Rightarrow> nat \<Rightarrow> bool" where
  "resident h p slot \<longleftrightarrow> hashelm_hashed h p = Some True \<and> unhash_begin h p = Some slot"

lemma finish_is_unhash: "resident h p slot \<Longrightarrow> unhash_finish h slot p = hashtable_unhash h p"
  by (simp add: resident_def unhash_split)

text \<open>The element as the first step of \<open>hashtable_hash\<close> leaves it.\<close>

definition marked :: "'k hashtable \<Rightarrow> addr \<Rightarrow> 'k \<Rightarrow> bool" where
  "marked h p key \<longleftrightarrow> list_empty (ht_nodes h) p = Some True
     \<and> (\<exists>e. load (ht_elms h) p = Some e \<and> he_hash e = ht_hashfn h key \<and> he_ht e = Some (ht_self h) \<and> he_key e = key)"

lemma finish_is_hash:
  assumes "marked h p key"
  shows "hash_finish h p key = hashtable_hash h p key"
proof -
  obtain e where e: "load (ht_elms h) p = Some e" "he_hash e = ht_hashfn h key" "he_ht e = Some (ht_self h)" "he_key e = key"
      "list_empty (ht_nodes h) p = Some True"
    using assms by (auto simp: marked_def)
  then have same: "e\<lparr>he_hash := ht_hashfn h key, he_ht := Some (ht_self h), he_key := key\<rparr> = e" by (cases e) simp
  have "p \<noteq> NULL" "ht_elms h p = Some e" using load_SomeD [OF e(1)] by auto
  then have "h\<lparr>ht_elms := (ht_elms h)(p \<mapsto> e\<lparr>he_hash := ht_hashfn h key, he_ht := Some (ht_self h), he_key := key\<rparr>)\<rparr> = h"
    unfolding same by (simp add: fun_upd_idem)
  then have "hash_begin h p key = Some (Some h)" using e(1,5) \<open>p \<noteq> NULL\<close> by (simp add: hash_begin_def mem_simps)
  then show ?thesis by (simp add: hash_split)
qed

lemma begin_labels:
  assumes "hash_begin h p key = Some (Some h')"
  shows "h' = labelled h p key" "list_empty (ht_nodes h) p = Some True" "load (ht_elms h) p \<noteq> None" "marked h' p key"
  using assms by (auto simp: hash_begin_def marked_def labelled_def bind_Some_iff mem_simps dest: load_SomeD split: if_splits)

section \<open>What the other threads leave alone\<close>

text \<open>An element that is marked stays so if its node is untouched and only its count changes.\<close>

lemma marked_frame:
  assumes "marked h p key" "load (ht_nodes h') p = load (ht_nodes h) p" "load (ht_elms h) p = Some e"
    "load (ht_elms h') p = Some (e\<lparr>he_refcount := rc\<rparr>)" "ht_hashfn h' = ht_hashfn h" "ht_self h' = ht_self h"
  shows "marked h' p key"
  using assms by (auto simp: marked_def list_empty_def)

lemma marked_same:
  assumes "marked h p key" "load (ht_nodes h') p = load (ht_nodes h) p" "load (ht_elms h') p = load (ht_elms h) p"
    "ht_hashfn h' = ht_hashfn h" "ht_self h' = ht_self h"
  shows "marked h' p key"
  using assms by (auto simp: marked_def list_empty_def)

lemma marked_with_refs:
  assumes "marked h p key" "load (ht_elms h) q = Some e"
  shows "marked (with_refs h q rc) p key"
  using assms with_refs_load [OF assms(2), of rc p] by (auto simp: marked_def)

lemma marked_labelled:
  assumes "marked h p key" "q \<noteq> p"
  shows "marked (labelled h q key') p key"
  using assms by (intro marked_same [OF assms(1)]) (auto simp: labelled_def mem_simps)

lemma put_state_fns [simp]: "ht_hashfn (put_state h p) = ht_hashfn h" "ht_self (put_state h p) = ht_self h"
  by (auto simp: put_state_def Let_def call_freefn_def)

lemma marked_put:
  assumes m: "marked h p key" and e: "load (ht_elms h) q = Some e" and r: "q = p \<longrightarrow> 1 < refs_of h p"
  shows "marked (put_state h q) p key"
proof (cases "q = p")
  case True
  then show ?thesis using marked_with_refs [OF m e] r put_state_kept [of h q] by simp
next
  case False
  then show ?thesis using put_state_other [of p q h] by (intro marked_same [OF m]) auto
qed

lemma marked_hash:
  assumes m: "marked h p key'" and wf: "ht_wf h cs" and sp: "spare h cs q" and q: "q \<noteq> p" and p: "p \<notin> all_nodes (heads h) cs"
    and run: "hashtable_hash h q key = Some (ret, h')"
  shows "marked h' p key'"
proof (cases "ht_map h cs key")
  case (Some x)
  then show ?thesis using hash_start [OF wf sp, where key = key] run marked_labelled [OF m q] by simp
next
  case None
  let ?i = "get_slot h (ht_hashfn h key)"
  obtain n where n: "h' = hashed h q key n ?i (cs ! ?i)" "load n p = load (ht_nodes h) p"
    using hash_absent_run [OF wf sp None] run p q by auto
  then show ?thesis using q hashed_elms [OF sp, of key n ?i "cs ! ?i" p] by (intro marked_same [OF m]) auto
qed

lemma marked_hash_any:
  assumes m: "marked h p key'" and wf: "ht_wf h cs" and q: "q \<in> set (concat cs) \<or> spare h cs q" "q \<noteq> p" and p: "p \<notin> all_nodes (heads h) cs"
    and run: "hashtable_hash h q key = Some (ret, h')"
  shows "marked h' p key'"
proof (cases "q \<in> set (concat cs)")
  case True
  then show ?thesis using run m member_hashed [OF wf True] by (auto simp: hashtable_hash_def hashelm_hashed_def)
next
  case False
  then show ?thesis using marked_hash [OF m wf _ q(2) p run] q(1) by simp
qed

lemma marked_unhash:
  assumes m: "marked h p key" and wf: "ht_wf h cs" and q: "q \<in> set (concat cs)" and p: "p \<notin> all_nodes (heads h) cs"
    and run: "hashtable_unhash h q = Some h'"
  shows "marked h' p key"
proof -
  obtain i where i: "i < length cs" "q \<in> set (cs ! i)" using q in_concat by metis
  then obtain xs ys where c: "cs ! i = xs @ q # ys" by (meson split_list)
  obtain n where n: "h' = put_state (unlinked h n i (xs @ ys)) q" "load n p = load (ht_nodes h) p"
    using unhash_run [OF wf i(1) c] run p by auto
  have "p \<noteq> q" using p q concat_nodes by blast
  then have "load (ht_elms h') p = load (ht_elms h) p" "load (ht_nodes h') p = load (ht_nodes h) p"
    using n put_state_other(1,2) [of p q "unlinked h n i (xs @ ys)"] by simp_all
  then show ?thesis using n(1) by (intro marked_same [OF m]) simp_all
qed

lemma held_facts:
  assumes "ht_wf h cs" "\<forall>p. elm_counted N h (set (concat cs)) f p" "u < N" "0 < f u q"
  shows "\<exists>e. load (ht_elms h) q = Some e" "refs_of h q = held_total N f q + (if q \<in> set (concat cs) then 1 else 0)"
    "q \<notin> set (concat cs) \<Longrightarrow> q \<notin> all_nodes (heads h) cs" "q \<notin> set (concat cs) \<longleftrightarrow> list_empty (ht_nodes h) q = Some True"
    "0 < refs_of h q" "refs_of h q < 2 ^ 31"
proof -
  obtain e where e: "load (ht_elms h) q = Some e" "refs_of h q = held_total N f q + (if q \<in> set (concat cs) then 1 else 0)" "0 < held_total N f q"
      "refs_of h q < 2 ^ 31" "q \<notin> set (concat cs) \<Longrightarrow> q \<notin> set (heads h) \<and> list_empty (ht_nodes h) q = Some True"
    using held_alive [OF assms(2) [rule_format] assms(3,4)] by blast
  show "\<exists>e. load (ht_elms h) q = Some e" "refs_of h q = held_total N f q + (if q \<in> set (concat cs) then 1 else 0)"
    "0 < refs_of h q" "refs_of h q < 2 ^ 31" using e by simp_all
  show "q \<notin> all_nodes (heads h) cs" if "q \<notin> set (concat cs)" using e(5) that by (simp add: all_nodes_eq del: set_concat)
  show "q \<notin> set (concat cs) \<longleftrightarrow> list_empty (ht_nodes h) q = Some True"
    using e(5) member_hashed [OF assms(1), of q] by (auto simp: hashelm_hashed_def simp del: set_concat)
qed

lemma two_holders:
  assumes "t < N" "t' < N" "t' \<noteq> t"
  shows "f t p + f t' p \<le> held_total N f p"
  using sum_mono2 [of "{..<N}" "{t, t'}" "\<lambda>t. f t p"] assms by (auto simp: held_total_def)

lemma put_result:
  assumes "load (ht_elms h) q = Some e" "0 < refs_of h q" "refs_of h q < 2 ^ 31" "hashelm_put h q = Some h'"
  shows "h' = put_state h q"
proof -
  have "fst (atomic_dec_and_test (he_refcount e)) \<longleftrightarrow> refs_of h q = 1"
    using rc.release_last [of "he_refcount e" "refs_of h q"] assms(1-3) by (simp add: counts_def refs_of_def)
  moreover have "ht_elms h q = Some e" using assms(1) by (auto dest: load_SomeD)
  ultimately show ?thesis
    using assms(1,4) by (auto simp: hashelm_put_def put_state_def with_refs_def mem_simps Let_def case_prod_beta bind_Some_iff split: if_splits)
qed

text \<open>No operation of another thread disturbs an element that a thread with a reference has marked.\<close>

lemma op_keeps_marked:
  assumes ok: "clients_ok N s" and al: "allowed N s t' op" and run: "client_exec t' op s = Some s'"
    and p: "marked (cl_table s) p key" "t < N" "0 < cl_held s t p" "t' \<noteq> t" "\<And>key'. op \<noteq> Hash p key'"
  shows "marked (cl_table s') p key \<and> cl_held s' t p = cl_held s t p"
proof -
  obtain cs where cs: "ht_wf (cl_table s) cs" "\<forall>p. elm_counted N (cl_table s) (set (concat cs)) (cl_held s) p"
    using ok by (rule clients_okE)
  let ?h = "cl_table s" and ?S = "set (concat cs)"
  note live = held_facts [OF cs]
  have pS: "p \<notin> ?S" using live(4) [OF p(2,3)] p(1) by (simp add: marked_def del: set_concat)
  then have out: "p \<notin> all_nodes (heads ?h) cs" by (rule live(3) [OF p(2,3)])
  show ?thesis
  proof (cases op)
    case (Lookup k)
    show ?thesis
    proof (cases "ht_map ?h cs k")
      case None
      then show ?thesis using lookup_absent [OF cs(1) None] run p(1) Lookup by auto
    next
      case (Some q)
      then obtain e where e: "load (ht_elms ?h) q = Some e" using ht_wf_elm(2) [OF cs(1)] ht_map_iff(1) [OF cs(1)] by blast
      then show ?thesis
        using lookup_run [OF cs(1) Some e] run p(4) Lookup marked_with_refs [OF p(1) e] by (auto simp: held_add_def)
    qed
  next
    case (Hold q)
    then obtain e where e: "load (ht_elms ?h) q = Some e" using live(1) [of t' q] al by auto
    then show ?thesis using hold_eq [OF e] run p(4) Hold marked_with_refs [OF p(1) e] by (auto simp: held_add_def)
  next
    case (Put q)
    then have t': "t' < N" "0 < cl_held s t' q" using al by auto
    obtain e where e: "load (ht_elms ?h) q = Some e" using live(1) [OF t'] by blast
    have "1 < refs_of ?h p" if "q = p"
      using live(2) [OF p(2,3)] pS two_holders [OF p(2) t'(1) p(4), where f = "cl_held s" and p = p] p(3) t'(2) that by auto
    then show ?thesis
      using put_result [OF e live(5,6) [OF t']] run Put p(4) marked_put [OF p(1) e] by (auto simp: held_sub_def bind_Some_iff)
  next
    case (Hash q k)
    then have q: "t' < N" "0 < cl_held s t' q" "roomy ?h q" "q \<noteq> p" using al p(5) by auto
    obtain ret h' where r: "hashtable_hash ?h q k = Some (ret, h')" "s' = s\<lparr>cl_table := h'\<rparr>" using run Hash by (auto simp: bind_Some_iff)
    have "q \<in> ?S \<or> spare ?h cs q" using live [OF q(1,2)] q(3) by (auto simp: spare_def roomy_def)
    then show ?thesis using marked_hash_any [OF p(1) cs(1) _ q(4) out r(1)] r(2) by simp
  next
    case (Unhash q)
    then have q: "q \<in> ?S" using al live(4) [of t' q] by (auto simp: hashelm_hashed_def simp del: set_concat)
    obtain h' where "hashtable_unhash ?h q = Some h'" "s' = s\<lparr>cl_table := h'\<rparr>" using run Unhash by (auto simp: bind_Some_iff)
    then show ?thesis using marked_unhash [OF p(1) cs(1) q out] by simp
  qed
qed

text \<open>The same for an element that a thread is about to take out.\<close>

lemma resident_same:
  assumes "resident h p slot" "load (ht_nodes h') p = load (ht_nodes h) p" "load (ht_elms h) p = Some e" "load (ht_elms h') p = Some (e\<lparr>he_refcount := rc\<rparr>)"
    "get_slot h' = get_slot h"
  shows "resident h' p slot"
  using assms by (auto simp: resident_def hashelm_hashed_def list_empty_def unhash_begin_def)

lemma resident_with_refs:
  assumes "resident h p slot" "load (ht_elms h) q = Some e"
  shows "resident (with_refs h q rc) p slot"
  using assms with_refs_load [OF assms(2), of rc p]
  by (auto simp: resident_def hashelm_hashed_def unhash_begin_def bind_Some_iff)

text \<open>The count of an element tells whether it is in the table.\<close>

lemma resident_counted:
  assumes ok: "clients_ok N s" and e: "load (ht_elms (cl_table s)) p = Some e" "refs_of (cl_table s) p = held_total N (cl_held s) p + 1"
    and slot: "get_slot (cl_table s) (he_hash e) = slot"
  shows "resident (cl_table s) p slot"
proof -
  obtain cs where cs: "ht_wf (cl_table s) cs" "\<forall>p. elm_counted N (cl_table s) (set (concat cs)) (cl_held s) p"
    using ok by (rule clients_okE)
  have "p \<in> set (concat cs)" using cs(2) [rule_format, of p] e by (cases "p \<in> set (concat cs)") (simp_all add: elm_counted_def del: set_concat)
  then show ?thesis using member_hashed [OF cs(1)] e(1) slot by (simp add: resident_def unhash_begin_def)
qed

lemma hash_other:
  assumes wf: "ht_wf h cs" and q: "q \<in> set (concat cs) \<or> spare h cs q" "q \<noteq> p" and run: "hashtable_hash h q key = Some (ret, h')"
  shows "load (ht_elms h') p = load (ht_elms h) p" "get_slot h' = get_slot h"
proof -
  have "load (ht_elms h') p = load (ht_elms h) p \<and> get_slot h' = get_slot h"
  proof (cases "q \<in> set (concat cs)")
    case True
    then show ?thesis using run member_hashed [OF wf True] by (auto simp: hashtable_hash_def hashelm_hashed_def)
  next
    case False
    then have sp: "spare h cs q" using q(1) by blast
    show ?thesis
    proof (cases "ht_map h cs key")
      case (Some x)
      then show ?thesis using hash_start [OF wf sp, where key = key] run labelled_ok(3) [OF wf sp] q(2) by auto
    next
      case None
      let ?i = "get_slot h (ht_hashfn h key)"
      obtain n where "h' = hashed h q key n ?i (cs ! ?i)" using hash_absent_run [OF wf sp None] run by auto
      then show ?thesis using q(2) hashed_elms [OF sp, of key n ?i "cs ! ?i" p] by simp
    qed
  qed
  then show "load (ht_elms h') p = load (ht_elms h) p" "get_slot h' = get_slot h" by blast+
qed

lemma unhash_other:
  assumes wf: "ht_wf h cs" and q: "q \<in> set (concat cs)" "q \<noteq> p" and run: "hashtable_unhash h q = Some h'"
  shows "load (ht_elms h') p = load (ht_elms h) p" "get_slot h' = get_slot h"
proof -
  obtain i where i: "i < length cs" "q \<in> set (cs ! i)" using q(1) in_concat by metis
  then obtain xs ys where c: "cs ! i = xs @ q # ys" by (meson split_list)
  obtain n where n: "h' = put_state (unlinked h n i (xs @ ys)) q" using unhash_run [OF wf i(1) c] run by auto
  then show "load (ht_elms h') p = load (ht_elms h) p" "get_slot h' = get_slot h"
    using put_state_other(1) [of p q "unlinked h n i (xs @ ys)"] q(2) by simp_all
qed

lemma op_keeps_resident:
  assumes ok: "clients_ok N s" and al: "allowed N s t' op" and run: "client_exec t' op s = Some s'"
    and p: "resident (cl_table s) p slot" "t < N" "0 < cl_held s t p" "t' \<noteq> t" "\<And>key'. op \<noteq> Hash p key'" "op \<noteq> Unhash p"
  shows "resident (cl_table s') p slot \<and> cl_held s' t p = cl_held s t p"
proof -
  obtain cs where cs: "ht_wf (cl_table s) cs" "\<forall>p. elm_counted N (cl_table s) (set (concat cs)) (cl_held s) p"
    using ok by (rule clients_okE)
  have ok': "clients_ok N s'" using client_exec_ok [OF ok al] run by auto
  let ?h = "cl_table s" and ?S = "set (concat cs)"
  note live = held_facts [OF cs]
  have pS: "p \<in> ?S" using live(4) [OF p(2,3)] p(1) by (auto simp: resident_def hashelm_hashed_def simp del: set_concat)
  obtain e where e: "load (ht_elms ?h) p = Some e" "get_slot ?h (he_hash e) = slot" using p(1) by (auto simp: resident_def unhash_begin_def bind_Some_iff)
  have rp: "refs_of ?h p = held_total N (cl_held s) p + 1" using live(2) [OF p(2,3)] pS by simp
  have other: "resident h' p slot" if "clients_ok N (s\<lparr>cl_table := h'\<rparr>)" "load (ht_elms h') p = load (ht_elms ?h) p" "get_slot h' = get_slot ?h" for h'
    using resident_counted [OF that(1), of p e slot] that(2,3) e rp by (simp add: refs_of_def)
  show ?thesis
  proof (cases op)
    case (Lookup k)
    show ?thesis
    proof (cases "ht_map ?h cs k")
      case None
      then show ?thesis using lookup_absent [OF cs(1) None] run p(1) Lookup by auto
    next
      case (Some q)
      then obtain e where e: "load (ht_elms ?h) q = Some e" using ht_wf_elm(2) [OF cs(1)] ht_map_iff(1) [OF cs(1)] by blast
      then show ?thesis
        using lookup_run [OF cs(1) Some e] run p(4) Lookup resident_with_refs [OF p(1) e] by (auto simp: held_add_def)
    qed
  next
    case (Hold q)
    then obtain e where e: "load (ht_elms ?h) q = Some e" using live(1) [of t' q] al by auto
    then show ?thesis using hold_eq [OF e] run p(4) Hold resident_with_refs [OF p(1) e] by (auto simp: held_add_def)
  next
    case (Put q)
    then have t': "t' < N" "0 < cl_held s t' q" using al by auto
    obtain eq where eq: "load (ht_elms ?h) q = Some eq" using live(1) [OF t'] by blast
    have "resident (put_state ?h q) p slot"
    proof (cases "q = p")
      case True
      have "1 < refs_of ?h p" using rp total_pos [of t N "cl_held s" p] p(2,3) by simp
      then show ?thesis using True resident_with_refs [OF p(1) eq] put_state_kept [of ?h q] by simp
    next
      case False
      then show ?thesis
        using put_state_other(1,2) [of p q ?h] e(1) by (intro resident_same [OF p(1), of _ e "he_refcount e"]) auto
    qed
    then show ?thesis
      using put_result [OF eq live(5,6) [OF t']] run Put p(4) by (auto simp: held_sub_def bind_Some_iff)
  next
    case (Hash q k)
    then have q: "t' < N" "0 < cl_held s t' q" "roomy ?h q" "q \<noteq> p" using al p(5) by auto
    obtain ret h' where r: "hashtable_hash ?h q k = Some (ret, h')" "s' = s\<lparr>cl_table := h'\<rparr>" using run Hash by (auto simp: bind_Some_iff)
    have "q \<in> ?S \<or> spare ?h cs q" using live [OF q(1,2)] q(3) by (auto simp: spare_def roomy_def)
    from hash_other [OF cs(1) this q(4) r(1)] show ?thesis using other [of h'] ok' r(2) by simp
  next
    case (Unhash q)
    then have q: "q \<in> ?S" "q \<noteq> p" using al live(4) [of t' q] p(6) by (auto simp: hashelm_hashed_def simp del: set_concat)
    obtain h' where r: "hashtable_unhash ?h q = Some h'" "s' = s\<lparr>cl_table := h'\<rparr>" using run Unhash by (auto simp: bind_Some_iff)
    from unhash_other [OF cs(1) q r(1)] show ?thesis using other [of h'] ok' r(2) by simp
  qed
qed

section \<open>The invariant of the threads\<close>

text \<open>What the first step of a thread has left for the second.\<close>

fun ready :: "'k hashtable \<Rightarrow> 'k locked_part \<Rightarrow> bool" where
  "ready h (Hashing p key) \<longleftrightarrow> marked h p key"
| "ready h (Unhashing p slot) \<longleftrightarrow> resident h p slot"

lemma op_keeps_ready:
  assumes "clients_ok N s" "allowed N s t' op" "client_exec t' op s = Some s'" "ready (cl_table s) w" "t < N" "0 < cl_held s t (target w)" "t' \<noteq> t"
    and "\<And>key'. op \<noteq> Hash (target w) key'" "op \<noteq> Unhash (target w)"
  shows "ready (cl_table s') w \<and> cl_held s' t (target w) = cl_held s t (target w)"
  using assms op_keeps_marked [OF assms(1-3)] op_keeps_resident [OF assms(1-3)] by (cases w) auto

definition threads_ok :: "nat \<Rightarrow> 'k clients \<times> 'k pending \<Rightarrow> bool" where
  "threads_ok N = (\<lambda>(s, pend). clients_ok N s
     \<and> (\<forall>t w. pend t = Some w \<longrightarrow> t < N \<and> 0 < cl_held s t (target w) \<and> ready (cl_table s) w)
     \<and> (\<forall>t t' w w'. pend t = Some w \<and> pend t' = Some w' \<and> target w = target w' \<longrightarrow> t = t'))"

lemma threads_okD:
  assumes "threads_ok N (s, pend)"
  shows "clients_ok N s" "pend t = Some w \<Longrightarrow> t < N" "pend t = Some w \<Longrightarrow> 0 < cl_held s t (target w)" "pend t = Some w \<Longrightarrow> ready (cl_table s) w"
    "pend t = Some w \<Longrightarrow> pend t' = Some w' \<Longrightarrow> target w = target w' \<Longrightarrow> t = t'"
  using assms unfolding threads_ok_def split_conv by blast+

text \<open>What thread \<open>t\<close> does keeps the invariant if it keeps what the others rely on.\<close>

lemma threads_ok_step:
  assumes "threads_ok N (s, pend)" "clients_ok N s'" "\<And>u. u \<noteq> t \<Longrightarrow> pend' u = pend u"
    and "\<And>u w. u \<noteq> t \<Longrightarrow> pend u = Some w \<Longrightarrow> ready (cl_table s') w \<and> cl_held s' u (target w) = cl_held s u (target w)"
    and "\<And>w. pend' t = Some w \<Longrightarrow> t < N \<and> 0 < cl_held s' t (target w) \<and> ready (cl_table s') w \<and> (\<forall>u \<noteq> t. \<forall>w'. pend u = Some w' \<longrightarrow> target w' \<noteq> target w)"
  shows "threads_ok N (s', pend')"
proof -
  note old = threads_okD [OF assms(1)]
  have "u < N \<and> 0 < cl_held s' u (target w) \<and> ready (cl_table s') w" if "pend' u = Some w" for u w
  proof (cases "u = t")
    case False
    then have "pend u = Some w" using assms(3) that by simp
    then show ?thesis using old(2,3) assms(4) [OF False] by metis
  qed (use assms(5) that in blast)
  moreover have "u = v" if "pend' u = Some w" "pend' v = Some w'" "target w = target w'" for u v w w'
    using that assms(3,5) old(5) by metis
  ultimately show ?thesis using assms(2) unfolding threads_ok_def split_conv by blast
qed

lemma begin_ok:
  assumes ok: "clients_ok N s" and al: "allowed N s t (Hash p key)" and run: "hash_begin (cl_table s) p key = Some (Some h)"
  shows "clients_ok N (s\<lparr>cl_table := h\<rparr>)"
proof -
  obtain cs where cs: "ht_wf (cl_table s) cs" "\<forall>p. elm_counted N (cl_table s) (set (concat cs)) (cl_held s) p" "ht_freefn (cl_table s)"
      "distinct (ht_freed (cl_table s))" "\<forall>p \<in> set (ht_freed (cl_table s)). load (ht_elms (cl_table s)) p = None"
    using ok by (rule clients_okE)
  note b = begin_labels [OF run]
  have t: "t < N" "0 < cl_held s t p" "roomy (cl_table s) p" using al by auto
  have "spare (cl_table s) cs p" using held_facts [OF cs(1,2) t(1,2)] b(2) t(3) by (simp add: spare_def roomy_def)
  then show ?thesis using hash_refused_ok [OF cs] b(1,3) by auto
qed

lemma finish_exec:
  assumes "marked (cl_table s) p key" "hash_finish (cl_table s) p key = Some (ret, h)"
  shows "client_exec t (Hash p key) s = Some (s\<lparr>cl_table := h\<rparr>)"
  using assms by (simp add: finish_is_hash)

lemma resident_labelled: "resident h p slot \<Longrightarrow> q \<noteq> p \<Longrightarrow> resident (labelled h q key) p slot"
  by (auto simp: resident_def hashelm_hashed_def unhash_begin_def labelled_def mem_simps)

lemma ready_labelled: "ready h w \<Longrightarrow> q \<noteq> target w \<Longrightarrow> ready (labelled h q key) w"
  by (cases w) (auto simp: marked_labelled resident_labelled)

lemma thread_step_ok:
  assumes "thread_step N c c'" "threads_ok N c"
  shows "threads_ok N c'"
  using assms
proof (induction rule: thread_step.induct)
  case (whole pend t s op s')
  note inv = threads_okD [OF whole(5)]
  show ?case
  proof (rule threads_ok_step [OF whole(5), of _ t])
    show "clients_ok N s'" using client_exec_ok [OF inv(1) whole(2)] whole(4) by auto
    show "ready (cl_table s') w \<and> cl_held s' u (target w) = cl_held s u (target w)" if "u \<noteq> t" "pend u = Some w" for u w
      using whole(3) that inv(2-4) [OF that(2)]
      by (intro op_keeps_ready [OF inv(1) whole(2,4)]) (force simp: claimed_def)+
  qed (use whole(1) in auto)
next
  case (hash_begins pend t s p key h)
  note b = begin_labels [OF hash_begins(4)] and inv = threads_okD [OF hash_begins(5)]
  show ?case
  proof (rule threads_ok_step [OF hash_begins(5), of _ t])
    show "clients_ok N (s\<lparr>cl_table := h\<rparr>)" using begin_ok [OF inv(1) hash_begins(2,4)] .
    show "ready (cl_table (s\<lparr>cl_table := h\<rparr>)) w \<and> cl_held (s\<lparr>cl_table := h\<rparr>) u (target w) = cl_held s u (target w)" if "u \<noteq> t" "pend u = Some w" for u w
      using ready_labelled [OF inv(4) [OF that(2)], of p key] hash_begins(3) that b(1) by (auto simp: claimed_def)
  qed (use hash_begins(2,3) b(4) in \<open>auto simp: claimed_def\<close>)
next
  case (hash_finishes pend t p key s ret h)
  note inv = threads_okD [OF hash_finishes(4)]
  have p: "t < N" "0 < cl_held s t p" "marked (cl_table s) p key" using inv(2-4) [OF hash_finishes(1)] by simp_all
  have al: "allowed N s t (Hash p key)" using p hash_finishes(2) by simp
  note run = finish_exec [OF p(3) hash_finishes(3), of t]
  show ?case
  proof (rule threads_ok_step [OF hash_finishes(4), of _ t])
    show "clients_ok N (s\<lparr>cl_table := h\<rparr>)" using client_exec_ok [OF inv(1) al] run by simp
    show "ready (cl_table (s\<lparr>cl_table := h\<rparr>)) w \<and> cl_held (s\<lparr>cl_table := h\<rparr>) u (target w) = cl_held s u (target w)" if "u \<noteq> t" "pend u = Some w" for u w
      using inv(2-4) [OF that(2)] inv(5) [OF that(2) hash_finishes(1)] that(1) by (intro op_keeps_ready [OF inv(1) al run]) auto
  qed auto
next
  case (unhash_begins pend t s p slot)
  note inv = threads_okD [OF unhash_begins(5)]
  show ?case
    by (rule threads_ok_step [OF unhash_begins(5), of _ t])
      (use unhash_begins(2-4) inv in \<open>auto simp: claimed_def resident_def\<close>)
next
  case (unhash_finishes pend t p slot s h)
  note inv = threads_okD [OF unhash_finishes(3)]
  have p: "t < N" "0 < cl_held s t p" "resident (cl_table s) p slot" using inv(2-4) [OF unhash_finishes(1)] by simp_all
  have al: "allowed N s t (Unhash p)" using p by (simp add: resident_def)
  have run: "client_exec t (Unhash p) s = Some (s\<lparr>cl_table := h\<rparr>)" using finish_is_unhash [OF p(3), symmetric] unhash_finishes(2) by simp
  show ?case
  proof (rule threads_ok_step [OF unhash_finishes(3), of _ t])
    show "clients_ok N (s\<lparr>cl_table := h\<rparr>)" using client_exec_ok [OF inv(1) al] run by simp
    show "ready (cl_table (s\<lparr>cl_table := h\<rparr>)) w \<and> cl_held (s\<lparr>cl_table := h\<rparr>) u (target w) = cl_held s u (target w)" if "u \<noteq> t" "pend u = Some w" for u w
      using inv(2-4) [OF that(2)] inv(5) [OF that(2) unhash_finishes(1)] that(1) by (intro op_keeps_ready [OF inv(1) al run]) auto
  qed auto
qed

lemma threads_reach: "rtranclp (thread_step N) c0 c \<Longrightarrow> threads_ok N c0 \<Longrightarrow> threads_ok N c"
  by (induction rule: rtranclp_induct) (auto dest: thread_step_ok)

section \<open>The interleavings that are safe\<close>

text \<open>
  C4: Threads that share a table, with \<^verbatim>\<open>hashtable_hash\<close> and \<^verbatim>\<open>hashtable_unhash\<close> interrupted before they take the lock. The threads hold, put, hash and unhash only elements they have a reference to,
  unhash only elements that are in the table, take a reference only while fewer than \<open>2\<^sup>3\<^sup>1 - 1\<close> exist, put the last one only of an element that was hashed before, and no two of them hash or unhash the same element at the same time. Whatever such threads have done, in any interleaving: every operation that these rules allow runs
  without a fault, and so does the rest of every interrupted call, which does exactly what the whole function would do at that moment. The counts are exact again; no element was freed twice,
  or while a thread had a reference to it; an element that no thread has a reference to and that is not in the table is gone.
\<close>

theorem hashtable_threads_safe:
  assumes "threads_ok N c0" "rtranclp (thread_step N) c0 (s, pend)"
  shows "clients_ok N s \<and> (\<forall>t op. pend t = None \<and> allowed N s t op \<longrightarrow> (\<exists>s'. client_exec t op s = Some s'))
     \<and> (\<forall>t p key. pend t = Some (Hashing p key) \<and> roomy (cl_table s) p \<longrightarrow>
          hash_finish (cl_table s) p key = hashtable_hash (cl_table s) p key \<and> (\<exists>ret h. hash_finish (cl_table s) p key = Some (ret, h)))
     \<and> (\<forall>t p slot. pend t = Some (Unhashing p slot) \<longrightarrow>
          unhash_finish (cl_table s) slot p = hashtable_unhash (cl_table s) p \<and> (\<exists>h. unhash_finish (cl_table s) slot p = Some h))
     \<and> distinct (ht_freed (cl_table s)) \<and> (\<forall>p \<in> set (ht_freed (cl_table s)). \<forall>t < N. cl_held s t p = 0)
     \<and> (\<forall>p. (\<forall>t < N. cl_held s t p = 0) \<and> hashelm_hashed (cl_table s) p \<noteq> Some True \<longrightarrow> load (ht_elms (cl_table s)) p = None)"
proof -
  note inv = threads_okD [OF threads_reach [OF assms(2,1)]]
  note ok = inv(1)
  have "hash_finish (cl_table s) p key = hashtable_hash (cl_table s) p key \<and> (\<exists>ret h. hash_finish (cl_table s) p key = Some (ret, h))"
    if "pend t = Some (Hashing p key)" "roomy (cl_table s) p" for t p key
  proof -
    have p: "t < N" "0 < cl_held s t p" "marked (cl_table s) p key" using inv(2-4) [OF that(1)] by simp_all
    then have "\<exists>s'. client_exec t (Hash p key) s = Some s'" using client_exec_ok [OF ok, of t "Hash p key"] that(2) by auto
    then show ?thesis using finish_is_hash [OF p(3)] by (auto simp: bind_Some_iff)
  qed
  moreover have "unhash_finish (cl_table s) slot p = hashtable_unhash (cl_table s) p \<and> (\<exists>h. unhash_finish (cl_table s) slot p = Some h)"
    if "pend t = Some (Unhashing p slot)" for t p slot
  proof -
    have p: "t < N" "0 < cl_held s t p" "resident (cl_table s) p slot" using inv(2-4) [OF that] by simp_all
    then have "\<exists>s'. client_exec t (Unhash p) s = Some s'" using client_exec_ok [OF ok, of t "Unhash p"] by (auto simp: resident_def)
    then show ?thesis using finish_is_unhash [OF p(3)] by (auto simp: bind_Some_iff)
  qed
  ultimately show ?thesis using ok clients_exact [OF ok] client_exec_ok [OF ok] by blast
qed

section \<open>Two threads that hash one element\<close>

text \<open>The second step on a slot that is in order; the rest of the table need not be.\<close>

definition finished :: "'k hashtable \<Rightarrow> addr \<Rightarrow> lmem \<Rightarrow> nat \<Rightarrow> 'k hashelm \<Rightarrow> hashslot \<Rightarrow> 'k hashtable" where
  "finished h p m i e sl = (with_refs h p (snd (atomic_inc (he_refcount e))))\<lparr>ht_nodes := m, ht_count := snd (atomic_inc (ht_count h)),
     ht_slots := (ht_slots h)[i := Some \<lparr>sl_count = sl_count sl + 1, sl_lock = Unlocked\<rparr>]\<rparr>"

lemma finished_simps [simp]:
  "ht_nodes (finished h p m i e sl) = m" "slot_head (finished h p m i e sl) = slot_head h" "get_slot (finished h p m i e sl) = get_slot h"
  "ht_hashfn (finished h p m i e sl) = ht_hashfn h" "keyed (finished h p m i e sl) = keyed h" "ht_mask (finished h p m i e sl) = ht_mask h"
  "i < length (ht_slots h) \<Longrightarrow> aread (ht_slots (finished h p m i e sl)) j = (if j = i then Some \<lparr>sl_count = sl_count sl + 1, sl_lock = Unlocked\<rparr> else aread (ht_slots h) j)"
  by (simp_all add: finished_def arr_simps)

lemma finished_elms:
  "load (ht_elms h) p = Some e \<Longrightarrow>
     load (ht_elms (finished h p m i e sl)) q = (if q = p then Some (e\<lparr>he_refcount := snd (atomic_inc (he_refcount e))\<rparr>) else load (ht_elms h) q)"
  using with_refs_load [of h p e "snd (atomic_inc (he_refcount e))" q] by (simp add: finished_def)

lemma finish_run:
  assumes "aread (ht_slots h) i = Some sl" "sl_lock sl = Unlocked" "i = get_slot h (ht_hashfn h key)" "slot_find h i key = Some NULL"
    and "list_add_front (ht_nodes h) (slot_head h i) p = Some m" "load (ht_elms h) p = Some e"
  shows "hash_finish h p key = Some (0, finished h p m i e sl)"
proof -
  have i: "i < length (ht_slots h)" using assms(1) by (auto simp: aread_def split: if_splits)
  let ?ss = "(ht_slots h)[i := Some (sl\<lparr>sl_lock := Write_locked, sl_count := sl_count sl + 1\<rparr>)]"
  let ?h = "h\<lparr>ht_slots := ?ss, ht_count := snd (atomic_inc (ht_count h)), ht_nodes := m\<rparr>"
  have "hashelm_hold ?h p = Some (with_refs ?h p (snd (atomic_inc (he_refcount e))))" by (rule hold_eq) (simp add: assms(6))
  moreover have "slot_lock rw_unlock (with_refs ?h p (snd (atomic_inc (he_refcount e)))) i = Some (finished h p m i e sl)"
    using slot_unlock_upd [of "with_refs ?h p (snd (atomic_inc (he_refcount e)))" "ht_slots h" i "sl_count sl + 1" sl] i
    by (simp add: finished_def with_refs_def)
  moreover have "slot_lock wr_lock h i = Some (locked Write_locked h i)" using assms(1,2) by (intro slot_lock_eq) auto
  ultimately show ?thesis
    unfolding hash_finish_def assms(3) [symmetric]
    using assms(4,5) slot_count_locked [OF assms(1), of "\<lambda>c. c + 1" Write_locked] by (simp add: Let_def)
qed

text \<open>A traversal that starts in the list of another anchor comes to that anchor and takes it for an element.\<close>

lemma list_foreach_stray:
  assumes "linked m y xs b" "a \<notin> set xs" "a \<noteq> b" "\<forall>x \<in> set xs. body x s = Some (False, s)" "body b s = None"
  shows "list_foreach m a body (hd (xs @ [b])) s = None"
  using assms
proof (induction xs arbitrary: y)
  case Nil
  then show ?case by (simp add: list_foreach.simps)
next
  case (Cons x xs)
  have "nxt m x = Some (hd (xs @ [b]))" using Cons.prems(1) linked_ends by auto
  then obtain n where "load m x = Some n" "lnext n = hd (xs @ [b])" by (auto dest!: nxt_load)
  moreover have "list_foreach m a body (hd (xs @ [b])) s = None" by (rule Cons.IH [of x]) (use Cons.prems in auto)
  ultimately show ?case using Cons.prems by (subst list_foreach.simps) simp
qed

lemma not_in_slot:
  assumes "ht_wf h cs" "q \<in> set (cs ! j)" "j < length cs"
  shows "q \<in> set (concat cs)" "get_slot h (ht_hashfn h (key_of h q)) = j" "load (ht_elms h) q \<noteq> None"
  using ht_wfD(4) [OF assms(1,3,2)] assms by (auto simp: elm_ok_def key_of_def)

lemma lookup_stray:
  assumes sl: "aread (ht_slots g) i = Some sl" "sl_lock sl = Unlocked" and i: "i = get_slot g (ht_hashfn g key)"
    and ch: "nxt (ht_nodes g) (slot_head g i) = Some (hd (xs @ [b]))" "linked (ht_nodes g) b xs b" "slot_head g i \<notin> set xs" "slot_head g i \<noteq> b"
    and ky: "keyed g" "\<forall>x \<in> set xs. \<exists>e. load (ht_elms g) x = Some e \<and> he_key e \<noteq> key" "load (ht_elms g) b = None"
  shows "hashtable_lookup g key = None"
proof -
  have "\<forall>x \<in> set xs. find_body g key x NULL = Some (False, NULL)" "find_body g key b NULL = None"
    using ky by (fastforce simp: find_body_def keyed_def)+
  then have "list_foreach (ht_nodes g) (slot_head g i) (find_body g key) (hd (xs @ [b])) NULL = None"
    by (rule list_foreach_stray [OF ch(2-4)])
  moreover have "list_front (ht_nodes g) (slot_head g i) = Some (hd (xs @ [b]))"
    using ch(1) by (auto simp: list_front_def dest!: nxt_load)
  ultimately have "slot_find g i key = None" by (simp add: slot_find_def)
  moreover have "slot_lock rd_lock g i = Some (locked (Read_locked 1) g i)" using sl by (intro slot_lock_eq) auto
  ultimately show ?thesis by (simp add: hashtable_lookup_def i [symmetric] Let_def)
qed

lemma begin_spare:
  assumes "ht_wf h cs" "spare h cs p"
  shows "hash_begin h p key = Some (Some (labelled h p key))" "ht_wf (labelled h p key) cs" "ht_map (labelled h p key) cs = ht_map h cs"
    "spare (labelled h p key) cs p"
proof -
  note l = labelled_ok [OF assms, where key = key]
  show "ht_wf (labelled h p key) cs" "ht_map (labelled h p key) cs = ht_map h cs" by (fact l(1,2))+
  obtain e where e: "load (ht_elms h) p = Some e" "p \<noteq> NULL" "ht_elms h p = Some e" using assms(2) by (auto simp: spare_def dest: load_SomeD)
  then show "hash_begin h p key = Some (Some (labelled h p key))"
    using assms(2) by (simp add: hash_begin_def spare_def labelled_def mem_simps)
  show "spare (labelled h p key) cs p"
    using assms(2) e(2) l(4) [of p] by (auto simp: spare_def labelled_def mem_simps)
qed

text \<open>The first thread inserts the element under \<open>k1\<close>, although it is marked with the other key.\<close>

lemma race_first:
  assumes wf: "ht_wf h cs" and sp: "spare h cs p" and k: "ht_map h cs key = None" and i: "i = get_slot h (ht_hashfn h key)"
  obtains m e sl where "hash_finish h p key = Some (0, finished h p m i e sl)" "dlists m (heads h) (cs[i := p # cs ! i])" "load m p \<noteq> None"
    "load (ht_elms h) p = Some e"
proof -
  have il: "i < length cs" using get_slot_bound ht_wfD(1) [OF wf] by (simp add: i)
  have p: "p \<notin> all_nodes (heads h) cs" "load (ht_nodes h) p \<noteq> None" using sp by (auto simp: spare_def list_empty_def bind_Some_iff)
  obtain m where m: "list_add_front (ht_nodes h) (slot_head h i) p = Some m" "dlists m (heads h) (cs[i := p # cs ! i])"
      "\<forall>q. load m q = None \<longleftrightarrow> load (ht_nodes h) q = None"
    using ll.add_front_law [OF ht_wfD(3) [OF wf], of i p] il ht_wfD(1) [OF wf] p by (auto simp: heads_nth)
  obtain e where e: "load (ht_elms h) p = Some e" using sp by (auto simp: spare_def)
  have "slot_find h i key = Some NULL" using slot_find_map [OF wf i] k by simp
  from finish_run [OF ht_wf_slot(1) [OF wf il] _ i this m(1) e]
  have f: "hash_finish h p key = Some (0, finished h p m i e \<lparr>sl_count = of_nat (length (cs ! i)), sl_lock = Unlocked\<rparr>)" by simp
  have "load m p \<noteq> None" using m(3) p(2) by simp
  then show thesis using that [OF f m(2) _ e] by blast
qed

text \<open>The second thread inserts it under \<open>k2\<close> into another slot: the list of the first slot now runs into that of the second.\<close>

lemma race_second:
  assumes wf: "ht_wf h cs" and k: "ht_map h cs key = None" and j: "j = get_slot h (ht_hashfn h key)" "j \<noteq> i" "i < length cs"
    and p: "p \<notin> all_nodes (heads h) cs" "load (ht_elms h) p = Some e" "load m p \<noteq> None" and m: "dlists m (heads h) (cs[i := p # cs ! i])"
  obtains m' e' sl' where "hash_finish (finished h p m i e sl) p key = Some (0, finished (finished h p m i e sl) p m' j e' sl')"
    "dlist m' (slot_head h j) (p # cs ! j)" "load m' (slot_head h i) = load m (slot_head h i)" "load (ht_elms (finished h p m i e sl)) p = Some e'"
proof -
  let ?g = "finished h p m i e sl"
  have len: "length cs = unat (ht_mask h) + 1" by (rule ht_wfD(1) [OF wf])
  have jl: "j < length cs" using get_slot_bound len by (simp add: j)
  have il: "i < length (ht_slots h)" using ht_wf_slot(2) [OF wf j(3)] .
  have ps: "p \<notin> set (slot_head h j # cs ! j)" "p \<noteq> slot_head h i"
    using p(1) jl j(3) len by (auto simp: all_nodes_nth heads_nth)
  have d: "dlist m (slot_head h j) (cs ! j)" using dlistsD(2) [OF m, of j] jl len j(2) by (simp add: heads_nth)
  have "\<forall>q \<in> set (cs ! j). load (ht_elms ?g) q = load (ht_elms h) q" using ps(1) finished_elms [OF p(2)] by auto
  then have q: "\<forall>q \<in> set (cs ! j). load (ht_elms ?g) q \<noteq> None \<and> key_of ?g q \<noteq> key"
    using not_in_slot [OF wf _ jl] k ht_map_iff(2) [OF wf, of key] by (auto simp: key_of_def simp del: set_concat)
  then have "find (\<lambda>p. key_of ?g p = key) (cs ! j) = None" by (simp add: find_None_iff)
  then have fd: "slot_find ?g j key = Some NULL"
    using slot_find_chain [of ?g j "cs ! j" key] d q ht_wfD(7) [OF wf] by simp
  obtain m' where m': "list_add_front m (slot_head h j) p = Some m'" "dlist m' (slot_head h j) (p # cs ! j)"
      "\<forall>q. q \<notin> set (p # slot_head h j # cs ! j) \<longrightarrow> load m' q = load m q"
    using list_add_front_dlist [OF d ps(1)] p(3) by (auto simp: live_def)
  have "slot_head h i \<notin> set (slot_head h j # cs ! j)"
    using dlistsD(3) [OF ht_wfD(3) [OF wf], of i j] j(2,3) jl len by (auto simp: heads_nth)
  then have hd: "load m' (slot_head h i) = load m (slot_head h i)" using m'(3) ps(2) by auto
  obtain e' where e': "load (ht_elms ?g) p = Some e'" using finished_elms [OF p(2)] by simp
  have "hash_finish ?g p key = Some (0, finished ?g p m' j e' \<lparr>sl_count = of_nat (length (cs ! j)), sl_lock = Unlocked\<rparr>)"
    by (rule finish_run) (use ht_wf_slot(1) [OF wf jl] il j fd m'(1) e' in simp_all)
  then show thesis using that m'(2) hd e' by blast
qed

text \<open>Every lookup in the first slot now runs into the head of the second.\<close>

lemma race_lookup:
  assumes wf: "ht_wf h cs" and ij: "i < length cs" "j < length cs" "i \<noteq> j" and out: "p \<notin> all_nodes (heads h) cs"
    and m: "dlists m (heads h) (cs[i := p # cs ! i])" and e: "load (ht_elms h) p = Some e" "get_slot h (ht_hashfn h (he_key e)) = j"
    and m': "dlist m' (slot_head h j) (p # cs ! j)" "load m' (slot_head h i) = load m (slot_head h i)"
    and e': "load (ht_elms (finished h p m i e sl)) p = Some e'"
    and no_elm: "load (ht_elms h) (slot_head h j) = None" and key: "get_slot h (ht_hashfn h key) = i"
  shows "hashtable_lookup (finished (finished h p m i e sl) p m' j e' sl') key = None"
proof -
  let ?g = "finished h p m i e sl"
  let ?h4 = "finished ?g p m' j e' sl'"
  have len: "length cs = unat (ht_mask h) + 1" by (rule ht_wfD(1) [OF wf])
  have il: "i < length (ht_slots h)" "j < length (ht_slots h)" using ht_wf_slot(2) [OF wf] ij by auto
  have head: "slot_head h i \<noteq> slot_head h j" "slot_head h i \<notin> set (cs ! j)" "p \<noteq> slot_head h i" "p \<notin> set (cs ! j)"
    using dlistsD(3) [OF ht_wfD(3) [OF wf], of i j] out ij len by (auto simp: heads_nth all_nodes_nth)
  have "dlist m (slot_head h i) (p # cs ! i)" using dlistsD(2) [OF m, of i] ij len by (simp add: heads_nth)
  then have nx: "nxt m' (slot_head h i) = Some p" using m'(2) by (simp add: dlist_def nxt_def)
  have el: "load (ht_elms ?h4) q = (if q = p then Some (e'\<lparr>he_refcount := snd (atomic_inc (he_refcount e'))\<rparr>) else load (ht_elms h) q)" for q
    using finished_elms [OF e', of m' j sl' q] finished_elms [OF e(1), of m i sl q] by simp
  have "he_key e' = he_key e" using e' finished_elms [OF e(1), of m i sl p] by auto
  then have "he_key e' \<noteq> key" using e(2) key ij(3) by auto
  moreover have "\<exists>x. load (ht_elms h) q = Some x \<and> he_key x \<noteq> key" if "q \<in> set (cs ! j)" for q
    using not_in_slot [OF wf that ij(2)] key ij(3) by (auto simp: key_of_def)
  ultimately have ky: "\<forall>q \<in> set (p # cs ! j). \<exists>x. load (ht_elms ?h4) q = Some x \<and> he_key x \<noteq> key"
    using head(4) by (auto simp: el)
  show ?thesis
  proof (rule lookup_stray [where i = i and xs = "p # cs ! j" and b = "slot_head h j"])
    show "aread (ht_slots ?h4) i = Some \<lparr>sl_count = sl_count sl + 1, sl_lock = Unlocked\<rparr>"
      using il ij(3) by (simp add: finished_def arr_simps)
    show "load (ht_elms ?h4) (slot_head h j) = None" using no_elm e(1) by (auto simp: el)
  qed (use nx m'(1) head key ky ht_wfD(7) [OF wf] in \<open>auto simp: dlist_def\<close>)
qed

text \<open>
  C5: Two threads hash the same element under two keys, both keys new and of different slots, and both have tested the element before the first one takes a lock. Both calls return \<open>0\<close>, and
  the table is broken: every lookup of a key of the first slot, also of the key that the first thread just inserted, comes to the head of the second slot and takes it for an
  element.
\<close>

theorem hashtable_hash_race:
  assumes wf: "ht_wf h cs" and sp: "spare h cs p" and k: "ht_map h cs k1 = None" "ht_map h cs k2 = None"
    and slots: "get_slot h (ht_hashfn h k1) \<noteq> get_slot h (ht_hashfn h k2)"
    and no_elm: "load (ht_elms h) (slot_head h (get_slot h (ht_hashfn h k2))) = None"
  shows "\<exists>h1 h2 h3 h4. hash_begin h p k1 = Some (Some h1) \<and> hash_begin h1 p k2 = Some (Some h2)
     \<and> hash_finish h2 p k1 = Some (0, h3) \<and> hash_finish h3 p k2 = Some (0, h4)
     \<and> (\<forall>key. get_slot h (ht_hashfn h key) = get_slot h (ht_hashfn h k1) \<longrightarrow> hashtable_lookup h4 key = None)"
proof -
  define i j h2 where "i = get_slot h (ht_hashfn h k1)" and "j = get_slot h (ht_hashfn h k2)" and "h2 = labelled (labelled h p k1) p k2"
  note b1 = begin_spare [OF wf sp, of k1]
  note b2 = begin_spare [OF b1(2,4), of k2, folded h2_def]
  have geo: "slot_head h2 = slot_head h" "get_slot h2 = get_slot h" "ht_hashfn h2 = ht_hashfn h" by (simp_all add: h2_def)
  have len: "length cs = unat (ht_mask h2) + 1" by (rule ht_wfD(1) [OF b2(2)])
  have ij: "i < length cs" "j < length cs" using get_slot_bound ht_wfD(1) [OF wf] by (simp_all add: i_def j_def)
  obtain m e sl where f: "hash_finish h2 p k1 = Some (0, finished h2 p m i e sl)" "dlists m (heads h2) (cs[i := p # cs ! i])" "load m p \<noteq> None"
      "load (ht_elms h2) p = Some e"
    by (rule race_first [OF b2(2,4), of k1 i]) (use b1(3) b2(3) k(1) in \<open>auto simp: geo i_def\<close>)
  have out: "p \<notin> all_nodes (heads h2) cs" using b2(4) by (simp add: spare_def)
  obtain m' e' sl' where g: "hash_finish (finished h2 p m i e sl) p k2 = Some (0, finished (finished h2 p m i e sl) p m' j e' sl')"
      "dlist m' (slot_head h2 j) (p # cs ! j)" "load m' (slot_head h2 i) = load m (slot_head h2 i)" "load (ht_elms (finished h2 p m i e sl)) p = Some e'"
    by (rule race_second [OF b2(2) _ _ _ ij(1) out f(4,3,2), of k2 j])
      (use b1(3) b2(3) k(2) slots in \<open>auto simp: geo i_def j_def\<close>)
  let ?h4 = "finished (finished h2 p m i e sl) p m' j e' sl'"
  have "hashtable_lookup ?h4 key = None" if key: "get_slot h (ht_hashfn h key) = i" for key
  proof (rule race_lookup [OF b2(2) ij _ out f(2,4) _ g(2,3,4)])
    have "slot_head h j \<noteq> p" using no_elm sp by (auto simp: spare_def j_def)
    then show "load (ht_elms h2) (slot_head h2 j) = None"
      using no_elm labelled_ok(3) [OF wf sp] labelled_ok(3) [OF b1(2,4)] by (simp add: geo j_def h2_def)
    show "get_slot h2 (ht_hashfn h2 (he_key e)) = j" using f(4) begin_labels(4) [OF b2(1)] by (auto simp: marked_def geo j_def)
  qed (use slots key in \<open>auto simp: geo i_def j_def\<close>)
  then show ?thesis using b1(1) b2(1) f(1) g(1) by (auto simp: i_def)
qed

subsection \<open>Examples\<close>

text \<open>
  Thread 0 has begun to hash the element 200 under the key 4; thread 1 looks up the key 5, finds the element 100 and begins to unhash it; both can go on.
\<close>

definition example_pending :: "nat pending" where
  "example_pending = [0 \<mapsto> Hashing 200 4]"

lemma example_begun: "hash_begin example_table 200 4 = Some (Some (labelled example_table 200 4))"
  by (rule begin_spare(1) [OF example_table_wf example_table_spare])

lemma example_roomy: "load (ht_elms example_table) p \<noteq> None \<Longrightarrow> roomy example_table p"
  using example_elms(3) [of p] by (cases "p \<in> {100, 200}") (auto simp: roomy_def example_table_facts)

lemma example_labelled:
  "load (ht_elms (labelled example_table 200 4)) p \<noteq> None \<Longrightarrow> roomy (labelled example_table 200 4) p"
  "load (ht_elms (labelled example_table 200 4)) 100 = load (ht_elms example_table) 100"
  "ht_wf (labelled example_table 200 4) [[], [100]]" "ht_map (labelled example_table 200 4) [[], [100]] 5 = Some 100"
  "refs_of (labelled example_table 200 4) 200 = 1"
  using labelled_ok [OF example_table_wf example_table_spare, where key = 4] example_roomy [of p] example_table_map example_table_facts
  by (cases "p = 200"; simp add: roomy_def; fail)+

theorem hashtable_threads_safe_witness:
  "\<exists>s ret h slot h'. client_exec 1 (Lookup 5) (example_clients\<lparr>cl_table := labelled example_table 200 4\<rparr>) = Some s
     \<and> hash_finish (cl_table s) 200 4 = Some (ret, h) \<and> unhash_begin (cl_table s) 100 = Some slot \<and> unhash_finish (cl_table s) slot 100 = Some h'"
proof -
  let ?s = "example_clients\<lparr>cl_table := labelled example_table 200 4\<rparr>"
  have c0: "threads_ok 2 (example_clients, Map.empty)" using example_clients_ok by (simp add: threads_ok_def)
  have "thread_step 2 (example_clients, Map.empty) (?s, example_pending)"
    unfolding example_pending_def
    by (rule thread_step.hash_begins) (use example_begun example_roomy [of 200] example_elms(2) in \<open>auto simp: claimed_def example_clients_def\<close>)
  then have r1: "rtranclp (thread_step 2) (example_clients, Map.empty) (?s, example_pending)" by blast
  have al: "allowed 2 ?s 1 (Lookup 5)" "example_pending 1 = None" using example_labelled(1) by (auto simp: example_pending_def)
  obtain s where s: "client_exec 1 (Lookup 5) ?s = Some s" using hashtable_threads_safe [OF c0 r1] al by blast
  have "thread_step 2 (?s, example_pending) (s, example_pending)" by (rule thread_step.whole [where t = 1 and op = "Lookup 5"]) (use al s in simp_all)
  with r1 have r2: "rtranclp (thread_step 2) (example_clients, Map.empty) (s, example_pending)" by (rule rtranclp.rtrancl_into_rtrancl)
  have e: "load (ht_elms (labelled example_table 200 4)) 100 = Some \<lparr>he_refcount = \<lparr>at_value = 1\<rparr>, he_hash = 5, he_key = 5, he_ht = Some 8\<rparr>"
    using example_labelled(2) example_elms(1) by simp
  have "roomy (cl_table s) 200"
    using s lookup_run [OF example_labelled(3,4) e] refs_of_with_refs [OF e] example_labelled(5) by (auto simp: roomy_def)
  moreover have "example_pending 0 = Some (Hashing 200 4)" by (simp add: example_pending_def)
  ultimately have fin: "\<exists>ret h. hash_finish (cl_table s) 200 4 = Some (ret, h)" using hashtable_threads_safe [OF c0 r2] by blast
  have t: "cl_table s = with_refs (labelled example_table 200 4) 100 \<lparr>at_value = 2\<rparr>" "0 < cl_held s 1 100"
    using s lookup_run [OF example_labelled(3,4) e] by (auto simp: atomic_inc_def held_add_def)
  have m: "hashelm_hashed (labelled example_table 200 4) 100 = Some True" by (rule member_hashed [OF example_labelled(3)]) simp
  then have al': "allowed 2 s 1 (Unhash 100)" using t by (simp add: hashelm_hashed_def)
  obtain slot where b: "unhash_begin (cl_table s) 100 = Some slot" using t(1) with_refs_load [OF e] by (simp add: unhash_begin_def)
  have "thread_step 2 (s, example_pending) (s, example_pending(1 \<mapsto> Unhashing 100 slot))"
    by (rule thread_step.unhash_begins) (use al(2) al' b in \<open>auto simp: claimed_def example_pending_def split: if_splits\<close>)
  with r2 have r3: "rtranclp (thread_step 2) (example_clients, Map.empty) (s, example_pending(1 \<mapsto> Unhashing 100 slot))" by (rule rtranclp.rtrancl_into_rtrancl)
  have "\<exists>h'. unhash_finish (cl_table s) slot 100 = Some h'" using hashtable_threads_safe [OF c0 r3] by (metis fun_upd_same)
  then show ?thesis using s fin b by blast
qed

theorem hashtable_hash_race_witness:
  "\<exists>h1 h2 h3 h4. hash_begin example_table 200 4 = Some (Some h1) \<and> hash_begin h1 200 7 = Some (Some h2)
     \<and> hash_finish h2 200 4 = Some (0, h3) \<and> hash_finish h3 200 7 = Some (0, h4) \<and> hashtable_lookup h4 4 = None"
proof -
  have "ht_map example_table [[], [100]] 7 = None" by (simp add: ht_map_def example_table_facts)
  moreover have g: "get_slot example_table 4 = 0" "get_slot example_table 7 = 1" "slot_head example_table 1 = 1080"
    by (simp_all add: get_slot_def slot_head_def SLOT_SIZE_def example_table_def)
  moreover have "load (ht_elms example_table) 1080 = None" by (rule example_elms(3)) simp
  ultimately show ?thesis
    using hashtable_hash_race [OF example_table_wf example_table_spare, of 4 7] example_table_map(2) by (auto simp: example_table_facts)
qed

end
