(* ===== verification/Ckit_Entry.thy ===== *)
theory Ckit_Entry
  imports Ckit_List Ckit_Heap
begin

text \<open>
  \<^verbatim>\<open>include/ckit/ckit.h\<close> and the macros built on it: from a pointer to a member to a pointer to the struct around it.

  The other theories know an embedded list node or heap item by the address of its object. Here the addresses are those of the machine, 64-bit words, and the
  member lies at an offset in its object. The traversal of a list as the macros of \<^verbatim>\<open>list.h\<close> have it, which steps from object to object, is shown
  to visit the objects of the nodes that the traversal of nodes visits.
\<close>

section \<open>Definitions\<close>

text \<open>\<open>off\<close> stands for \<open>offsetof(type, member)\<close>. The subtraction wraps around.\<close>

definition get_enclosing :: "u64 \<Rightarrow> u64 \<Rightarrow> u64" where
  "get_enclosing ptr off = ptr - off"

definition list_entry :: "u64 \<Rightarrow> u64 \<Rightarrow> u64" where
  "list_entry l off = get_enclosing l off"

definition heap_entry :: "u64 \<Rightarrow> u64 \<Rightarrow> u64" where
  "heap_entry ptr off = get_enclosing ptr off"

definition hashtable_entry :: "u64 \<Rightarrow> u64 \<Rightarrow> u64" where
  "hashtable_entry he off = get_enclosing he off"

text \<open>\<open>&(ptr)->member\<close>\<close>

definition member_of :: "u64 \<Rightarrow> u64 \<Rightarrow> u64" where
  "member_of ptr off = ptr + off"

definition list_front_entry :: "lmem \<Rightarrow> u64 \<Rightarrow> u64 \<Rightarrow> u64 option" where
  "list_front_entry m l off = do { n \<leftarrow> load m (unat l); Some (get_enclosing (of_nat (lnext n)) off) }"

text \<open>The body gets the object; a true result stands for leaving the loop.\<close>

partial_function (option) list_foreach_entry ::
  "lmem \<Rightarrow> u64 \<Rightarrow> u64 \<Rightarrow> (u64 \<Rightarrow> 's \<Rightarrow> (bool \<times> 's) option) \<Rightarrow> u64 \<Rightarrow> 's \<Rightarrow> (bool \<times> 's) option" where
  "list_foreach_entry m anchor off body ptr s =
     (if member_of ptr off = anchor then Some (False, s)
      else do {
        (brk, s') \<leftarrow> body ptr s;
        if brk then Some (True, s')
        else do {
          n \<leftarrow> load m (unat (member_of ptr off));
          list_foreach_entry m anchor off body (get_enclosing (of_nat (lnext n)) off) s'
        }
      })"

definition heap_first_entry :: "'x iheap \<Rightarrow> u64 \<Rightarrow> u64 option" where
  "heap_first_entry h off = do { p \<leftarrow> heap_front h; Some (get_enclosing (of_nat p) off) }"

definition heap_remove_first_entry :: "'x iheap \<Rightarrow> 'x imem \<Rightarrow> u64 \<Rightarrow> (u64 \<times> 'x iheap \<times> 'x imem) option" where
  "heap_remove_first_entry h st off = do { (p, h, st) \<leftarrow> heap_remove_first h st; Some (get_enclosing (of_nat p) off, h, st) }"

section \<open>Members and objects\<close>

lemma enclosing_member [simp]: "get_enclosing (member_of p off) off = p" "member_of (get_enclosing q off) off = q"
  by (simp_all add: get_enclosing_def member_of_def)

lemma unat_addr: "x < 2 ^ 64 \<Longrightarrow> unat (of_nat x :: u64) = x"
  by (simp add: unsigned_of_nat take_bit_eq_mod)

abbreviation (input) object_of :: "u64 \<Rightarrow> addr \<Rightarrow> u64" where
  "object_of off x \<equiv> get_enclosing (of_nat x) off"

lemma list_foreach_entry_linked:
  assumes "linked m p xs (unat a)" "unat a \<notin> set xs" "\<forall>x \<in> set xs. x < 2 ^ 64"
  shows "list_foreach_entry m a off body (object_of off (hd (xs @ [unat a]))) s = foreach_list body (map (object_of off) xs) s"
  using assms
proof (induction xs arbitrary: p s)
  case Nil
  then show ?case by (simp add: list_foreach_entry.simps)
next
  case (Cons x xs)
  have x: "unat (of_nat x :: u64) = x" "(of_nat x :: u64) \<noteq> a" using Cons.prems unat_addr [of x] by auto
  have "nxt m x = Some (hd (xs @ [unat a]))" using Cons.prems linked_ends by auto
  then obtain n where n: "load m x = Some n" "lnext n = hd (xs @ [unat a])" by (auto simp: nxt_def)
  have "linked m x xs (unat a)" using Cons.prems(1) by simp
  note IH = Cons.IH [OF this]
  show ?case
    using x n IH Cons.prems(2,3)
    by (subst list_foreach_entry.simps) (auto split: Option.bind_splits prod.splits)
qed

section \<open>Properties\<close>

text \<open>
  C35: \<^verbatim>\<open>list_foreach\<close> on objects. Over a list whose nodes are members at any offset of their objects, the loop ends and runs its body on exactly the
  objects of the nodes, each once and in the order of the list, until the body leaves it; the anchor, which is in no object, is only compared. An object is visited if and only if
  its member is in the list.
\<close>

theorem list_foreach_entry_visits:
  assumes "dlist m (unat a) xs" "\<forall>x \<in> set xs. x < 2 ^ 64"
  shows "do { p \<leftarrow> list_front_entry m a off; list_foreach_entry m a off body p s } = foreach_list body (map (\<lambda>x. list_entry (of_nat x) off) xs) s
     \<and> (\<forall>p. p \<in> set (map (\<lambda>x. list_entry (of_nat x) off) xs) \<longleftrightarrow> unat (member_of p off) \<in> set xs)
     \<and> distinct (map (\<lambda>x. list_entry (of_nat x) off) xs)"
proof (intro conjI allI iffI)
  have l: "linked m (unat a) xs (unat a)" "unat a \<notin> set xs" "distinct xs" using assms(1) by (auto simp: dlist_def)
  obtain n where "load m (unat a) = Some n" "lnext n = hd (xs @ [unat a])"
    using linked_ends [of m "unat a" xs "unat a"] l(1) by (auto dest!: nxt_load)
  then show "do { p \<leftarrow> list_front_entry m a off; list_foreach_entry m a off body p s } = foreach_list body (map (\<lambda>x. list_entry (of_nat x) off) xs) s"
    using list_foreach_entry_linked [OF l(1,2) assms(2), of off body s] by (simp add: list_front_entry_def list_entry_def)
  show "unat (member_of p off) \<in> set xs" if "p \<in> set (map (\<lambda>x. list_entry (of_nat x) off) xs)" for p
    using that assms(2) unat_addr by (auto simp: list_entry_def)
  show "p \<in> set (map (\<lambda>x. list_entry (of_nat x) off) xs)" if "unat (member_of p off) \<in> set xs" for p
    using that by (auto simp: list_entry_def intro!: image_eqI [of _ _ "unat (member_of p off)"])
  show "distinct (map (\<lambda>x. list_entry (of_nat x) off) xs)"
    unfolding distinct_map using l(3)
  proof (intro conjI inj_onI)
    fix x y assume a: "x \<in> set xs" "y \<in> set xs" "list_entry (of_nat x) off = list_entry (of_nat y) off"
    then have "(of_nat x :: u64) = of_nat y" by (simp add: list_entry_def get_enclosing_def)
    then show "x = y" using unat_addr [of x] unat_addr [of y] a(1,2) assms(2) by metis
  qed
qed

text \<open>
  The entry of a null pointer is the null pointer only if the member is the first of its struct: \<^verbatim>\<open>heap_remove_first_entry\<close> on an empty heap returns
  a pointer that is not null for any other member.
\<close>

theorem heap_remove_first_entry_empty:
  assumes "heap_empty h"
  shows "heap_remove_first_entry h st off = Some (- off, h, st) \<and> (- off = 0 \<longleftrightarrow> off = 0)"
  using assms by (simp add: heap_remove_first_entry_def heap_remove_first_def heap_remove_def heap_empty_def get_enclosing_def)

theorem list_foreach_entry_visits_witness:
  "do { p \<leftarrow> list_front_entry example_lists 1 16; list_foreach_entry example_lists 1 16 (\<lambda>p ps. Some (False, ps @ [p])) p [] }
     = Some (False, [-13, -12])"
proof -
  have "dlist example_lists (unat (1 :: u64)) [3, 4]"
    using dlistsD(2) [OF example_lists_ok, of 0] by simp
  from list_foreach_entry_visits [OF this, of 16 "\<lambda>p ps. Some (False, ps @ [p])" "[]"] show ?thesis
    by (simp add: list_entry_def get_enclosing_def)
qed

end
