(* ===== verification/Ckit_Rbtree.thy ===== *)
theory Ckit_Rbtree
  imports Ckit_Prelude "HOL-Library.Tree"
begin

text \<open>
  \<^verbatim>\<open>src/rbtree.c\<close> and \<^verbatim>\<open>include/ckit/rbtree.h\<close>: a binary search tree with the colours and rotations of a
  red-black tree.

  The nodes live in one memory, the byte blocks that keys and values point to in another one. What \<^verbatim>\<open>malloc\<close>
  returns is an argument of the operations. The library is built without \<^verbatim>\<open>ENABLE_DEBUG\<close>, so \<^verbatim>\<open>LOG_DBG\<close> is
  empty, except in \<open>rb_tree_print_in_order\<close>, whose only purpose it is: its lines are the result of the model.
\<close>

section \<open>Definitions\<close>

datatype rb_color = RB_COLOR_BLACK | RB_COLOR_RED

type_synonym dmem = "u8 list mem"

record rb_key =
  rk_len :: u64
  rk_data :: addr

record rb_value =
  rv_len :: u64
  rv_data :: addr

record rb_node =
  nd_color :: rb_color
  nd_left :: addr
  nd_right :: addr
  nd_parent :: addr
  nd_debug :: u32
  nd_key :: rb_key
  nd_val :: rb_value

type_synonym nmem = "rb_node mem"

text \<open>The two free functions may be null.\<close>

record rb_node_ops =
  key_compare :: "dmem \<Rightarrow> rb_key \<Rightarrow> rb_key \<Rightarrow> int option"
  key_print :: "rb_key \<Rightarrow> string"
  value_print :: "rb_value \<Rightarrow> string"
  key_free :: "(rb_key \<Rightarrow> dmem \<Rightarrow> (rb_key \<times> dmem) option) option"
  value_free :: "(rb_value \<Rightarrow> dmem \<Rightarrow> (rb_value \<times> dmem) option) option"

record rb_tree =
  tr_root :: addr
  tr_ops :: rb_node_ops
  tr_size :: u64

definition DEFINE_TREE :: "rb_node_ops \<Rightarrow> rb_tree" where
  "DEFINE_TREE setops = \<lparr>tr_root = NULL, tr_ops = setops, tr_size = 0\<rparr>"

subsection \<open>The default operations\<close>

text \<open>\<^verbatim>\<open>memcmp\<close>: only the sign of the result is specified.\<close>

fun bytes_cmp :: "u8 list \<Rightarrow> u8 list \<Rightarrow> int" where
  "bytes_cmp (x # xs) (y # ys) = (if x = y then bytes_cmp xs ys else int (unat x) - int (unat y))"
| "bytes_cmp _ _ = 0"

definition memcmp :: "dmem \<Rightarrow> addr \<Rightarrow> addr \<Rightarrow> u64 \<Rightarrow> int option" where
  "memcmp dm p q n = do {
     xs \<leftarrow> load dm p;
     ys \<leftarrow> load dm q;
     if unat n \<le> length xs \<and> unat n \<le> length ys then Some (bytes_cmp (take (unat n) xs) (take (unat n) ys)) else None
   }"

definition default_comp :: "dmem \<Rightarrow> rb_key \<Rightarrow> rb_key \<Rightarrow> int option" where
  "default_comp dm k1 k2 =
     (if rk_len k1 \<noteq> rk_len k2 then Some (if rk_len k1 < rk_len k2 then 1 else 0)
      else memcmp dm (rk_data k1) (rk_data k2) (rk_len k1))"

definition default_key_print :: "rb_key \<Rightarrow> string" where
  "default_key_print k = ''''"

definition default_value_print :: "rb_value \<Rightarrow> string" where
  "default_value_print v = ''''"

definition default_key_free :: "rb_key \<Rightarrow> dmem \<Rightarrow> (rb_key \<times> dmem) option" where
  "default_key_free k dm =
     (if rk_data k \<noteq> NULL then do { _ \<leftarrow> load dm (rk_data k); Some (k\<lparr>rk_data := NULL\<rparr>, dm(rk_data k := None)) }
      else Some (k, dm))"

definition default_value_free :: "rb_value \<Rightarrow> dmem \<Rightarrow> (rb_value \<times> dmem) option" where
  "default_value_free v dm =
     (if rv_data v \<noteq> NULL then do { _ \<leftarrow> load dm (rv_data v); Some (v\<lparr>rv_data := NULL\<rparr>, dm(rv_data v := None)) }
      else Some (v, dm))"

definition default_tree_ops :: rb_node_ops where
  "default_tree_ops = \<lparr>key_compare = default_comp, key_print = default_key_print, value_print = default_value_print,
     key_free = Some default_key_free, value_free = Some default_value_free\<rparr>"

subsection \<open>Nodes\<close>

definition upd_node :: "nmem \<Rightarrow> addr \<Rightarrow> (rb_node \<Rightarrow> rb_node) \<Rightarrow> nmem option" where
  "upd_node m p f = do { n \<leftarrow> load m p; store m p (f n) }"

text \<open>\<open>sizeof(rb_node_t)\<close>\<close>

definition RB_NODE_SIZE :: u64 where
  "RB_NODE_SIZE = 72"

text \<open>The four bytes of an \<^verbatim>\<open>int\<close>, least significant first.\<close>

fun word_of_bytes :: "u8 list \<Rightarrow> u32" where
  "word_of_bytes [] = 0"
| "word_of_bytes (b # bs) = ucast b + 256 * word_of_bytes bs"

text \<open>
  \<open>p\<close> is the address of the new node, \<open>NULL\<close> if there is no memory. A size that wraps around gives a block too small
  for the node. The result is the node and the memory.
\<close>

definition rb_node_alloc :: "addr \<Rightarrow> dmem \<Rightarrow> addr \<Rightarrow> u64 \<Rightarrow> addr \<Rightarrow> u64 \<Rightarrow> addr \<Rightarrow> nmem \<Rightarrow> (addr \<times> nmem) option" where
  "rb_node_alloc p dm key key_len val val_len parent m =
     (if p = NULL then Some (NULL, m)
      else if unat RB_NODE_SIZE + unat key_len + unat val_len \<ge> 2 ^ 64 then None
      else do {
        dbg \<leftarrow> (if val_len = 4 then do {
                 bs \<leftarrow> load dm val;
                 if length bs \<ge> 4 then Some (word_of_bytes (take 4 bs)) else None
               } else Some 0);
        Some (p, m(p \<mapsto> \<lparr>nd_color = RB_COLOR_RED, nd_left = NULL, nd_right = NULL, nd_parent = parent, nd_debug = dbg,
          nd_key = \<lparr>rk_len = key_len, rk_data = key\<rparr>, nd_val = \<lparr>rv_len = val_len, rv_data = val\<rparr>\<rparr>))
      })"

subsection \<open>Insertion into the search tree\<close>

text \<open>The loop of \<open>bst_insert\<close>; the result is the new node and the memory.\<close>

partial_function (option) bst_loop ::
  "rb_node_ops \<Rightarrow> addr \<Rightarrow> dmem \<Rightarrow> addr \<Rightarrow> u64 \<Rightarrow> addr \<Rightarrow> u64 \<Rightarrow> nmem \<Rightarrow> addr \<Rightarrow> (addr \<times> nmem) option" where
  "bst_loop ops p dm key key_len val val_len m cur = do {
     n \<leftarrow> load m cur;
     comp \<leftarrow> key_compare ops dm \<lparr>rk_len = key_len, rk_data = key\<rparr> (nd_key n);
     if comp < 0 then
       if nd_left n = NULL then do {
         (c, m) \<leftarrow> rb_node_alloc p dm key key_len val val_len cur m;
         m \<leftarrow> upd_node m cur (nd_left_update (\<lambda>_. c));
         Some (c, m)
       } else bst_loop ops p dm key key_len val val_len m (nd_left n)
     else
       if nd_right n = NULL then do {
         (c, m) \<leftarrow> rb_node_alloc p dm key key_len val val_len cur m;
         m \<leftarrow> upd_node m cur (nd_right_update (\<lambda>_. c));
         Some (c, m)
       } else bst_loop ops p dm key key_len val val_len m (nd_right n)
   }"

text \<open>\<open>new_node\<close> is the variable the caller passes the address of, \<open>None\<close> for a null pointer.\<close>

definition bst_insert ::
  "addr \<Rightarrow> dmem \<Rightarrow> rb_tree \<Rightarrow> addr \<Rightarrow> u64 \<Rightarrow> addr \<Rightarrow> u64 \<Rightarrow> addr option \<Rightarrow> nmem
     \<Rightarrow> (int \<times> rb_tree \<times> addr option \<times> nmem) option" where
  "bst_insert p dm tree key key_len val val_len new_node m =
     (if tr_root tree = NULL then do {
        (r, m) \<leftarrow> rb_node_alloc p dm key key_len val val_len NULL m;
        let tree = tree\<lparr>tr_root := r\<rparr>;
        if r = NULL then Some (-1, tree, new_node, m)
        else Some (1, tree, map_option (\<lambda>_. r) new_node, m)
      } else do {
        (c, m) \<leftarrow> bst_loop (tr_ops tree) p dm key key_len val val_len m (tr_root tree);
        Some (if c \<noteq> NULL then 1 else -1, tree, map_option (\<lambda>_. c) new_node, m)
      })"

subsection \<open>Relatives\<close>

definition grandparent :: "nmem \<Rightarrow> addr \<Rightarrow> addr option" where
  "grandparent m node =
     (if node = NULL then Some NULL
      else do {
        n \<leftarrow> load m node;
        if nd_parent n = NULL then Some NULL else map_option nd_parent (load m (nd_parent n))
      })"

definition uncle :: "nmem \<Rightarrow> addr \<Rightarrow> addr option" where
  "uncle m node = do {
     gp \<leftarrow> grandparent m node;
     if gp = NULL then Some NULL
     else do {
       n \<leftarrow> load m node;
       g \<leftarrow> load m gp;
       Some (if nd_parent n = nd_left g then nd_right g else nd_left g)
     }
   }"

definition sibling :: "nmem \<Rightarrow> addr \<Rightarrow> addr option" where
  "sibling m node =
     (if node = NULL then Some NULL
      else do {
        n \<leftarrow> load m node;
        if nd_parent n = NULL then Some NULL
        else do {
          q \<leftarrow> load m (nd_parent n);
          Some (if nd_right q \<noteq> node then nd_right q else nd_left q)
        }
      })"

subsection \<open>Rotations\<close>

definition rb_tree_rotate_right_side_right :: "nmem \<Rightarrow> addr \<Rightarrow> nmem option" where
  "rb_tree_rotate_right_side_right m node =
     (if node = NULL then Some m
      else do {
        n \<leftarrow> load m node;
        if nd_left n = NULL then Some m
        else do {
          let child = nd_left n;
          let parent = nd_parent n;
          m \<leftarrow> upd_node m parent (nd_right_update (\<lambda>_. child));
          m \<leftarrow> upd_node m child (nd_parent_update (\<lambda>_. parent));
          m \<leftarrow> upd_node m node (nd_parent_update (\<lambda>_. child));
          c \<leftarrow> load m child;
          m \<leftarrow> upd_node m node (nd_left_update (\<lambda>_. nd_right c));
          upd_node m child (nd_right_update (\<lambda>_. node))
        }
      })"

definition rb_tree_rotate_left_side_right :: "nmem \<Rightarrow> addr \<Rightarrow> nmem option" where
  "rb_tree_rotate_left_side_right m node =
     (if node = NULL then Some m
      else do {
        n \<leftarrow> load m node;
        if nd_left n = NULL then Some m
        else do {
          let child = nd_left n;
          let parent = nd_parent n;
          m \<leftarrow> upd_node m parent (nd_left_update (\<lambda>_. child));
          m \<leftarrow> upd_node m child (nd_parent_update (\<lambda>_. parent));
          m \<leftarrow> upd_node m node (nd_parent_update (\<lambda>_. child));
          c \<leftarrow> load m child;
          m \<leftarrow> upd_node m node (nd_left_update (\<lambda>_. nd_right c));
          upd_node m child (nd_right_update (\<lambda>_. node))
        }
      })"

definition rb_tree_rotate_right_side_left :: "nmem \<Rightarrow> addr \<Rightarrow> nmem option" where
  "rb_tree_rotate_right_side_left m node =
     (if node = NULL then Some m
      else do {
        n \<leftarrow> load m node;
        if nd_right n = NULL then Some m
        else do {
          let child = nd_right n;
          let parent = nd_parent n;
          m \<leftarrow> upd_node m parent (nd_right_update (\<lambda>_. child));
          m \<leftarrow> upd_node m child (nd_parent_update (\<lambda>_. parent));
          m \<leftarrow> upd_node m node (nd_parent_update (\<lambda>_. child));
          c \<leftarrow> load m child;
          m \<leftarrow> upd_node m node (nd_right_update (\<lambda>_. nd_left c));
          upd_node m child (nd_left_update (\<lambda>_. node))
        }
      })"

definition rb_tree_rotate_left_side_left :: "nmem \<Rightarrow> addr \<Rightarrow> nmem option" where
  "rb_tree_rotate_left_side_left m node =
     (if node = NULL then Some m
      else do {
        n \<leftarrow> load m node;
        if nd_right n = NULL then Some m
        else do {
          let child = nd_right n;
          let parent = nd_parent n;
          m \<leftarrow> upd_node m parent (nd_left_update (\<lambda>_. child));
          m \<leftarrow> upd_node m child (nd_parent_update (\<lambda>_. parent));
          m \<leftarrow> upd_node m node (nd_parent_update (\<lambda>_. child));
          c \<leftarrow> load m child;
          m \<leftarrow> upd_node m node (nd_right_update (\<lambda>_. nd_left c));
          upd_node m child (nd_left_update (\<lambda>_. node))
        }
      })"

subsection \<open>Rebalancing\<close>

definition rb_tree_insert_case5 :: "nmem \<Rightarrow> addr \<Rightarrow> nmem option" where
  "rb_tree_insert_case5 m node = do {
     g \<leftarrow> grandparent m node;
     n \<leftarrow> load m node;
     m \<leftarrow> upd_node m (nd_parent n) (nd_color_update (\<lambda>_. RB_COLOR_BLACK));
     m \<leftarrow> upd_node m g (nd_color_update (\<lambda>_. RB_COLOR_RED));
     n \<leftarrow> load m node;
     q \<leftarrow> load m (nd_parent n);
     if nd_left q = node then rb_tree_rotate_left_side_right m g else rb_tree_rotate_right_side_left m g
   }"

definition rb_tree_insert_case4 :: "nmem \<Rightarrow> addr \<Rightarrow> nmem option" where
  "rb_tree_insert_case4 m node = do {
     gp \<leftarrow> grandparent m node;
     n \<leftarrow> load m node;
     q \<leftarrow> load m (nd_parent n);
     g \<leftarrow> load m gp;
     (m, node) \<leftarrow>
       (if nd_right q = node \<and> nd_parent n = nd_left g then do {
          m \<leftarrow> rb_tree_rotate_left_side_left m (nd_parent n);
          n \<leftarrow> load m node;
          Some (m, nd_left n)
        } else if nd_left q = node \<and> nd_parent n = nd_right g then do {
          m \<leftarrow> rb_tree_rotate_right_side_right m (nd_parent n);
          n \<leftarrow> load m node;
          Some (m, nd_right n)
        } else Some (m, node));
     if node \<noteq> NULL then rb_tree_insert_case5 m node else Some m
   }"

text \<open>
  The calls of case 1, 2 and 3 are in tail position. The result of \<open>rb_tree_insert_case3\<close> and
  \<open>rb_tree_insert_case2\<close> is the memory and, if case 1 is called again, its argument.
\<close>

definition rb_tree_insert_case3 :: "nmem \<Rightarrow> addr \<Rightarrow> (nmem \<times> addr option) option" where
  "rb_tree_insert_case3 m node = do {
     u \<leftarrow> uncle m node;
     red \<leftarrow> (if u = NULL then Some False else map_option (\<lambda>n. nd_color n = RB_COLOR_RED) (load m u));
     if red then do {
       n \<leftarrow> load m node;
       m \<leftarrow> upd_node m (nd_parent n) (nd_color_update (\<lambda>_. RB_COLOR_BLACK));
       m \<leftarrow> upd_node m u (nd_color_update (\<lambda>_. RB_COLOR_BLACK));
       g \<leftarrow> grandparent m node;
       m \<leftarrow> upd_node m g (nd_color_update (\<lambda>_. RB_COLOR_RED));
       Some (m, Some g)
     } else do { m \<leftarrow> rb_tree_insert_case4 m node; Some (m, None) }
   }"

definition rb_tree_insert_case2 :: "nmem \<Rightarrow> addr \<Rightarrow> (nmem \<times> addr option) option" where
  "rb_tree_insert_case2 m node = do {
     n \<leftarrow> load m node;
     q \<leftarrow> load m (nd_parent n);
     if nd_color q = RB_COLOR_BLACK then Some (m, None) else rb_tree_insert_case3 m node
   }"

partial_function (option) rb_tree_insert_case1 :: "nmem \<Rightarrow> addr \<Rightarrow> nmem option" where
  "rb_tree_insert_case1 m node = do {
     n \<leftarrow> load m node;
     if nd_parent n = NULL then upd_node m node (nd_color_update (\<lambda>_. RB_COLOR_BLACK))
     else do {
       (m, again) \<leftarrow> rb_tree_insert_case2 m node;
       case again of None \<Rightarrow> Some m | Some g \<Rightarrow> rb_tree_insert_case1 m g
     }
   }"

text \<open>\<^verbatim>\<open>_rb_tree_insert\<close>\<close>

definition rb_tree_insert_impl ::
  "addr \<Rightarrow> dmem \<Rightarrow> rb_tree \<Rightarrow> addr \<Rightarrow> u64 \<Rightarrow> addr \<Rightarrow> u64 \<Rightarrow> nmem \<Rightarrow> (int \<times> rb_tree \<times> nmem) option" where
  "rb_tree_insert_impl p dm tree key key_len val val_len m = do {
     (ret, tree, new_node, m) \<leftarrow> bst_insert p dm tree key key_len val val_len (Some NULL) m;
     if ret \<le> 0 then Some (ret, tree, m)
     else do {
       m \<leftarrow> rb_tree_insert_case1 m (the new_node);
       Some (ret, tree, m)
     }
   }"

text \<open>
  \<open>rb_tree_insert\<close> copies key and value and calls itself. \<open>alloc i\<close> is what the \<open>i\<close>-th call of \<^verbatim>\<open>malloc\<close> returns.
  The result is the code returned, the tree and the memory, with the blocks allocated (one that is not written yet is shown as zeros).
\<close>

definition copy_block :: "dmem \<Rightarrow> addr \<Rightarrow> addr \<Rightarrow> u64 \<Rightarrow> dmem option" where
  "copy_block dm dst src n = do {
     bs \<leftarrow> load dm src;
     if unat n \<le> length bs then Some (dm(dst \<mapsto> take (unat n) bs)) else None
   }"

partial_function (option) rb_tree_insert ::
  "(nat \<Rightarrow> addr) \<Rightarrow> nat \<Rightarrow> rb_tree \<Rightarrow> addr \<Rightarrow> u64 \<Rightarrow> addr \<Rightarrow> u64 \<Rightarrow> dmem \<Rightarrow> (int \<times> rb_tree \<times> dmem) option" where
  "rb_tree_insert alloc i tree key key_len val val_len dm =
     (if alloc i = NULL then Some (-1, tree, dm)
      else if alloc (i + 1) = NULL then Some (-1, tree, dm(alloc i \<mapsto> replicate (unat key_len) 0))
      else do {
        dm \<leftarrow> copy_block dm (alloc i) key key_len;
        dm \<leftarrow> copy_block dm (alloc (i + 1)) val val_len;
        rb_tree_insert alloc (i + 2) tree (alloc i) key_len (alloc (i + 1)) val_len dm
      })"

definition rb_tree_delete :: "rb_tree \<Rightarrow> addr \<Rightarrow> u64 \<Rightarrow> int \<times> rb_tree" where
  "rb_tree_delete tree key key_len = (0, tree)"

subsection \<open>Destroying a tree\<close>

definition free_node :: "rb_node_ops \<Rightarrow> addr \<Rightarrow> nmem \<times> dmem \<Rightarrow> (nmem \<times> dmem) option" where
  "free_node ops node = (\<lambda>(m, dm). do {
     n \<leftarrow> load m node;
     (k, dm) \<leftarrow> (case key_free ops of None \<Rightarrow> Some (nd_key n, dm) | Some f \<Rightarrow> f (nd_key n) dm);
     (v, dm) \<leftarrow> (case value_free ops of None \<Rightarrow> Some (nd_val n, dm) | Some f \<Rightarrow> f (nd_val n) dm);
     Some (m(node := None), dm)
   })"

partial_function (option) rb_tree_node_destroy :: "rb_node_ops \<Rightarrow> addr \<Rightarrow> nmem \<times> dmem \<Rightarrow> (nmem \<times> dmem) option" where
  "rb_tree_node_destroy ops node s =
     (if node = NULL then Some s
      else do {
        n \<leftarrow> load (fst s) node;
        s \<leftarrow> rb_tree_node_destroy ops (nd_left n) s;
        n \<leftarrow> load (fst s) node;
        s \<leftarrow> rb_tree_node_destroy ops (nd_right n) s;
        free_node ops node s
      })"

definition rb_tree_destroy :: "rb_tree \<Rightarrow> nmem \<times> dmem \<Rightarrow> (nmem \<times> dmem) option" where
  "rb_tree_destroy tree s = rb_tree_node_destroy (tr_ops tree) (tr_root tree) s"

subsection \<open>Printing in order\<close>

text \<open>The inner loop: the last node on the right spine of the left subtree, or the node whose right pointer is the thread.\<close>

partial_function (option) find_prev :: "nmem \<Rightarrow> addr \<Rightarrow> addr \<Rightarrow> addr option" where
  "find_prev m cur prev = do {
     n \<leftarrow> load m prev;
     if nd_right n \<noteq> NULL \<and> nd_right n \<noteq> cur then find_prev m cur (nd_right n) else Some prev
   }"

type_synonym line = "string \<times> string"

definition print_node :: "rb_node_ops \<Rightarrow> rb_node \<Rightarrow> line" where
  "print_node ops n = (value_print ops (nd_val n), if nd_color n = RB_COLOR_RED then ''red'' else ''black'')"

partial_function (option) print_loop :: "rb_node_ops \<Rightarrow> nmem \<Rightarrow> addr \<Rightarrow> line list \<Rightarrow> (nmem \<times> line list) option" where
  "print_loop ops m cur out =
     (if cur = NULL then Some (m, out)
      else do {
        n \<leftarrow> load m cur;
        if nd_left n = NULL then print_loop ops m (nd_right n) (out @ [print_node ops n])
        else do {
          prev \<leftarrow> find_prev m cur (nd_left n);
          q \<leftarrow> load m prev;
          if nd_right q = NULL then do {
            m \<leftarrow> upd_node m prev (nd_right_update (\<lambda>_. cur));
            n \<leftarrow> load m cur;
            print_loop ops m (nd_left n) out
          } else do {
            m \<leftarrow> upd_node m prev (nd_right_update (\<lambda>_. NULL));
            n \<leftarrow> load m cur;
            print_loop ops m (nd_right n) (out @ [print_node ops n])
          }
        }
      })"

definition rb_tree_print_in_order :: "rb_tree \<Rightarrow> nmem \<Rightarrow> (nmem \<times> line list) option" where
  "rb_tree_print_in_order tree m =
     (if tr_root tree = NULL then Some (m, []) else print_loop (tr_ops tree) m (tr_root tree) [])"

subsection \<open>Specification\<close>

text \<open>
  \<open>tree_at m par p T\<close>: the nodes from \<open>p\<close> on form the tree \<open>T\<close> of addresses, with consistent parent pointers;
  \<open>tree_to\<close> looks at left and right pointers only, and the right pointer of the last node leads to \<open>e\<close>.
\<close>

fun tree_at :: "nmem \<Rightarrow> addr \<Rightarrow> addr \<Rightarrow> addr tree \<Rightarrow> bool" where
  "tree_at m par p Leaf \<longleftrightarrow> p = NULL"
| "tree_at m par p (Node l a r) \<longleftrightarrow> p = a \<and> (case load m a of None \<Rightarrow> False
     | Some n \<Rightarrow> nd_parent n = par \<and> tree_at m a (nd_left n) l \<and> tree_at m a (nd_right n) r)"

fun tree_to :: "nmem \<Rightarrow> addr \<Rightarrow> addr tree \<Rightarrow> addr \<Rightarrow> bool" where
  "tree_to m p Leaf e \<longleftrightarrow> p = e"
| "tree_to m p (Node l a r) e \<longleftrightarrow> p = a \<and> (case load m a of None \<Rightarrow> False
     | Some n \<Rightarrow> tree_to m (nd_left n) l NULL \<and> tree_to m (nd_right n) r e)"

text \<open>The tree that an insertion gives; \<open>lt a\<close>: the new key is less than that of \<open>a\<close>.\<close>

fun tree_ins :: "(addr \<Rightarrow> bool) \<Rightarrow> addr \<Rightarrow> addr tree \<Rightarrow> addr tree" where
  "tree_ins lt x Leaf = Node Leaf x Leaf"
| "tree_ins lt x (Node l a r) = (if lt a then Node (tree_ins lt x l) a r else Node l a (tree_ins lt x r))"

definition node_key :: "nmem \<Rightarrow> addr \<Rightarrow> rb_key" where
  "node_key m a = nd_key (the (load m a))"

section \<open>Shapes\<close>

lemma tree_at_Node:
  "tree_at m par p (Node l a r) \<longleftrightarrow> p = a \<and> (\<exists>n. load m a = Some n \<and> nd_parent n = par \<and> tree_at m a (nd_left n) l \<and> tree_at m a (nd_right n) r)"
  by (auto split: option.splits)

lemma tree_to_Node:
  "tree_to m p (Node l a r) e \<longleftrightarrow> p = a \<and> (\<exists>n. load m a = Some n \<and> tree_to m (nd_left n) l NULL \<and> tree_to m (nd_right n) r e)"
  by (auto split: option.splits)

lemma tree_at_to: "tree_at m par p T \<Longrightarrow> tree_to m p T NULL"
  by (induction T arbitrary: par p) (auto split: option.splits)

lemma tree_at_frame: "\<forall>a \<in> set_tree T. load m' a = load m a \<Longrightarrow> tree_at m' par p T = tree_at m par p T"
  by (induction T arbitrary: par p) (auto split: option.splits)

lemma tree_to_frame: "\<forall>a \<in> set_tree T. load m' a = load m a \<Longrightarrow> tree_to m' p T e = tree_to m p T e"
  by (induction T arbitrary: p e) (auto split: option.splits)

lemma tree_at_load: "tree_at m par p T \<Longrightarrow> a \<in> set_tree T \<Longrightarrow> \<exists>n. load m a = Some n"
  by (induction T arbitrary: par p) (auto split: option.splits)

lemma tree_at_root: "tree_at m par p T \<Longrightarrow> p = (case T of Leaf \<Rightarrow> NULL | Node l a r \<Rightarrow> a)"
  by (cases T) auto

lemma tree_at_NULL: "tree_at m par p T \<Longrightarrow> p = NULL \<longleftrightarrow> T = Leaf"
  by (cases T) (auto split: option.splits dest: load_SomeD)

lemma tree_to_NULL: "tree_to m p T NULL \<Longrightarrow> p = NULL \<longleftrightarrow> T = Leaf"
  by (cases T) (auto split: option.splits dest: load_SomeD)

lemma set_tree_ins: "set_tree (tree_ins lt x T) = insert x (set_tree T)"
  by (induction T) auto

lemma upd_node_Some [mem_simps]: "load m p = Some n \<Longrightarrow> upd_node m p f = Some (m(p \<mapsto> f n))"
  by (simp add: upd_node_def mem_simps)

lemma upd_node_None [mem_simps]: "load m p = None \<Longrightarrow> upd_node m p f = None"
  by (simp add: upd_node_def)

section \<open>Inserting into the search tree\<close>

text \<open>What the allocation of a node needs, and the node it gives.\<close>

definition alloc_ok :: "dmem \<Rightarrow> u64 \<Rightarrow> addr \<Rightarrow> u64 \<Rightarrow> bool" where
  "alloc_ok dm key_len val val_len \<longleftrightarrow> unat RB_NODE_SIZE + unat key_len + unat val_len < 2 ^ 64
     \<and> (val_len = 4 \<longrightarrow> (\<exists>bs. load dm val = Some bs \<and> 4 \<le> length bs))"

definition new_leaf :: "rb_node \<Rightarrow> addr \<Rightarrow> u64 \<Rightarrow> addr \<Rightarrow> u64 \<Rightarrow> addr \<Rightarrow> bool" where
  "new_leaf n key key_len val val_len parent \<longleftrightarrow> nd_color n = RB_COLOR_RED \<and> nd_left n = NULL \<and> nd_right n = NULL
     \<and> nd_parent n = parent \<and> nd_key n = \<lparr>rk_len = key_len, rk_data = key\<rparr> \<and> nd_val n = \<lparr>rv_len = val_len, rv_data = val\<rparr>"

lemma rb_node_alloc_ok:
  assumes "alloc_ok dm key_len val val_len" "p \<noteq> NULL"
  shows "\<exists>n. rb_node_alloc p dm key key_len val val_len parent m = Some (p, m(p \<mapsto> n)) \<and> new_leaf n key key_len val val_len parent"
  using assms by (auto simp: rb_node_alloc_def alloc_ok_def new_leaf_def not_le)

lemma rb_node_alloc_NULL: "rb_node_alloc NULL dm key key_len val val_len parent m = Some (NULL, m)"
  by (simp add: rb_node_alloc_def)

text \<open>What an insertion keeps of the nodes: everything but their children.\<close>

definition same_data :: "rb_node \<Rightarrow> rb_node \<Rightarrow> bool" where
  "same_data n n' \<longleftrightarrow> nd_color n' = nd_color n \<and> nd_key n' = nd_key n \<and> nd_val n' = nd_val n \<and> nd_parent n' = nd_parent n"

definition key_lt :: "rb_node_ops \<Rightarrow> dmem \<Rightarrow> rb_key \<Rightarrow> rb_key \<Rightarrow> bool" where
  "key_lt ops dm k1 k2 \<longleftrightarrow> (case key_compare ops dm k1 k2 of None \<Rightarrow> False | Some c \<Rightarrow> c < 0)"

definition new_key_lt :: "rb_node_ops \<Rightarrow> dmem \<Rightarrow> nmem \<Rightarrow> rb_key \<Rightarrow> addr \<Rightarrow> bool" where
  "new_key_lt ops dm m k a \<longleftrightarrow> key_lt ops dm k (node_key m a)"

lemma tree_at_insert_child:
  assumes "tree_at m a q T" "a \<notin> set_tree T"
  shows "tree_at (m(a \<mapsto> n)) a q T"
  using assms tree_at_frame [of T "m(a \<mapsto> n)" m] by (metis load_upd)

text \<open>The loop puts the new node where \<open>tree_ins\<close> puts it.\<close>

definition inserted_node :: "nmem \<Rightarrow> addr \<Rightarrow> addr tree \<Rightarrow> addr \<Rightarrow> u64 \<Rightarrow> addr \<Rightarrow> u64 \<Rightarrow> nmem \<Rightarrow> bool" where
  "inserted_node m p T key key_len val val_len m' \<longleftrightarrow>
     (\<exists>n par. load m' p = Some n \<and> new_leaf n key key_len val val_len par)
     \<and> (\<forall>q. q \<notin> insert p (set_tree T) \<longrightarrow> load m' q = load m q)
     \<and> (\<forall>q \<in> set_tree T. \<exists>n n'. load m q = Some n \<and> load m' q = Some n' \<and> same_data n n')"

lemma inserted_node_child:
  assumes ins: "inserted_node m p s key key_len val val_len m'" and s: "s = l \<or> s = r" "s' = l \<or> s' = r"
    and T: "tree_at m par a (Node l a r)" "distinct (inorder (Node l a r))" "p \<notin> set_tree (Node l a r)"
  shows "load m' a = load m a" "inserted_node m p (Node l a r) key key_len val val_len m'"
    "s' \<noteq> s \<or> set_tree s' \<inter> set_tree s = {} \<Longrightarrow> tree_at m' a q s' = tree_at m a q s'"
proof -
  have out: "load m' q = load m q" if "q \<notin> insert p (set_tree s)" for q
    using ins that by (auto simp: inserted_node_def)
  show la: "load m' a = load m a"
    by (rule out) (use s T in auto)
  have ld: "\<exists>n. load m q = Some n" if "q \<in> set_tree (Node l a r)" for q
    by (rule tree_at_load [OF T(1) that])
  show "inserted_node m p (Node l a r) key key_len val val_len m'"
    unfolding inserted_node_def
  proof (intro conjI ballI allI impI)
    show "\<exists>n par. load m' p = Some n \<and> new_leaf n key key_len val val_len par"
      using ins by (simp add: inserted_node_def)
    show "load m' q = load m q" if "q \<notin> insert p (set_tree (Node l a r))" for q
      using that s by (intro out) auto
    show "\<exists>n n'. load m q = Some n \<and> load m' q = Some n' \<and> same_data n n'" if "q \<in> set_tree (Node l a r)" for q
    proof (cases "q \<in> set_tree s")
      case False
      then have "load m' q = load m q" using that T(3) by (intro out) auto
      then show ?thesis using ld [OF that] by (auto simp: same_data_def)
    qed (use ins in \<open>simp add: inserted_node_def\<close>)
  qed
  assume "s' \<noteq> s \<or> set_tree s' \<inter> set_tree s = {}"
  then have "set_tree s' \<inter> set_tree s = {}" using s T(2) by auto
  then show "tree_at m' a q s' = tree_at m a q s'"
    using s T(3) by (intro tree_at_frame ballI out) auto
qed

text \<open>A new leaf is stored and then linked from the node \<open>a\<close>, whose data stays.\<close>

lemma inserted_leaf:
  assumes "tree_at m par a (Node l a r)" "distinct (inorder (Node l a r))" "p \<notin> set_tree (Node l a r)" "p \<noteq> NULL" "load m a = Some n"
    and "new_leaf x key key_len val val_len a" "same_data n y"
  shows "inserted_node m p (Node l a r) key key_len val val_len (m(p \<mapsto> x, a \<mapsto> y))"
  unfolding inserted_node_def
proof (intro conjI ballI allI impI)
  fix q assume q: "q \<in> set_tree (Node l a r)"
  obtain k where k: "load m q = Some k" using tree_at_load [OF assms(1) q] by blast
  show "\<exists>n n'. load m q = Some n \<and> load (m(p \<mapsto> x, a \<mapsto> y)) q = Some n' \<and> same_data n n'"
    using k assms(3,5,7) q by (cases "q = a") (auto simp: mem_simps same_data_def dest: load_SomeD)
qed (use assms in \<open>auto simp: mem_simps\<close>)

lemma linked_leaf:
  assumes "tree_at m par a (Node l a r)" "distinct (inorder (Node l a r))" "p \<notin> set_tree (Node l a r)" "p \<noteq> NULL" "load m a = Some n"
    and "new_leaf x key key_len val val_len a"
  shows "l = Leaf \<Longrightarrow> tree_at (m(p \<mapsto> x, a \<mapsto> n\<lparr>nd_left := p\<rparr>)) par a (Node (Node Leaf p Leaf) a r)"
    "r = Leaf \<Longrightarrow> tree_at (m(p \<mapsto> x, a \<mapsto> n\<lparr>nd_right := p\<rparr>)) par a (Node l a (Node Leaf p Leaf))"
proof -
  have sub: "a \<notin> set_tree l" "a \<notin> set_tree r" "p \<noteq> a" "p \<notin> set_tree l" "p \<notin> set_tree r" "a \<noteq> NULL"
    using assms(2,3,5) by (auto dest: load_SomeD)
  have n: "nd_parent n = par" "tree_at m a (nd_left n) l" "tree_at m a (nd_right n) r"
    using assms(1,5) by auto
  have keep: "tree_at (m(p \<mapsto> x, a \<mapsto> y)) a q s = tree_at m a q s" if "a \<notin> set_tree s" "p \<notin> set_tree s" for y q s
    by (rule tree_at_frame) (use that in \<open>auto simp: mem_simps\<close>)
  show "l = Leaf \<Longrightarrow> tree_at (m(p \<mapsto> x, a \<mapsto> n\<lparr>nd_left := p\<rparr>)) par a (Node (Node Leaf p Leaf) a r)"
    "r = Leaf \<Longrightarrow> tree_at (m(p \<mapsto> x, a \<mapsto> n\<lparr>nd_right := p\<rparr>)) par a (Node l a (Node Leaf p Leaf))"
    using assms(4,6) n sub by (auto simp: keep mem_simps new_leaf_def)
qed

lemma bst_loop_ok:
  assumes "tree_at m par c T" "T \<noteq> Leaf" "distinct (inorder T)" "p \<notin> set_tree T" "p \<noteq> NULL"
    and "alloc_ok dm key_len val val_len"
    and "\<forall>a \<in> set_tree T. \<exists>i. key_compare ops dm \<lparr>rk_len = key_len, rk_data = key\<rparr> (node_key m a) = Some i"
  shows "\<exists>m'. bst_loop ops p dm key key_len val val_len m c = Some (p, m')
     \<and> tree_at m' par c (tree_ins (new_key_lt ops dm m \<lparr>rk_len = key_len, rk_data = key\<rparr>) p T)
     \<and> inserted_node m p T key key_len val val_len m'"
  using assms(1-4,7)
proof (induction T arbitrary: par c)
  case Leaf
  then show ?case by simp
next
  case (Node l a r)
  let ?k = "\<lparr>rk_len = key_len, rk_data = key\<rparr>" and ?lt = "new_key_lt ops dm m \<lparr>rk_len = key_len, rk_data = key\<rparr>"
  obtain n where n: "c = a" "load m a = Some n" "nd_parent n = par" "tree_at m a (nd_left n) l" "tree_at m a (nd_right n) r"
    using Node.prems(1) unfolding tree_at_Node by blast
  obtain i where i: "key_compare ops dm ?k (nd_key n) = Some i"
    using Node.prems(5) n(2) by (auto simp: node_key_def)
  have lt: "?lt a \<longleftrightarrow> i < 0" using i n(2) by (simp add: new_key_lt_def key_lt_def node_key_def)
  have dis: "distinct (inorder (Node l a r))" "p \<notin> set_tree (Node l a r)" using Node.prems(3,4) by auto
  have at: "tree_at m par a (Node l a r)" using Node.prems(1) n(1) by simp
  have nil: "l = Leaf \<longleftrightarrow> nd_left n = NULL" "r = Leaf \<longleftrightarrow> nd_right n = NULL"
    using n(4,5) tree_at_NULL by auto
  have cmp: "\<forall>a \<in> set_tree s. \<exists>i. key_compare ops dm ?k (node_key m a) = Some i" if "s = l \<or> s = r" for s
    using Node.prems(5) that by auto
  obtain x where x: "rb_node_alloc p dm key key_len val val_len a m = Some (p, m(p \<mapsto> x))" "new_leaf x key key_len val val_len a"
    using rb_node_alloc_ok [OF assms(6,5)] by blast
  have la: "load (m(p \<mapsto> x)) a = Some n" using n(2) dis(2) by (auto simp: mem_simps)
  note leaf = inserted_leaf [OF at dis assms(5) n(2) x(2)] linked_leaf [OF at dis assms(5) n(2) x(2)]
  note step = bst_loop.simps [of ops p dm key key_len val val_len m c]
  consider "i < 0" "l = Leaf" | "i < 0" "l \<noteq> Leaf" | "\<not> i < 0" "r = Leaf" | "\<not> i < 0" "r \<noteq> Leaf" by blast
  then show ?case
  proof cases
    case 1
    then show ?thesis
      using step n nil i x(1) la leaf(1) [of "n\<lparr>nd_left := p\<rparr>"] leaf(2) lt by (simp add: mem_simps same_data_def)
  next
    case 2
    then obtain m' where m': "bst_loop ops p dm key key_len val val_len m (nd_left n) = Some (p, m')"
        "tree_at m' a (nd_left n) (tree_ins ?lt p l)" "inserted_node m p l key key_len val val_len m'"
      using Node.IH(1) [OF n(4)] dis cmp by auto
    note ch = inserted_node_child [OF m'(3) _ _ at dis, of r]
    have "set_tree r \<inter> set_tree l = {}" using dis(1) by auto
    then have "tree_at m' par a (Node (tree_ins ?lt p l) a r)" using ch(1,3) n m'(2) by simp
    then show ?thesis using step 2 n nil i m'(1) lt ch(2) by auto
  next
    case 3
    then show ?thesis
      using step n nil i x(1) la leaf(1) [of "n\<lparr>nd_right := p\<rparr>"] leaf(3) lt by (simp add: mem_simps same_data_def)
  next
    case 4
    then obtain m' where m': "bst_loop ops p dm key key_len val val_len m (nd_right n) = Some (p, m')"
        "tree_at m' a (nd_right n) (tree_ins ?lt p r)" "inserted_node m p r key key_len val val_len m'"
      using Node.IH(2) [OF n(5)] dis cmp by auto
    note ch = inserted_node_child [OF m'(3) _ _ at dis, of l]
    have "set_tree l \<inter> set_tree r = {}" using dis(1) by auto
    then have "tree_at m' par a (Node l a (tree_ins ?lt p r))" using ch(1,3) n m'(2) by simp
    then show ?thesis using step 4 n nil i m'(1) lt ch(2) by auto
  qed
qed

lemma upd_same: "load m a = Some n \<Longrightarrow> m(a \<mapsto> n) = m"
  by (auto dest!: load_SomeD)

lemma bst_loop_no_memory:
  assumes "tree_at m par c T" "T \<noteq> Leaf"
    and "\<forall>a \<in> set_tree T. \<exists>i. key_compare ops dm \<lparr>rk_len = key_len, rk_data = key\<rparr> (node_key m a) = Some i"
  shows "bst_loop ops NULL dm key key_len val val_len m c = Some (NULL, m)"
  using assms
proof (induction T arbitrary: par c)
  case (Node l a r)
  obtain n where n: "c = a" "load m a = Some n" "tree_at m a (nd_left n) l" "tree_at m a (nd_right n) r"
    using Node.prems(1) unfolding tree_at_Node by blast
  obtain i where i: "key_compare ops dm \<lparr>rk_len = key_len, rk_data = key\<rparr> (nd_key n) = Some i"
    using Node.prems(3) n(2) by (auto simp: node_key_def)
  have nil: "l = Leaf \<longleftrightarrow> nd_left n = NULL" "r = Leaf \<longleftrightarrow> nd_right n = NULL"
    using n(3,4) tree_at_NULL by auto
  have same: "nd_left n = NULL \<Longrightarrow> m(a \<mapsto> n\<lparr>nd_left := NULL\<rparr>) = m" "nd_right n = NULL \<Longrightarrow> m(a \<mapsto> n\<lparr>nd_right := NULL\<rparr>) = m"
    using upd_same [OF n(2)] by (cases n; simp)+
  show ?case
    using n i nil same Node.IH(1) [OF n(3)] Node.IH(2) [OF n(4)] Node.prems(3)
    by (subst bst_loop.simps) (auto simp: rb_node_alloc_NULL upd_node_Some)
qed simp

text \<open>Every node to the left is less than the node above it, none to the right is.\<close>

fun search_tree :: "('k \<Rightarrow> 'k \<Rightarrow> bool) \<Rightarrow> (addr \<Rightarrow> 'k) \<Rightarrow> addr tree \<Rightarrow> bool" where
  "search_tree lt key Leaf \<longleftrightarrow> True"
| "search_tree lt key (Node l a r) \<longleftrightarrow> search_tree lt key l \<and> search_tree lt key r
     \<and> (\<forall>x \<in> set_tree l. lt (key x) (key a)) \<and> (\<forall>x \<in> set_tree r. \<not> lt (key x) (key a))"

lemma search_tree_ins: "search_tree lt key T \<Longrightarrow> search_tree lt key (tree_ins (\<lambda>a. lt (key x) (key a)) x T)"
  by (induction T) (auto simp: set_tree_ins)

lemma search_tree_cong: "\<forall>a \<in> set_tree T. key' a = key a \<Longrightarrow> search_tree lt key' T = search_tree lt key T"
  by (induction T) auto

lemma tree_ins_cong: "\<forall>a \<in> set_tree T. lt' a = lt a \<Longrightarrow> tree_ins lt' x T = tree_ins lt x T"
  by (induction T) auto

text \<open>
  The order of the keys. The insertion asks only whether the new key is less than that of a node. If that
  relation is transitive and irreflexive, no node of a search tree comes after one with a greater key.
\<close>

locale key_order =
  fixes lt :: "'k \<Rightarrow> 'k \<Rightarrow> bool"
  assumes lt_trans: "lt x y \<Longrightarrow> lt y z \<Longrightarrow> lt x z" and lt_irrefl: "\<not> lt x x"
begin

lemma no_inversion: "search_tree lt key T \<Longrightarrow> sorted_wrt (\<lambda>a b. \<not> lt (key b) (key a)) (inorder T)"
proof (induction T)
  case (Node l a r)
  have "\<not> lt (key y) (key x)" if x: "x \<in> set_tree l" and y: "y \<in> insert a (set_tree r)" for x y
  proof
    assume "lt (key y) (key x)"
    then have "lt (key y) (key a)" using lt_trans Node.prems x by auto
    then show False using Node.prems y lt_irrefl by auto
  qed
  then show ?case using Node by (auto simp: sorted_wrt_append)
qed simp

end

text \<open>The order of the default comparison: keys of different length are never less than each other.\<close>

lemma bytes_cmp_trans:
  "length xs = length ys \<Longrightarrow> length ys = length zs \<Longrightarrow> bytes_cmp xs ys < 0 \<Longrightarrow> bytes_cmp ys zs < 0 \<Longrightarrow> bytes_cmp xs zs < 0"
proof (induction xs arbitrary: ys zs)
  case (Cons x xs)
  obtain y ys' where y: "ys = y # ys'" "length xs = length ys'"
    using Cons.prems(1) by (cases ys) auto
  obtain z zs' where "zs = z # zs'" "length ys' = length zs'"
    using Cons.prems(2) y by (cases zs) auto
  with y show ?case using Cons.IH [of ys' zs'] Cons.prems(3,4) by (auto split: if_splits)
qed simp

lemma bytes_cmp_refl: "bytes_cmp xs xs = 0"
  by (induction xs) auto

lemma default_lt_iff:
  "key_lt default_tree_ops dm k1 k2 \<longleftrightarrow> rk_len k1 = rk_len k2
     \<and> (\<exists>xs ys. load dm (rk_data k1) = Some xs \<and> load dm (rk_data k2) = Some ys
          \<and> unat (rk_len k1) \<le> length xs \<and> unat (rk_len k1) \<le> length ys
          \<and> bytes_cmp (take (unat (rk_len k1)) xs) (take (unat (rk_len k1)) ys) < 0)"
  unfolding key_lt_def default_tree_ops_def default_comp_def memcmp_def
  by (cases "load dm (rk_data k1)"; cases "load dm (rk_data k2)") auto

interpretation dk: key_order "key_lt default_tree_ops dm" for dm :: dmem
proof
  fix x y z assume a: "key_lt default_tree_ops dm x y" "key_lt default_tree_ops dm y z"
  then obtain xs ys zs where l: "load dm (rk_data x) = Some xs" "load dm (rk_data y) = Some ys" "load dm (rk_data z) = Some zs"
    by (auto simp: default_lt_iff)
  let ?n = "unat (rk_len x)"
  have s: "rk_len y = rk_len x" "rk_len z = rk_len x" "?n \<le> length xs" "?n \<le> length ys" "?n \<le> length zs"
    "bytes_cmp (take ?n xs) (take ?n ys) < 0" "bytes_cmp (take ?n ys) (take ?n zs) < 0"
    using a l by (auto simp: default_lt_iff)
  have "bytes_cmp (take ?n xs) (take ?n zs) < 0"
    by (rule bytes_cmp_trans [of _ "take ?n ys"]) (use s in auto)
  then show "key_lt default_tree_ops dm x z"
    using l s by (simp add: default_lt_iff)
next
  show "\<not> key_lt default_tree_ops dm x x" for x
    by (auto simp: default_lt_iff bytes_cmp_refl)
qed

section \<open>Printing in order\<close>

text \<open>The right pointer of the last node of a tree, and what changing it does.\<close>

lemma inorder_last_right: "T \<noteq> Leaf \<Longrightarrow> inorder T \<noteq> []"
  by (cases T) auto

lemma tree_to_last:
  assumes "tree_to m p T e" "T \<noteq> Leaf" "distinct (inorder T)"
  defines "z \<equiv> last (inorder T)"
  shows "z \<in> set_tree T" "\<exists>q. load m z = Some q \<and> nd_right q = e \<and> tree_to (m(z \<mapsto> q\<lparr>nd_right := e'\<rparr>)) p T e'"
proof -
  show "z \<in> set_tree T"
    using assms(2) last_in_set [OF inorder_last_right] by (simp add: z_def)
  show "\<exists>q. load m z = Some q \<and> nd_right q = e \<and> tree_to (m(z \<mapsto> q\<lparr>nd_right := e'\<rparr>)) p T e'"
    unfolding z_def using assms(1-3)
  proof (induction T arbitrary: p)
    case (Node l a r)
    obtain n where n: "p = a" "load m a = Some n" "tree_to m (nd_left n) l NULL" "tree_to m (nd_right n) r e"
      using Node.prems(1) unfolding tree_to_Node by blast
    have a0: "a \<noteq> NULL" using n(2) by (auto dest: load_SomeD)
    show ?case
    proof (cases "r = Leaf")
      case True
      have "tree_to (m(a \<mapsto> n\<lparr>nd_right := e'\<rparr>)) (nd_left n) l NULL"
        using n(3) Node.prems(3) by (subst tree_to_frame [of l _ m]) (auto simp: mem_simps)
      moreover have "load (m(a \<mapsto> n\<lparr>nd_right := e'\<rparr>)) a = Some (n\<lparr>nd_right := e'\<rparr>)" using a0 by (simp add: mem_simps)
      ultimately have "tree_to (m(a \<mapsto> n\<lparr>nd_right := e'\<rparr>)) p (Node l a r) e'" using True n(1) by simp
      moreover have "last (inorder (Node l a r)) = a" "nd_right n = e" using True n(4) by auto
      ultimately show ?thesis using n(2) by metis
    next
      case False
      let ?z = "last (inorder r)"
      obtain q where q: "load m ?z = Some q" "nd_right q = e" "tree_to (m(?z \<mapsto> q\<lparr>nd_right := e'\<rparr>)) (nd_right n) r e'"
      proof -
        have "distinct (inorder r)" using Node.prems(3) by simp
        from Node.IH(2) [OF n(4) False this] that show thesis by blast
      qed
      have zr: "?z \<in> set_tree r" using last_in_set [OF inorder_last_right [OF False]] by simp
      then have za: "?z \<noteq> a" "?z \<notin> set_tree l" using Node.prems(3) by auto
      have "tree_to (m(?z \<mapsto> q\<lparr>nd_right := e'\<rparr>)) (nd_left n) l NULL"
        using n(3) za(2) by (subst tree_to_frame [of l _ m]) (auto simp: mem_simps)
      moreover have "load (m(?z \<mapsto> q\<lparr>nd_right := e'\<rparr>)) a = Some n" using n(2) za(1) by (simp add: mem_simps)
      ultimately have "tree_to (m(?z \<mapsto> q\<lparr>nd_right := e'\<rparr>)) p (Node l a r) e'" using q(3) n(1) by simp
      moreover have "last (inorder (Node l a r)) = ?z" using inorder_last_right [OF False] by simp
      ultimately show ?thesis using q(1,2) by metis
    qed
  qed simp
qed

text \<open>The inner loop finds the last node, whether it has a thread to the current node or none.\<close>

lemma find_prev_last:
  assumes "tree_to m p T e" "T \<noteq> Leaf" "e = NULL \<or> e = c" "c \<notin> set_tree T"
  shows "find_prev m c p = Some (last (inorder T))"
  using assms(1,2,4)
proof (induction T arbitrary: p)
  case (Node l a r)
  obtain n where n: "p = a" "load m a = Some n" "tree_to m (nd_right n) r e"
    using Node.prems(1) unfolding tree_to_Node by blast
  show ?case
  proof (cases "r = Leaf")
    case True
    then show ?thesis using n assms(3) by (subst find_prev.simps) auto
  next
    case False
    then obtain rl b rr where r: "r = Node rl b rr" by (cases r) auto
    then have b: "nd_right n = b" "b \<noteq> NULL" "b \<noteq> c"
      using n(3) Node.prems(3) by (auto split: option.splits dest: load_SomeD)
    have "find_prev m c b = Some (last (inorder r))"
      using Node.IH(2) [OF n(3) False] Node.prems(3) b(1) by auto
    then show ?thesis
      using n b inorder_last_right [OF False] by (subst find_prev.simps) auto
  qed
qed simp

text \<open>
  The run through a subtree: from its root to the place its last right pointer leads to, with the lines of its nodes in order,
  and the memory as it was.
\<close>

definition lines_of :: "rb_node_ops \<Rightarrow> nmem \<Rightarrow> addr tree \<Rightarrow> line list" where
  "lines_of ops m T = map (\<lambda>a. print_node ops (the (load m a))) (inorder T)"

lemma lines_of_upd:
  assumes "load m z = Some q"
  shows "lines_of ops (m(z \<mapsto> q\<lparr>nd_right := e\<rparr>)) T = lines_of ops m T"
  using assms by (auto simp: lines_of_def print_node_def mem_simps dest: load_SomeD)

lemma print_second_visit:
  assumes q: "load m z = Some q" "nd_right q = NULL" and n: "load m a = Some n" "z \<noteq> a" "nd_left n \<noteq> NULL"
    and prev: "find_prev (m(z \<mapsto> q\<lparr>nd_right := a\<rparr>)) a (nd_left n) = Some z"
  shows "print_loop ops (m(z \<mapsto> q\<lparr>nd_right := a\<rparr>)) a out = print_loop ops m (nd_right n) (out @ [print_node ops n])"
proof -
  define m1 where "m1 = m(z \<mapsto> q\<lparr>nd_right := a\<rparr>)"
  have "q\<lparr>nd_right := NULL\<rparr> = q" using q(2) by (cases q) simp
  then have "m1(z \<mapsto> q\<lparr>nd_right := NULL\<rparr>) = m" using upd_same [OF q(1)] by (simp add: m1_def)
  moreover have "load m1 a = Some n" "load m1 z = Some (q\<lparr>nd_right := a\<rparr>)" "a \<noteq> NULL"
    using q(1) n(1,2) by (auto simp: m1_def mem_simps dest: load_SomeD)
  ultimately show ?thesis
    using n prev unfolding m1_def [symmetric] by (subst print_loop.simps) (simp add: mem_simps)
qed

lemma print_loop_through:
  assumes "tree_to m p T e" "distinct (inorder T)" "e \<notin> set_tree T"
  shows "print_loop ops m p out = print_loop ops m e (out @ lines_of ops m T)"
  using assms
proof (induction T arbitrary: m p e out)
  case Leaf
  then show ?case by (simp add: lines_of_def)
next
  case (Node l a r)
  obtain n where n: "p = a" "load m a = Some n" "tree_to m (nd_left n) l NULL" "tree_to m (nd_right n) r e"
    using Node.prems(1) unfolding tree_to_Node by blast
  have a0: "a \<noteq> NULL" using n(2) by (auto dest: load_SomeD)
  have dis: "distinct (inorder l)" "distinct (inorder r)" "a \<notin> set_tree l" "a \<notin> set_tree r" "e \<notin> set_tree r" "e \<noteq> a"
    using Node.prems(2,3) by auto
  have right: "print_loop ops m (nd_right n) (out' @ [print_node ops n])
      = print_loop ops m e ((out' @ [print_node ops n]) @ lines_of ops m r)" for out'
    by (rule Node.IH(2) [OF n(4) dis(2,5)])
  have split: "lines_of ops m (Node l a r) = lines_of ops m l @ [print_node ops n] @ lines_of ops m r"
    using n(2) by (simp add: lines_of_def)
  show ?case
  proof (cases "l = Leaf")
    case True
    then show ?thesis
      using n a0 right [of out] split by (subst print_loop.simps) (simp add: lines_of_def)
  next
    case False
    define z where "z = last (inorder l)"
    obtain q where q: "load m z = Some q" "nd_right q = NULL" "tree_to (m(z \<mapsto> q\<lparr>nd_right := a\<rparr>)) (nd_left n) l a"
      using tree_to_last(2) [OF n(3) False dis(1), of a] unfolding z_def by blast
    have zl: "z \<in> set_tree l" using tree_to_last(1) [OF n(3) False dis(1)] by (simp add: z_def)
    then have za: "z \<noteq> a" using dis(3) by blast
    define m1 where "m1 = m(z \<mapsto> q\<lparr>nd_right := a\<rparr>)"
    have la: "load m1 a = Some n" using n(2) za by (simp add: m1_def mem_simps)
    have t1: "tree_to m1 (nd_left n) l a" unfolding m1_def by (rule q(3))
    have l1: "lines_of ops m1 l = lines_of ops m l" unfolding m1_def by (rule lines_of_upd [OF q(1)])
    have nl: "nd_left n \<noteq> NULL" using n(3) False tree_to_NULL by blast
    have "print_loop ops m p out = print_loop ops m1 (nd_left n) out"
      using n a0 nl q find_prev_last [OF n(3) False, of a] dis(3) la
      by (subst print_loop.simps) (simp add: z_def [symmetric] mem_simps m1_def [symmetric])
    also have "\<dots> = print_loop ops m1 a (out @ lines_of ops m l)"
      using Node.IH(1) [OF t1 dis(1,3)] l1 by simp
    also have "\<dots> = print_loop ops m (nd_right n) ((out @ lines_of ops m l) @ [print_node ops n])"
      unfolding m1_def
      by (rule print_second_visit [OF q(1,2) n(2) za nl])
        (use find_prev_last [OF t1 False, of a] dis(3) in \<open>simp add: z_def m1_def\<close>)
    finally show ?thesis using right [of "out @ lines_of ops m l"] split by simp
  qed
qed

section \<open>Destroying a tree\<close>

text \<open>The blocks a node owns, and those of a tree.\<close>

definition node_blocks :: "rb_node \<Rightarrow> addr list" where
  "node_blocks n = filter (\<lambda>p. p \<noteq> NULL) [rk_data (nd_key n), rv_data (nd_val n)]"

definition tree_blocks :: "nmem \<Rightarrow> addr tree \<Rightarrow> addr list" where
  "tree_blocks m T = concat (map (\<lambda>a. node_blocks (the (load m a))) (inorder T))"

definition without :: "'a mem \<Rightarrow> addr set \<Rightarrow> 'a mem" where
  "without m A = (\<lambda>p. if p \<in> A then None else m p)"

lemma load_without: "load (without m A) p = (if p \<in> A then None else load m p)"
  by (simp add: load_def without_def)

lemma without_upd: "(without m A)(p := None) = without m (insert p A)"
  by (auto simp: without_def)

lemma without_empty: "without m {} = m"
  by (simp add: without_def)

lemma tree_blocks_Node:
  "load m a = Some n \<Longrightarrow> tree_blocks m (Node l a r) = tree_blocks m l @ node_blocks n @ tree_blocks m r"
  by (simp add: tree_blocks_def)

lemma tree_blocks_frame: "\<forall>a \<in> set_tree T. load m' a = load m a \<Longrightarrow> tree_blocks m' T = tree_blocks m T"
  unfolding tree_blocks_def by (intro arg_cong [where f = concat] map_cong) auto

lemma free_node_default:
  assumes "load m a = Some n" "distinct (node_blocks n)" "\<forall>b \<in> set (node_blocks n). load dm b \<noteq> None"
  shows "free_node default_tree_ops a (m, dm) = Some (m(a := None), without dm (set (node_blocks n)))"
  using assms
  by (auto simp: free_node_def default_tree_ops_def default_key_free_def default_value_free_def node_blocks_def without_def load_def
      fun_eq_iff split: if_splits)

lemma destroy_default:
  assumes "tree_to m p T NULL" "distinct (inorder T)" "distinct (tree_blocks m T)" "\<forall>b \<in> set (tree_blocks m T). load dm b \<noteq> None"
  shows "rb_tree_node_destroy default_tree_ops p (m, dm) = Some (without m (set_tree T), without dm (set (tree_blocks m T)))"
  using assms
proof (induction T arbitrary: m dm p)
  case Leaf
  then show ?case by (subst rb_tree_node_destroy.simps) (simp add: tree_blocks_def without_empty)
next
  case (Node l a r)
  obtain n where n: "p = a" "load m a = Some n" "tree_to m (nd_left n) l NULL" "tree_to m (nd_right n) r NULL"
    using Node.prems(1) unfolding tree_to_Node by blast
  note b = tree_blocks_Node [OF n(2), of l r]
  have dis: "distinct (inorder l)" "distinct (inorder r)" "a \<notin> set_tree l" "a \<notin> set_tree r" "set_tree l \<inter> set_tree r = {}"
    using Node.prems(2) by auto
  have db: "distinct (tree_blocks m l)" "distinct (node_blocks n)" "distinct (tree_blocks m r)"
    "set (tree_blocks m l) \<inter> set (node_blocks n) = {}" "set (tree_blocks m l) \<inter> set (tree_blocks m r) = {}"
    "set (node_blocks n) \<inter> set (tree_blocks m r) = {}"
    using Node.prems(3) b by auto
  define m1 dm1 where "m1 = without m (set_tree l)" and "dm1 = without dm (set (tree_blocks m l))"
  define m2 dm2 where "m2 = without m1 (set_tree r)" and "dm2 = without dm1 (set (tree_blocks m r))"
  have fr: "\<forall>x \<in> set_tree r. load m1 x = load m x" using dis(5) by (auto simp: m1_def load_without)
  have la: "load m1 a = Some n" "load m2 a = Some n" using n(2) dis by (auto simp: m1_def m2_def load_without)
  have run1: "rb_tree_node_destroy default_tree_ops (nd_left n) (m, dm) = Some (m1, dm1)"
    unfolding m1_def dm1_def using Node.prems(4) b by (intro Node.IH(1) [OF n(3) dis(1) db(1)]) simp
  have run2: "rb_tree_node_destroy default_tree_ops (nd_right n) (m1, dm1) = Some (m2, dm2)"
  proof -
    have "tree_to m1 (nd_right n) r NULL" "tree_blocks m1 r = tree_blocks m r"
      using n(4) tree_to_frame [OF fr] tree_blocks_frame [OF fr] by auto
    moreover have "\<forall>b \<in> set (tree_blocks m r). load dm1 b \<noteq> None"
      using Node.prems(4) b db(5) by (auto simp: dm1_def load_without)
    ultimately show ?thesis
      using Node.IH(2) [of m1 "nd_right n" dm1] dis(2) db(3) by (simp add: m2_def dm2_def)
  qed
  have "free_node default_tree_ops a (m2, dm2) = Some (m2(a := None), without dm2 (set (node_blocks n)))"
    using Node.prems(4) b db(4,6) by (intro free_node_default [OF la(2) db(2)]) (auto simp: dm1_def dm2_def load_without)
  moreover have "a \<noteq> NULL" using n(2) by (auto dest: load_SomeD)
  moreover have "m2(a := None) = without m (set_tree (Node l a r))"
    by (auto simp: m1_def m2_def without_def)
  moreover have "without dm2 (set (node_blocks n)) = without dm (set (tree_blocks m (Node l a r)))"
    using b by (auto simp: dm1_def dm2_def without_def)
  ultimately show ?case
    using n(1,2) la run1 run2 by (subst rb_tree_node_destroy.simps) simp
qed

section \<open>Insertion with copies\<close>

lemma rb_tree_insert_result:
  assumes "rb_tree_insert alloc i tree key key_len val val_len dm = Some (ret, tree', dm')"
  shows "ret = -1 \<and> tree' = tree \<and> (\<exists>j \<ge> i. alloc j = NULL)"
proof -
  have "fst (ret, tree', dm') = -1 \<and> fst (snd (ret, tree', dm')) = tree \<and> (\<exists>j \<ge> i. alloc j = NULL)"
  proof (rule rb_tree_insert.raw_induct [where P = "\<lambda>alloc i tree _ _ _ _ _ r. fst r = -1 \<and> fst (snd r) = tree
      \<and> (\<exists>j \<ge> i. alloc j = NULL)", OF _ assms], goal_cases)
    case (1 f alloc i tree key key_len val val_len dm r)
    show ?case
    proof (cases "alloc i = NULL \<or> alloc (i + 1) = NULL")
      case True
      then show ?thesis using 1(2) by (auto split: if_splits intro: exI [of _ "Suc i"])
    next
      case False
      then obtain dm2 where "f alloc (i + 2) tree (alloc i) key_len (alloc (i + 1)) val_len dm2 = Some r"
        using 1(2) by (auto simp: bind_Some_iff)
      from 1(1) [OF this] show ?thesis by (metis add_leD1)
    qed
  qed
  then show ?thesis by simp
qed

lemma copy_block_ok:
  assumes "load dm src = Some bs" "unat n \<le> length bs" "dst \<noteq> NULL"
  shows "\<exists>dm'. copy_block dm dst src n = Some dm' \<and> load dm' dst = Some (take (unat n) bs) \<and> (\<forall>q. q \<noteq> dst \<longrightarrow> load dm' q = load dm q)"
  using assms by (auto simp: copy_block_def mem_simps)

section \<open>Properties\<close>

lemma bst_insert_refines:
  assumes t: "tree_at m NULL (tr_root t) T" "distinct (inorder T)" and p: "p \<notin> set_tree T" "p \<noteq> NULL"
    and ok: "alloc_ok dm key_len val val_len"
    and cmp: "\<forall>a \<in> set_tree T. \<exists>i. key_compare (tr_ops t) dm \<lparr>rk_len = key_len, rk_data = key\<rparr> (node_key m a) = Some i"
  shows "\<exists>t' m'. bst_insert p dm t key key_len val val_len (Some v) m = Some (1, t', Some p, m')
     \<and> tree_at m' NULL (tr_root t') (tree_ins (new_key_lt (tr_ops t) dm m \<lparr>rk_len = key_len, rk_data = key\<rparr>) p T)
     \<and> inserted_node m p T key key_len val val_len m' \<and> tr_ops t' = tr_ops t \<and> tr_size t' = tr_size t"
proof (cases "T = Leaf")
  case True
  then have r: "tr_root t = NULL" using t(1) by simp
  obtain n where n: "rb_node_alloc p dm key key_len val val_len NULL m = Some (p, m(p \<mapsto> n))" "new_leaf n key key_len val val_len NULL"
    using rb_node_alloc_ok [OF ok p(2)] by blast
  then have "bst_insert p dm t key key_len val val_len (Some v) m = Some (1, t\<lparr>tr_root := p\<rparr>, Some p, m(p \<mapsto> n))"
    using r p(2) by (simp add: bst_insert_def)
  moreover have "tree_at (m(p \<mapsto> n)) NULL p (Node Leaf p Leaf)"
    using n(2) p(2) by (simp add: mem_simps new_leaf_def)
  moreover have "inserted_node m p T key key_len val val_len (m(p \<mapsto> n))"
    using n(2) p(2) True by (auto simp: inserted_node_def mem_simps)
  ultimately show ?thesis using True by auto
next
  case False
  then have r: "tr_root t \<noteq> NULL" using tree_at_NULL [OF t(1)] by simp
  from bst_loop_ok [OF t(1) False t(2) p ok cmp] r p(2) show ?thesis
    by (auto simp: bst_insert_def)
qed

text \<open>
  C27: \<open>bst_insert\<close> refines insertion into a search tree. On a tree with consistent left, right and parent pointers whose
  keys can be compared with the new key it ends, returns \<open>1\<close> and stores the new node, a red leaf with the key and the value, where
  \<open>tree_ins\<close> puts it: to the left of the nodes whose keys are greater and to the right of all others, also of those with an
  equal key, so it never returns \<open>0\<close>. The other nodes keep colour, key, value and parent. The size field is not counted up. Without
  memory the result is \<open>-1\<close> and nothing changes.
\<close>

theorem bst_insert_correct:
  assumes "tree_at m NULL (tr_root t) T" "distinct (inorder T)" "p \<notin> set_tree T" "p \<noteq> NULL" "alloc_ok dm key_len val val_len"
    and "\<forall>a \<in> set_tree T. \<exists>i. key_compare (tr_ops t) dm \<lparr>rk_len = key_len, rk_data = key\<rparr> (node_key m a) = Some i"
  shows "(\<exists>t' m'. bst_insert p dm t key key_len val val_len (Some v) m = Some (1, t', Some p, m')
       \<and> tree_at m' NULL (tr_root t') (tree_ins (new_key_lt (tr_ops t) dm m \<lparr>rk_len = key_len, rk_data = key\<rparr>) p T)
       \<and> inserted_node m p T key key_len val val_len m' \<and> tr_ops t' = tr_ops t \<and> tr_size t' = tr_size t)
     \<and> (\<exists>nn. bst_insert NULL dm t key key_len val val_len (Some v) m = Some (-1, t, nn, m))"
proof (intro conjI bst_insert_refines [OF assms])
  show "\<exists>nn. bst_insert NULL dm t key key_len val val_len (Some v) m = Some (-1, t, nn, m)"
  proof (cases "T = Leaf")
    case True
    then have "tr_root t = NULL" using assms(1) by simp
    then show ?thesis by (cases t) (simp add: bst_insert_def rb_node_alloc_NULL)
  next
    case False
    then have "tr_root t \<noteq> NULL" using tree_at_NULL [OF assms(1)] by simp
    then show ?thesis using bst_loop_no_memory [OF assms(1) False assms(6)] by (simp add: bst_insert_def)
  qed
qed

text \<open>
  With the default operations an insertion keeps the tree a search tree, and in the order of the nodes no
  key comes after a greater one. (Keys of different length count as neither less nor greater.)
\<close>

theorem bst_insert_default_sorted:
  assumes "tree_at m NULL (tr_root t) T" "distinct (inorder T)" "p \<notin> set_tree T" "p \<noteq> NULL" "alloc_ok dm key_len val val_len"
    and "\<forall>a \<in> set_tree T. \<exists>i. key_compare (tr_ops t) dm \<lparr>rk_len = key_len, rk_data = key\<rparr> (node_key m a) = Some i"
    and "tr_ops t = default_tree_ops" "search_tree (key_lt default_tree_ops dm) (node_key m) T"
  shows "\<exists>t' m' T'. bst_insert p dm t key key_len val val_len (Some v) m = Some (1, t', Some p, m') \<and> tree_at m' NULL (tr_root t') T'
     \<and> mset (inorder T') = add_mset p (mset (inorder T)) \<and> search_tree (key_lt default_tree_ops dm) (node_key m') T'
     \<and> sorted_wrt (\<lambda>a b. \<not> key_lt default_tree_ops dm (node_key m' b) (node_key m' a)) (inorder T')"
proof -
  let ?k = "\<lparr>rk_len = key_len, rk_data = key\<rparr>" and ?T = "tree_ins (new_key_lt (tr_ops t) dm m \<lparr>rk_len = key_len, rk_data = key\<rparr>) p T"
  obtain t' m' where b: "bst_insert p dm t key key_len val val_len (Some v) m = Some (1, t', Some p, m')"
      "tree_at m' NULL (tr_root t') ?T" "inserted_node m p T key key_len val val_len m'"
    using bst_insert_refines [OF assms(1-6), of v] by blast
  have kp: "node_key m' p = ?k" using b(3) by (auto simp: inserted_node_def new_leaf_def node_key_def)
  have kq: "\<forall>a \<in> set_tree T. node_key m' a = node_key m a"
    using b(3) by (fastforce simp: inserted_node_def same_data_def node_key_def)
  have "search_tree (key_lt default_tree_ops dm) (node_key m') T"
    using assms(8) search_tree_cong [OF kq] by simp
  then have "search_tree (key_lt default_tree_ops dm) (node_key m') (tree_ins (\<lambda>a. key_lt default_tree_ops dm (node_key m' p) (node_key m' a)) p T)"
    by (rule search_tree_ins)
  moreover have "tree_ins (\<lambda>a. key_lt default_tree_ops dm (node_key m' p) (node_key m' a)) p T = ?T"
    using kp kq assms(7) by (intro tree_ins_cong) (simp add: new_key_lt_def)
  ultimately have st: "search_tree (key_lt default_tree_ops dm) (node_key m') ?T" by simp
  have "mset (inorder (tree_ins f p T)) = add_mset p (mset (inorder T))" for f
    by (induction T) auto
  then show ?thesis using b st dk.no_inversion [OF st] by blast
qed

text \<open>
  C28: \<open>rb_tree_print_in_order\<close> ends, prints the nodes in order, each once, and leaves every pointer of the tree as it was,
  although it threads the tree on the way.
\<close>

theorem rb_tree_print_in_order_correct:
  assumes "tree_at m NULL (tr_root t) T" "distinct (inorder T)"
  shows "rb_tree_print_in_order t m = Some (m, map (\<lambda>a. print_node (tr_ops t) (the (load m a))) (inorder T))"
proof (cases "tr_root t = NULL")
  case True
  then have "T = Leaf" using tree_at_NULL [OF assms(1)] by simp
  then show ?thesis using True by (simp add: rb_tree_print_in_order_def)
next
  case False
  have "NULL \<notin> set_tree T" using tree_at_load [OF assms(1)] by force
  from print_loop_through [OF tree_at_to [OF assms(1)] assms(2) this, of "tr_ops t" "[]"] False show ?thesis
    by (simp add: rb_tree_print_in_order_def lines_of_def print_loop.simps)
qed

text \<open>
  C29: \<open>rb_tree_destroy\<close> with the default operations ends and frees every node of the tree and every key and value block of its nodes,
  each once, and nothing else.
\<close>

theorem rb_tree_destroy_correct:
  assumes "tree_at m NULL (tr_root t) T" "distinct (inorder T)" "tr_ops t = default_tree_ops"
    and "distinct (tree_blocks m T)" "\<forall>b \<in> set (tree_blocks m T). load dm b \<noteq> None"
  shows "\<exists>m' dm'. rb_tree_destroy t (m, dm) = Some (m', dm') \<and> (\<forall>a. load m' a = (if a \<in> set_tree T then None else load m a))
     \<and> (\<forall>b. load dm' b = (if b \<in> set (tree_blocks m T) then None else load dm b))"
  using destroy_default [OF tree_at_to [OF assms(1)] assms(2,4,5)] assms(3)
  by (auto simp: rb_tree_destroy_def load_without)

text \<open>
  C30: \<open>rb_tree_insert\<close> calls itself instead of \<^verbatim>\<open>_rb_tree_insert\<close>: whatever \<^verbatim>\<open>malloc\<close> returns, the tree is never changed, the
  only value returned is \<open>-1\<close>, and that only after an allocation failed; as long as there is memory the call does not return.
\<close>

theorem rb_tree_insert_never_inserts:
  "(\<forall>ret tree' dm'. rb_tree_insert alloc 0 tree key key_len val val_len dm = Some (ret, tree', dm') \<longrightarrow> ret = -1 \<and> tree' = tree)
   \<and> ((\<forall>j. alloc j \<noteq> NULL) \<longrightarrow> rb_tree_insert alloc 0 tree key key_len val val_len dm = None)"
proof (intro conjI allI impI)
  show "rb_tree_insert alloc 0 tree key key_len val val_len dm = None" if "\<forall>j. alloc j \<noteq> NULL"
  proof (cases "rb_tree_insert alloc 0 tree key key_len val val_len dm")
    case (Some r)
    then show ?thesis using rb_tree_insert_result [of alloc 0 tree key key_len val val_len dm] that by (cases r) blast
  qed
qed (use rb_tree_insert_result in blast)+

subsection \<open>Examples\<close>

text \<open>A black root \<open>10\<close> with key \<open>b\<close> and its red right child \<open>20\<close> with key \<open>d\<close>; the keys and values are blocks of one and two bytes.\<close>

definition example_nodes :: nmem where
  "example_nodes =
     [10 \<mapsto> \<lparr>nd_color = RB_COLOR_BLACK, nd_left = 0, nd_right = 20, nd_parent = 0, nd_debug = 0,
        nd_key = \<lparr>rk_len = 1, rk_data = 100\<rparr>, nd_val = \<lparr>rv_len = 2, rv_data = 101\<rparr>\<rparr>,
      20 \<mapsto> \<lparr>nd_color = RB_COLOR_RED, nd_left = 0, nd_right = 0, nd_parent = 10, nd_debug = 0,
        nd_key = \<lparr>rk_len = 1, rk_data = 200\<rparr>, nd_val = \<lparr>rv_len = 2, rv_data = 201\<rparr>\<rparr>]"

definition example_blocks :: dmem where
  "example_blocks = [100 \<mapsto> [98], 101 \<mapsto> [0, 1], 200 \<mapsto> [100], 201 \<mapsto> [0, 2], 300 \<mapsto> [101], 301 \<mapsto> [0, 3]]"

definition example_rb_tree :: rb_tree where
  "example_rb_tree = \<lparr>tr_root = 10, tr_ops = default_tree_ops, tr_size = 0\<rparr>"

lemma example_rb_at: "tree_at example_nodes NULL (tr_root example_rb_tree) (Node Leaf 10 (Node Leaf 20 Leaf))"
  by (simp add: example_rb_tree_def example_nodes_def load_def)

lemma example_rb_cmp:
  "key_compare (tr_ops example_rb_tree) example_blocks \<lparr>rk_len = 1, rk_data = 300\<rparr> (node_key example_nodes 10) = Some 3"
  "key_compare (tr_ops example_rb_tree) example_blocks \<lparr>rk_len = 1, rk_data = 300\<rparr> (node_key example_nodes 20) = Some 1"
  by (simp_all add: example_rb_tree_def example_blocks_def example_nodes_def node_key_def load_def default_tree_ops_def default_comp_def
      memcmp_def)

lemma example_rb_ok:
  "alloc_ok example_blocks 1 301 2" "distinct (inorder (Node Leaf (10 :: addr) (Node Leaf 20 Leaf)))" "(30 :: addr) \<notin> set_tree (Node Leaf 10 (Node Leaf 20 Leaf))"
  "\<forall>a \<in> set_tree (Node Leaf 10 (Node Leaf 20 Leaf)).
     \<exists>i. key_compare (tr_ops example_rb_tree) example_blocks \<lparr>rk_len = 1, rk_data = 300\<rparr> (node_key example_nodes a) = Some i"
  using example_rb_cmp by (simp_all add: alloc_ok_def RB_NODE_SIZE_def)

lemma example_rb_lt:
  "\<not> new_key_lt (tr_ops example_rb_tree) example_blocks example_nodes \<lparr>rk_len = 1, rk_data = 300\<rparr> 10"
  "\<not> new_key_lt (tr_ops example_rb_tree) example_blocks example_nodes \<lparr>rk_len = 1, rk_data = 300\<rparr> 20"
  by (simp_all add: new_key_lt_def key_lt_def example_rb_cmp)

theorem bst_insert_correct_witness:
  "\<exists>t' m'. bst_insert 30 example_blocks example_rb_tree 300 1 301 2 (Some 0) example_nodes = Some (1, t', Some 30, m')
     \<and> tree_at m' NULL (tr_root t') (Node Leaf 10 (Node Leaf 20 (Node Leaf 30 Leaf)))"
  using bst_insert_correct [OF example_rb_at example_rb_ok(2,3) _ example_rb_ok(1,4), of 0] example_rb_lt by auto

theorem bst_insert_default_sorted_witness:
  "\<exists>t' m' T'. bst_insert 30 example_blocks example_rb_tree 300 1 301 2 (Some 0) example_nodes = Some (1, t', Some 30, m')
     \<and> tree_at m' NULL (tr_root t') T' \<and> search_tree (key_lt default_tree_ops example_blocks) (node_key m') T'"
proof -
  have "search_tree (key_lt default_tree_ops example_blocks) (node_key example_nodes) (Node Leaf 10 (Node Leaf 20 Leaf))"
    by (simp add: key_lt_def default_tree_ops_def default_comp_def memcmp_def node_key_def example_nodes_def example_blocks_def load_def)
  moreover have "tr_ops example_rb_tree = default_tree_ops" by (simp add: example_rb_tree_def)
  ultimately show ?thesis
    using bst_insert_default_sorted [OF example_rb_at example_rb_ok(2,3) _ example_rb_ok(1,4), of 0] by auto
qed

theorem rb_tree_print_in_order_correct_witness:
  "rb_tree_print_in_order example_rb_tree example_nodes = Some (example_nodes, [('''', ''black''), ('''', ''red'')])"
proof -
  have "map (\<lambda>a. print_node (tr_ops example_rb_tree) (the (load example_nodes a))) [10, 20] = [('''', ''black''), ('''', ''red'')]"
    by (simp add: print_node_def example_rb_tree_def example_nodes_def default_tree_ops_def default_value_print_def load_def)
  then show ?thesis
    using rb_tree_print_in_order_correct [OF example_rb_at example_rb_ok(2)] by simp
qed

theorem rb_tree_destroy_correct_witness:
  "\<exists>m' dm'. rb_tree_destroy example_rb_tree (example_nodes, example_blocks) = Some (m', dm')
     \<and> load m' 10 = None \<and> load m' 20 = None \<and> load dm' 100 = None \<and> load dm' 300 = Some [101]"
proof -
  have b: "tree_blocks example_nodes (Node Leaf 10 (Node Leaf 20 Leaf)) = [100, 101, 200, 201]"
    by (simp add: tree_blocks_def node_blocks_def example_nodes_def load_def)
  have l: "\<forall>b \<in> set [100, 101, 200, 201]. load example_blocks b \<noteq> None" "load example_blocks 300 = Some [101]"
    by (simp_all add: example_blocks_def load_def)
  have "tr_ops example_rb_tree = default_tree_ops" by (simp add: example_rb_tree_def)
  from rb_tree_destroy_correct [OF example_rb_at example_rb_ok(2) this, of example_blocks] b l show ?thesis by auto
qed

theorem rb_tree_insert_never_inserts_witness:
  "rb_tree_insert (\<lambda>j. 1000 + j) 0 example_rb_tree 300 1 301 2 example_blocks = None"
  using rb_tree_insert_never_inserts [of "\<lambda>j. 1000 + j" example_rb_tree 300 1 301 2 example_blocks] by simp

end
