(* ===== verification/Ckit_Rbcolor.thy ===== *)
theory Ckit_Rbcolor
  imports Ckit_Rbtree
begin

text \<open>
  The colours of the tree of \<^verbatim>\<open>src/rbtree.c\<close>. An insertion that needs no rotation leaves a red-black tree: the
  recolouring of cases 1 to 3 is right on every path to the root. (The insertions that rotate are in \<open>Ckit_Rbrotate\<close>.)
\<close>

section \<open>Red-black trees over a colour function\<close>

definition color_of :: "nmem \<Rightarrow> addr \<Rightarrow> rb_color" where
  "color_of m a = nd_color (the (load m a))"

fun root_color :: "(addr \<Rightarrow> rb_color) \<Rightarrow> addr tree \<Rightarrow> rb_color" where
  "root_color c Leaf = RB_COLOR_BLACK"
| "root_color c (Node l a r) = c a"

fun black_height :: "(addr \<Rightarrow> rb_color) \<Rightarrow> addr tree \<Rightarrow> nat" where
  "black_height c Leaf = 0"
| "black_height c (Node l a r) = black_height c l + (if c a = RB_COLOR_BLACK then 1 else 0)"

fun inv_height :: "(addr \<Rightarrow> rb_color) \<Rightarrow> addr tree \<Rightarrow> bool" where
  "inv_height c Leaf \<longleftrightarrow> True"
| "inv_height c (Node l a r) \<longleftrightarrow> black_height c l = black_height c r \<and> inv_height c l \<and> inv_height c r"

fun inv_color :: "(addr \<Rightarrow> rb_color) \<Rightarrow> addr tree \<Rightarrow> bool" where
  "inv_color c Leaf \<longleftrightarrow> True"
| "inv_color c (Node l a r) \<longleftrightarrow> (c a = RB_COLOR_RED \<longrightarrow> root_color c l = RB_COLOR_BLACK \<and> root_color c r = RB_COLOR_BLACK)
     \<and> inv_color c l \<and> inv_color c r"

definition rb_ok :: "(addr \<Rightarrow> rb_color) \<Rightarrow> addr tree \<Rightarrow> bool" where
  "rb_ok c T \<longleftrightarrow> inv_height c T \<and> inv_color c T \<and> root_color c T = RB_COLOR_BLACK"

lemma not_red [simp]: "x \<noteq> RB_COLOR_RED \<longleftrightarrow> x = RB_COLOR_BLACK" "x \<noteq> RB_COLOR_BLACK \<longleftrightarrow> x = RB_COLOR_RED"
  by (cases x; simp)+

lemma color_cong:
  assumes "\<forall>a \<in> set_tree T. c' a = c a"
  shows "root_color c' T = root_color c T" "black_height c' T = black_height c T" "inv_height c' T = inv_height c T"
    "inv_color c' T = inv_color c T"
proof -
  have r: "root_color c' S = root_color c S" if "\<forall>a \<in> set_tree S. c' a = c a" for S
    using that by (cases S) auto
  show "root_color c' T = root_color c T" by (rule r [OF assms])
  show h: "black_height c' T = black_height c T"
    using assms by (induction T) auto
  have hh: "black_height c' S = black_height c S" if "\<forall>a \<in> set_tree S. c' a = c a" for S
    using that by (induction S) auto
  show "inv_height c' T = inv_height c T" using assms by (induction T) (auto simp: hh)
  show "inv_color c' T = inv_color c T" using assms by (induction T) (auto simp: r)
qed

section \<open>The way to the root\<close>

text \<open>A step up: the node, and the subtree on its other side.\<close>

datatype step = Left_of addr "addr tree" | Right_of "addr tree" addr

fun up_node :: "step \<Rightarrow> addr" where
  "up_node (Left_of a r) = a"
| "up_node (Right_of l a) = a"

fun up_side :: "step \<Rightarrow> addr tree" where
  "up_side (Left_of a r) = r"
| "up_side (Right_of l a) = l"

fun up_tree :: "step \<Rightarrow> addr tree \<Rightarrow> addr tree" where
  "up_tree (Left_of a r) t = Node t a r"
| "up_tree (Right_of l a) t = Node l a t"

fun plug :: "step list \<Rightarrow> addr tree \<Rightarrow> addr tree" where
  "plug [] t = t"
| "plug (f # fs) t = plug fs (up_tree f t)"

definition up_nodes :: "step list \<Rightarrow> addr set" where
  "up_nodes fs = (\<Union>f \<in> set fs. insert (up_node f) (set_tree (up_side f)))"

lemma set_plug: "set_tree (plug fs t) = set_tree t \<union> up_nodes fs"
proof (induction fs arbitrary: t)
  case (Cons f fs)
  then show ?case by (cases f) (auto simp: up_nodes_def)
qed (simp add: up_nodes_def)

lemma plug_distinct: "distinct (inorder (plug fs t)) \<Longrightarrow> distinct (inorder t) \<and> set_tree t \<inter> up_nodes fs = {}"
proof (induction fs arbitrary: t)
  case (Cons f fs)
  then show ?case by (cases f) (fastforce simp: up_nodes_def)+
qed (simp add: up_nodes_def)

text \<open>The node above a place in the tree.\<close>

fun above :: "addr \<Rightarrow> step list \<Rightarrow> addr" where
  "above par [] = par"
| "above par (f # fs) = up_node f"

lemma tree_at_plug: "tree_at m par r (plug fs t) \<Longrightarrow> \<exists>q. tree_at m (above par fs) q t"
proof (induction fs arbitrary: t)
  case (Cons f fs)
  then obtain q where "tree_at m (above par fs) q (up_tree f t)" by auto
  then show ?case by (cases f) (auto split: option.splits)
qed auto

section \<open>Recolouring\<close>

definition same_shape :: "nmem \<Rightarrow> nmem \<Rightarrow> bool" where
  "same_shape m m' \<longleftrightarrow> (\<forall>a. map_option (nd_color_update (\<lambda>_. RB_COLOR_RED)) (load m' a) = map_option (nd_color_update (\<lambda>_. RB_COLOR_RED)) (load m a))"

lemma same_color_update:
  assumes "n'\<lparr>nd_color := RB_COLOR_RED\<rparr> = n\<lparr>nd_color := RB_COLOR_RED\<rparr>"
  shows "nd_left n' = nd_left n" "nd_right n' = nd_right n" "nd_parent n' = nd_parent n" "nd_key n' = nd_key n" "nd_val n' = nd_val n"
  using assms by (cases n; cases n'; simp)+

lemma tree_at_colors:
  assumes "same_shape m m'"
  shows "tree_at m' par p T = tree_at m par p T"
proof (induction T arbitrary: par p)
  case (Node l a r)
  have e: "map_option (nd_color_update (\<lambda>_. RB_COLOR_RED)) (load m' a) = map_option (nd_color_update (\<lambda>_. RB_COLOR_RED)) (load m a)"
    using assms by (simp add: same_shape_def)
  show ?case
  proof (cases "load m a")
    case None
    then show ?thesis using e by auto
  next
    case (Some n)
    then obtain n' where n': "load m' a = Some n'" "n'\<lparr>nd_color := RB_COLOR_RED\<rparr> = n\<lparr>nd_color := RB_COLOR_RED\<rparr>"
      using e by auto
    show ?thesis using Some n'(1) same_color_update [OF n'(2)] Node by simp
  qed
qed simp

lemma same_shape_trans: "same_shape m1 m2 \<Longrightarrow> same_shape m2 m3 \<Longrightarrow> same_shape m1 m3"
  by (simp add: same_shape_def)

lemma same_shape_refl: "same_shape m m"
  by (simp add: same_shape_def)

lemma recolor:
  assumes "load m a = Some n"
  shows "upd_node m a (nd_color_update (\<lambda>_. c)) = Some (m(a \<mapsto> n\<lparr>nd_color := c\<rparr>))" "same_shape m (m(a \<mapsto> n\<lparr>nd_color := c\<rparr>))"
    "color_of (m(a \<mapsto> n\<lparr>nd_color := c\<rparr>)) = (color_of m)(a := c)"
  using assms by (auto simp: mem_simps same_shape_def color_of_def fun_eq_iff dest: load_SomeD)

text \<open>The invariants of a tree in terms of a place in it and the way to the root.\<close>

fun way_ok :: "(addr \<Rightarrow> rb_color) \<Rightarrow> step list \<Rightarrow> bool" where
  "way_ok c [] \<longleftrightarrow> True"
| "way_ok c (f # fs) \<longleftrightarrow> inv_color c (up_side f)
     \<and> (c (up_node f) = RB_COLOR_RED \<longrightarrow> root_color c (up_side f) = RB_COLOR_BLACK \<and> (fs \<noteq> [] \<longrightarrow> c (up_node (hd fs)) = RB_COLOR_BLACK))
     \<and> way_ok c fs"

lemma inv_color_plug:
  "inv_color c (plug fs t) \<longleftrightarrow> way_ok c fs \<and> inv_color c t \<and> (fs \<noteq> [] \<and> c (up_node (hd fs)) = RB_COLOR_RED \<longrightarrow> root_color c t = RB_COLOR_BLACK)"
proof (induction fs arbitrary: t)
  case (Cons f fs)
  show ?case using Cons.IH [of "up_tree f t"] by (cases f; cases "c (up_node f)"; cases "fs = []") auto
qed simp

lemma root_color_plug: "root_color c (plug fs t) = (if fs = [] then root_color c t else c (up_node (last fs)))"
proof (induction fs arbitrary: t)
  case (Cons f fs)
  then show ?case by (cases f) auto
qed simp

lemma inv_height_plug:
  assumes "inv_height c (plug fs t)" "\<forall>a \<in> up_nodes fs. c' a = c a" "inv_height c t \<Longrightarrow> inv_height c' t'" "black_height c' t' = black_height c t"
  shows "inv_height c' (plug fs t')"
  using assms
proof (induction fs arbitrary: t t')
  case (Cons f fs)
  have s: "\<forall>a \<in> set_tree (up_side f). c' a = c a" "c' (up_node f) = c (up_node f)" using Cons.prems(2) by (auto simp: up_nodes_def)
  note cc = color_cong [OF s(1)]
  show ?case
    unfolding plug.simps
  proof (rule Cons.IH)
    show "inv_height c (plug fs (up_tree f t))" using Cons.prems(1) by simp
    show "\<forall>a \<in> up_nodes fs. c' a = c a" using Cons.prems(2) by (auto simp: up_nodes_def)
    show "inv_height c (up_tree f t) \<Longrightarrow> inv_height c' (up_tree f t')" using Cons.prems(3,4) cc by (cases f) auto
    show "black_height c' (up_tree f t') = black_height c (up_tree f t)" using Cons.prems(4) cc s(2) by (cases f) auto
  qed
qed auto

lemma way_ok_cong:
  assumes "\<forall>a \<in> up_nodes fs. c' a = c a"
  shows "way_ok c' fs = way_ok c fs"
  using assms
proof (induction fs)
  case (Cons f fs)
  have s: "\<forall>a \<in> set_tree (up_side f). c' a = c a" "c' (up_node f) = c (up_node f)" "\<forall>a \<in> up_nodes fs. c' a = c a"
    using Cons.prems by (auto simp: up_nodes_def)
  have "fs \<noteq> [] \<Longrightarrow> c' (up_node (hd fs)) = c (up_node (hd fs))" using s(3) by (cases fs) (auto simp: up_nodes_def)
  then show ?case using Cons.IH [OF s(3)] color_cong [OF s(1)] s(2) by auto
qed simp

text \<open>Does the rebalancing come to a rotation on this way?\<close>

fun rotates :: "(addr \<Rightarrow> rb_color) \<Rightarrow> step list \<Rightarrow> bool" where
  "rotates c (f # g # fs) \<longleftrightarrow> c (up_node f) = RB_COLOR_RED \<and> (root_color c (up_side g) = RB_COLOR_RED \<longrightarrow> rotates c fs)"
| "rotates c _ \<longleftrightarrow> False"

lemma rotates_cong:
  assumes "\<forall>a \<in> up_nodes fs. c' a = c a"
  shows "rotates c' fs = rotates c fs"
  using assms
proof (induction c fs rule: rotates.induct)
  case (1 c f g fs)
  have "c' (up_node f) = c (up_node f)" "root_color c' (up_side g) = root_color c (up_side g)" "\<forall>a \<in> up_nodes fs. c' a = c a"
    using "1.prems" color_cong(1) [of "up_side g" c' c] by (auto simp: up_nodes_def)
  then show ?case using "1.IH" by auto
qed auto

text \<open>The nodes around a place with a parent and a grandparent.\<close>

lemma up_tree_Node: "\<exists>l r. up_tree f t = Node l (up_node f) r \<and> {l, r} = {t, up_side f}"
  by (cases f) auto

lemma set_up_tree: "set_tree (up_tree f t) = insert (up_node f) (set_tree t \<union> set_tree (up_side f))"
  by (cases f) auto

lemma up_tree_distinct:
  assumes "distinct (inorder (up_tree f t))"
  shows "up_node f \<notin> set_tree t" "up_node f \<notin> set_tree (up_side f)" "set_tree t \<inter> set_tree (up_side f) = {}"
    "distinct (inorder t)" "distinct (inorder (up_side f))"
  using assms by (cases f; auto)+

lemma tree_at_up:
  assumes "tree_at m par q (up_tree f t)"
  obtains n where "load m (up_node f) = Some n" "nd_parent n = par"
    "(case f of Left_of a s \<Rightarrow> tree_at m (up_node f) (nd_left n) t \<and> tree_at m (up_node f) (nd_right n) (up_side f)
        | Right_of s a \<Rightarrow> tree_at m (up_node f) (nd_right n) t \<and> tree_at m (up_node f) (nd_left n) (up_side f))"
  using assms by (cases f) (auto split: option.splits)

lemma tree_at_below: "tree_at m par q (up_tree f t) \<Longrightarrow> \<exists>q'. tree_at m (up_node f) q' t"
  by (erule tree_at_up) (auto split: step.splits)

lemma relatives:
  assumes at: "tree_at m NULL rt (plug (f # g # fs) (Node l x r))" and dis: "distinct (inorder (plug (f # g # fs) (Node l x r)))"
  obtains nx np ng where "load m x = Some nx" "nd_parent nx = up_node f" "load m (up_node f) = Some np" "nd_parent np = up_node g"
    "load m (up_node g) = Some ng" "uncle m x = Some (case up_side g of Leaf \<Rightarrow> NULL | Node _ u _ \<Rightarrow> u)" "grandparent m x = Some (up_node g)"
proof -
  obtain q where q: "tree_at m (above NULL fs) q (up_tree g (up_tree f (Node l x r)))"
    using tree_at_plug [of m NULL rt fs] at by auto
  have d: "distinct (inorder (up_tree g (up_tree f (Node l x r))))"
    using plug_distinct [of fs] dis by simp
  obtain q1 q2 where q12: "tree_at m (up_node g) q1 (up_tree f (Node l x r))" "tree_at m (up_node f) q2 (Node l x r)"
    using tree_at_below q by blast
  obtain nx where nx: "load m x = Some nx" "nd_parent nx = up_node f" using q12(2) by (auto split: option.splits)
  obtain np where np: "load m (up_node f) = Some np" "nd_parent np = up_node g" using q12(1) by (rule tree_at_up)
  obtain ng where ng: "load m (up_node g) = Some ng"
      "(case g of Left_of a s \<Rightarrow> tree_at m (up_node g) (nd_left ng) (up_tree f (Node l x r)) \<and> tree_at m (up_node g) (nd_right ng) (up_side g)
        | Right_of s a \<Rightarrow> tree_at m (up_node g) (nd_right ng) (up_tree f (Node l x r)) \<and> tree_at m (up_node g) (nd_left ng) (up_side g))"
    using q by (rule tree_at_up)
  have pr: "z = up_node f" if "tree_at m a z (up_tree f (Node l x r))" for a z using that by (cases f) auto
  have nz: "x \<noteq> NULL" "up_node f \<noteq> NULL" "up_node g \<noteq> NULL" using nx np ng(1) by (auto dest: load_SomeD)
  have gp: "grandparent m x = Some (up_node g)" using nx np nz by (simp add: grandparent_def)
  have nf: "up_node f \<notin> set_tree (up_side g)" using up_tree_distinct(3) [OF d] by (auto simp: set_up_tree)
  have ur: "z = (case up_side g of Leaf \<Rightarrow> NULL | Node _ u _ \<Rightarrow> u)" "z \<noteq> up_node f" if "tree_at m a z (up_side g)" for a z
    using tree_at_root [OF that] nf nz(2) by (auto split: tree.splits)
  have "uncle m x = Some (case up_side g of Leaf \<Rightarrow> NULL | Node _ u _ \<Rightarrow> u)"
  proof (cases g)
    case (Left_of a s)
    then have "nd_left ng = up_node f" "nd_right ng = (case up_side g of Leaf \<Rightarrow> NULL | Node _ u _ \<Rightarrow> u)"
      using ng(2) pr ur(1) by auto
    then show ?thesis using gp nx ng(1) nz by (simp add: uncle_def)
  next
    case (Right_of s a)
    then have "nd_left ng \<noteq> up_node f" "nd_left ng = (case up_side g of Leaf \<Rightarrow> NULL | Node _ u _ \<Rightarrow> u)"
      using ng(2) ur by auto
    then show ?thesis using gp nx ng(1) nz by (simp add: uncle_def)
  qed
  then show thesis using that nx np ng(1) gp by blast
qed

lemma parent_only:
  assumes at: "tree_at m NULL rt (plug (f # fs) (Node l x r))"
  obtains nx np where "load m x = Some nx" "nd_parent nx = up_node f" "load m (up_node f) = Some np"
proof -
  obtain q where "tree_at m (above NULL fs) q (up_tree f (Node l x r))"
    using tree_at_plug [of m NULL rt fs] at by auto
  then show thesis using that by (cases f) (auto split: option.splits)
qed

text \<open>A round with a red uncle: parent and uncle become black, the grandparent red, and case 1 goes on there.\<close>

lemma red_uncle_step:
  assumes at: "tree_at m NULL rt (plug (f # g # gs) (Node l x r))" and dis: "distinct (inorder (plug (f # g # gs) (Node l x r)))"
    and U: "up_side g = Node ul u ur" and red: "color_of m (up_node f) = RB_COLOR_RED" "color_of m u = RB_COLOR_RED"
  shows "\<exists>m3. rb_tree_insert_case1 m x = rb_tree_insert_case1 m3 (up_node g) \<and> same_shape m m3
     \<and> color_of m3 = (color_of m)(up_node f := RB_COLOR_BLACK, u := RB_COLOR_BLACK, up_node g := RB_COLOR_RED)"
proof -
  obtain nx np ng where n: "load m x = Some nx" "nd_parent nx = up_node f" "load m (up_node f) = Some np" "nd_parent np = up_node g"
      "load m (up_node g) = Some ng" "uncle m x = Some u" "grandparent m x = Some (up_node g)"
    using relatives [OF at dis] U by (metis tree.simps(5))
  have "u \<in> up_nodes (f # g # gs)" using U by (simp add: up_nodes_def)
  then have "u \<in> set_tree (plug (f # g # gs) (Node l x r))" unfolding set_plug by blast
  then obtain nu where nu: "load m u = Some nu" using tree_at_load [OF at] by blast
  have "distinct (inorder (up_tree g (up_tree f (Node l x r))))" using plug_distinct [of gs] dis by simp
  then have d: "x \<noteq> up_node f" "x \<noteq> u" "x \<noteq> up_node g" "up_node f \<noteq> u" "up_node f \<noteq> up_node g" "u \<noteq> up_node g"
    using U by (cases g; cases f; auto)+
  have nz: "x \<noteq> NULL" "up_node f \<noteq> NULL" "u \<noteq> NULL" "up_node g \<noteq> NULL" using n nu by (auto dest: load_SomeD)
  define m1 where "m1 = m(up_node f \<mapsto> np\<lparr>nd_color := RB_COLOR_BLACK\<rparr>)"
  define m2 where "m2 = m1(u \<mapsto> nu\<lparr>nd_color := RB_COLOR_BLACK\<rparr>)"
  define m3 where "m3 = m2(up_node g \<mapsto> ng\<lparr>nd_color := RB_COLOR_RED\<rparr>)"
  have l1: "load m1 u = Some nu" using nu d by (simp add: m1_def mem_simps)
  have l2: "load m2 (up_node g) = Some ng" "load m2 x = Some nx" "load m2 (up_node f) = Some (np\<lparr>nd_color := RB_COLOR_BLACK\<rparr>)"
    using n d nz by (simp_all add: m2_def m1_def mem_simps)
  note r1 = recolor [OF n(3), of RB_COLOR_BLACK, folded m1_def] and r2 = recolor [OF l1, of RB_COLOR_BLACK, folded m2_def]
    and r3 = recolor [OF l2(1), of RB_COLOR_RED, folded m3_def]
  have gp: "grandparent m2 x = Some (up_node g)" using l2 n(2,4) nz by (simp add: grandparent_def)
  have "rb_tree_insert_case3 m x = Some (m3, Some (up_node g))"
    using n nu red nz r1(1) r2(1) r3(1) gp by (simp add: rb_tree_insert_case3_def color_of_def)
  then have "rb_tree_insert_case2 m x = Some (m3, Some (up_node g))"
    using n red(1) by (simp add: rb_tree_insert_case2_def color_of_def)
  then have "rb_tree_insert_case1 m x = rb_tree_insert_case1 m3 (up_node g)"
    using n nz by (subst rb_tree_insert_case1.simps) simp
  moreover have "same_shape m m3" using r1(2) r2(2) r3(2) same_shape_trans by blast
  ultimately show ?thesis using r1(3) r2(3) r3(3) by auto
qed

text \<open>What that does to the colours of the family.\<close>

lemma recolor_family:
  fixes c :: "addr \<Rightarrow> rb_color"
  assumes dis: "distinct (inorder (plug (f # g # gs) (Node l x r)))" and U: "up_side g = Node ul u ur" "c u = RB_COLOR_RED"
    and p: "c (up_node f) = RB_COLOR_RED" and way: "way_ok c (f # g # gs)" and x: "inv_color c (Node l x r)"
  defines "c' \<equiv> c(up_node f := RB_COLOR_BLACK, u := RB_COLOR_BLACK, up_node g := RB_COLOR_RED)"
    and "t \<equiv> up_tree g (up_tree f (Node l x r))"
  shows "\<forall>a \<in> up_nodes gs. c' a = c a" "inv_color c' t" "inv_height c t \<Longrightarrow> inv_height c' t" "black_height c' t = black_height c t"
proof -
  have dt: "distinct (inorder t)" "set_tree t \<inter> up_nodes gs = {}" using plug_distinct [of gs t] dis by (simp_all add: t_def)
  have ut: "up_node f \<in> set_tree t" "u \<in> set_tree t" "up_node g \<in> set_tree t" using U(1) by (cases g; cases f; simp add: t_def)+
  then show "\<forall>a \<in> up_nodes gs. c' a = c a" using dt(2) by (auto simp: c'_def)
  have g: "c (up_node g) = RB_COLOR_BLACK" using way p by simp
  note d1 = up_tree_distinct [OF dt(1) [unfolded t_def]]
  note d2 = up_tree_distinct [OF d1(4)]
  have du: "u \<notin> set_tree ul" "u \<notin> set_tree ur" using d1(5) U(1) by auto
  have same: "\<forall>a \<in> set_tree s. c' a = c a" if "s \<in> {Node l x r, up_side f, ul, ur}" for s
  proof -
    have "{up_node f, u, up_node g} \<inter> set_tree s = {}"
      using that d1 d2 U(1) du by (auto simp: set_up_tree)
    then show ?thesis by (auto simp: c'_def)
  qed
  note cx = color_cong [OF same, of "Node l x r"] and cf = color_cong [OF same, of "up_side f"]
    and cl = color_cong [OF same, of ul] and cr = color_cong [OF same, of ur]
  have ne: "up_node f \<noteq> up_node g" "u \<noteq> up_node g" "up_node f \<noteq> u" using d1 U(1) by (auto simp: set_up_tree)
  have c': "c' (up_node f) = RB_COLOR_BLACK" "c' u = RB_COLOR_BLACK" "c' (up_node g) = RB_COLOR_RED" using ne by (auto simp: c'_def)
  have P: "inv_color c' (up_tree f (Node l x r))" "root_color c' (up_tree f (Node l x r)) = RB_COLOR_BLACK"
    "black_height c' (up_tree f (Node l x r)) = black_height c (up_tree f (Node l x r)) + 1"
    "inv_height c' (up_tree f (Node l x r)) = inv_height c (up_tree f (Node l x r))"
    using x way p c'(1) cx cf by (cases f; simp)+
  have Q: "inv_color c' (up_side g)" "root_color c' (up_side g) = RB_COLOR_BLACK" "black_height c' (up_side g) = black_height c (up_side g) + 1"
    "inv_height c' (up_side g) = inv_height c (up_side g)"
    using way U c'(2) cl cr by simp_all
  show "inv_color c' t" "inv_height c t \<Longrightarrow> inv_height c' t" "black_height c' t = black_height c t"
    using P Q c'(3) g by (cases g; simp add: t_def)+
qed

text \<open>The recolouring up to the root.\<close>

text \<open>The two ways the recolouring ends: at the root, which becomes black, and below a black node.\<close>

lemma recolor_root:
  assumes "tree_at m NULL rt (Node l x r)" "distinct (inorder (Node l x r))"
    and "inv_height (color_of m) (Node l x r)" "inv_color (color_of m) (Node l x r)"
  shows "\<exists>m'. rb_tree_insert_case1 m x = Some m' \<and> same_shape m m' \<and> rb_ok (color_of m') (Node l x r)"
proof -
  obtain nx where nx: "load m x = Some nx" "nd_parent nx = NULL" using assms(1) by (auto split: option.splits)
  let ?m = "m(x \<mapsto> nx\<lparr>nd_color := RB_COLOR_BLACK\<rparr>)"
  note rc = recolor [OF nx(1), of RB_COLOR_BLACK]
  define k where "k = color_of ?m"
  have k: "k x = RB_COLOR_BLACK" "\<forall>a \<in> set_tree l. k a = color_of m a" "\<forall>a \<in> set_tree r. k a = color_of m a"
    using assms(2) rc(3) by (auto simp: k_def)
  have "rb_ok k (Node l x r)"
    using assms(3,4) color_cong [OF k(2)] color_cong [OF k(3)] k(1) by (simp add: rb_ok_def)
  then have "rb_ok (color_of ?m) (Node l x r)" by (simp only: k_def)
  then show ?thesis using nx rc(1,2) by (subst rb_tree_insert_case1.simps) auto
qed

lemma recolor_black:
  assumes "tree_at m NULL rt (plug (f # gs) (Node l x r))" "color_of m (up_node f) = RB_COLOR_BLACK"
    and "inv_height (color_of m) (plug (f # gs) (Node l x r))" "inv_color (color_of m) (Node l x r)"
    and "way_ok (color_of m) (f # gs)" "color_of m (up_node (last (f # gs))) = RB_COLOR_BLACK"
  shows "\<exists>m'. rb_tree_insert_case1 m x = Some m' \<and> same_shape m m' \<and> rb_ok (color_of m') (plug (f # gs) (Node l x r))"
proof -
  obtain nx np where n: "load m x = Some nx" "nd_parent nx = up_node f" "load m (up_node f) = Some np"
    using parent_only assms(1) by metis
  have "rb_tree_insert_case1 m x = Some m"
    using n assms(2) by (subst rb_tree_insert_case1.simps) (auto simp: rb_tree_insert_case2_def color_of_def)
  moreover have "inv_color (color_of m) (plug (f # gs) (Node l x r))"
    unfolding inv_color_plug using assms(2,4,5) by simp
  moreover have "root_color (color_of m) (plug (f # gs) (Node l x r)) = RB_COLOR_BLACK"
    unfolding root_color_plug using assms(6) by simp
  ultimately show ?thesis using assms(3) same_shape_refl by (auto simp: rb_ok_def)
qed

lemma recolor_up:
  assumes "tree_at m NULL rt (plug fs (Node l x r))" "distinct (inorder (plug fs (Node l x r)))"
    and "color_of m x = RB_COLOR_RED" "inv_height (color_of m) (plug fs (Node l x r))" "inv_color (color_of m) (Node l x r)"
    and "way_ok (color_of m) fs" "fs \<noteq> [] \<Longrightarrow> color_of m (up_node (last fs)) = RB_COLOR_BLACK" "\<not> rotates (color_of m) fs"
  shows "\<exists>m'. rb_tree_insert_case1 m x = Some m' \<and> same_shape m m' \<and> rb_ok (color_of m') (plug fs (Node l x r))"
  using assms
proof (induction "length fs" arbitrary: fs m l x r rule: less_induct)
  case less
  consider "fs = []" | f gs where "fs = f # gs" "color_of m (up_node f) = RB_COLOR_BLACK"
    | f g gs where "fs = f # g # gs" "color_of m (up_node f) \<noteq> RB_COLOR_BLACK"
    using less.prems(7) by (cases fs; cases "tl fs"; cases "color_of m (up_node (hd fs))") auto
  then show ?case
  proof cases
    case 1
    then show ?thesis using recolor_root less.prems(1,2,4,5) by simp
  next
    case (2 f gs)
    then show ?thesis using recolor_black [of m rt f gs] less.prems(1,4-7) by blast
  next
    case (3 f g gs)
    have T: "plug fs (Node l x r) = plug gs (up_tree g (up_tree f (Node l x r)))" using 3 by simp
    obtain ul u ur where U: "up_side g = Node ul u ur" "color_of m u = RB_COLOR_RED" and nr: "\<not> rotates (color_of m) gs"
      using less.prems(8) 3 by (cases "up_side g") auto
    have red: "color_of m (up_node f) = RB_COLOR_RED" using 3 by simp
    note pre = less.prems(1,2,6) [unfolded 3(1)]
    obtain m3 where m3: "rb_tree_insert_case1 m x = rb_tree_insert_case1 m3 (up_node g)" "same_shape m m3"
        "color_of m3 = (color_of m)(up_node f := RB_COLOR_BLACK, u := RB_COLOR_BLACK, up_node g := RB_COLOR_RED)"
      using red_uncle_step [OF pre(1,2) U(1) red U(2)] by blast
    note st = recolor_family [OF pre(2) U red pre(3) less.prems(5), folded m3(3)]
    obtain L R where LR: "up_tree g (up_tree f (Node l x r)) = Node L (up_node g) R" using up_tree_Node by blast
    have "\<exists>m'. rb_tree_insert_case1 m3 (up_node g) = Some m' \<and> same_shape m3 m' \<and> rb_ok (color_of m') (plug gs (Node L (up_node g) R))"
    proof (rule less.hyps)
      show "length gs < length fs" using 3 by simp
      show "tree_at m3 NULL rt (plug gs (Node L (up_node g) R))"
        using less.prems(1) T LR tree_at_colors [OF m3(2)] by simp
      show "distinct (inorder (plug gs (Node L (up_node g) R)))" using less.prems(2) T LR by simp
      show "color_of m3 (up_node g) = RB_COLOR_RED" using m3(3) by simp
      show "inv_height (color_of m3) (plug gs (Node L (up_node g) R))"
        using inv_height_plug [OF _ st(1,3,4)] less.prems(4) T LR by simp
      show "inv_color (color_of m3) (Node L (up_node g) R)" using st(2) LR by simp
      show "way_ok (color_of m3) gs" using pre(3) way_ok_cong [OF st(1)] by simp
      show "\<not> rotates (color_of m3) gs" using nr rotates_cong [OF st(1)] by simp
      show "color_of m3 (up_node (last gs)) = RB_COLOR_BLACK" if "gs \<noteq> []"
        using st(1) less.prems(7) 3 that last_in_set [OF that] by (auto simp: up_nodes_def)
    qed
    then show ?thesis using m3(1) same_shape_trans [OF m3(2)] T LR by auto
  qed
qed

section \<open>Insertion without rotation\<close>

text \<open>The way from the place of the new node to the root, put before \<open>acc\<close>.\<close>

fun ins_way :: "(addr \<Rightarrow> bool) \<Rightarrow> addr tree \<Rightarrow> step list \<Rightarrow> step list" where
  "ins_way lt Leaf acc = acc"
| "ins_way lt (Node l a r) acc = (if lt a then ins_way lt l (Left_of a r # acc) else ins_way lt r (Right_of l a # acc))"

lemma ins_way_plug:
  "plug acc (tree_ins lt x T) = plug (ins_way lt T acc) (Node Leaf x Leaf)" "plug acc T = plug (ins_way lt T acc) Leaf"
proof -
  show "plug acc (tree_ins lt x T) = plug (ins_way lt T acc) (Node Leaf x Leaf)"
  proof (induction T arbitrary: acc)
    case (Node l a r)
    show ?case using Node(1) [of "Left_of a r # acc"] Node(2) [of "Right_of l a # acc"] by simp
  qed simp
  show "plug acc T = plug (ins_way lt T acc) Leaf"
  proof (induction T arbitrary: acc)
    case (Node l a r)
    show ?case using Node(1) [of "Left_of a r # acc"] Node(2) [of "Right_of l a # acc"] by simp
  qed simp
qed

lemma tree_ins_mset: "mset (inorder (tree_ins lt x T)) = add_mset x (mset (inorder T))"
  by (induction T) auto

text \<open>A red leaf in place of an empty tree: everything is in order except possibly at its parent.\<close>

lemma red_leaf:
  assumes T: "rb_ok c (plug fs Leaf)" and p: "c' p = RB_COLOR_RED" and same: "\<forall>a \<in> up_nodes fs. c' a = c a"
  shows "inv_height c' (plug fs (Node Leaf p Leaf))" "way_ok c' fs" "fs \<noteq> [] \<Longrightarrow> c' (up_node (last fs)) = RB_COLOR_BLACK"
    "rotates c' fs = rotates c fs"
proof -
  show "inv_height c' (plug fs (Node Leaf p Leaf))"
    by (rule inv_height_plug [where t = Leaf and c = c]) (use T p same in \<open>auto simp: rb_ok_def\<close>)
  show "way_ok c' fs"
    using T way_ok_cong [OF same] by (simp add: rb_ok_def inv_color_plug)
  show "rotates c' fs = rotates c fs" by (rule rotates_cong [OF same])
  assume "fs \<noteq> []"
  then show "c' (up_node (last fs)) = RB_COLOR_BLACK"
    using T same last_in_set [of fs] by (auto simp: rb_ok_def root_color_plug up_nodes_def)
qed

text \<open>A red node \<open>x\<close> below the way \<open>fs\<close>, with everything in order except that its parent may be red, too.\<close>

definition pending :: "(addr \<Rightarrow> rb_color) \<Rightarrow> step list \<Rightarrow> addr \<Rightarrow> addr tree \<Rightarrow> bool" where
  "pending c fs x t \<longleftrightarrow> c x = RB_COLOR_RED \<and> inv_height c (plug fs t) \<and> inv_color c t \<and> way_ok c fs
     \<and> (fs \<noteq> [] \<longrightarrow> c (up_node (last fs)) = RB_COLOR_BLACK)"

text \<open>The state between the insertion into the search tree and the rebalancing.\<close>

lemma insert_pending:
  assumes "tree_at m NULL (tr_root t) T" "distinct (inorder T)" "p \<notin> set_tree T" "p \<noteq> NULL" "alloc_ok dm key_len val val_len"
    and "\<forall>a \<in> set_tree T. \<exists>i. key_compare (tr_ops t) dm \<lparr>rk_len = key_len, rk_data = key\<rparr> (node_key m a) = Some i"
    and ok: "rb_ok (color_of m) T"
  defines "fs \<equiv> ins_way (new_key_lt (tr_ops t) dm m \<lparr>rk_len = key_len, rk_data = key\<rparr>) T []"
  obtains t' m1 where "bst_insert p dm t key key_len val val_len (Some NULL) m = Some (1, t', Some p, m1)"
    "tree_at m1 NULL (tr_root t') (plug fs (Node Leaf p Leaf))" "distinct (inorder (plug fs (Node Leaf p Leaf)))"
    "pending (color_of m1) fs p (Node Leaf p Leaf)" "\<forall>a \<in> up_nodes fs. color_of m1 a = color_of m a"
    "tree_ins (new_key_lt (tr_ops t) dm m \<lparr>rk_len = key_len, rk_data = key\<rparr>) p T = plug fs (Node Leaf p Leaf)"
proof -
  let ?lt = "new_key_lt (tr_ops t) dm m \<lparr>rk_len = key_len, rk_data = key\<rparr>"
  obtain t' m1 where b: "bst_insert p dm t key key_len val val_len (Some NULL) m = Some (1, t', Some p, m1)"
      "tree_at m1 NULL (tr_root t') (tree_ins ?lt p T)" "inserted_node m p T key key_len val val_len m1"
    using bst_insert_refines [OF assms(1-6), of NULL] by blast
  have T1: "tree_ins ?lt p T = plug fs (Node Leaf p Leaf)" and T0: "T = plug fs Leaf"
    using ins_way_plug [of "[]"] by (simp_all add: fs_def)
  have cp: "color_of m1 p = RB_COLOR_RED"
    using b(3) by (auto simp: inserted_node_def new_leaf_def color_of_def)
  have same: "\<forall>a \<in> up_nodes fs. color_of m1 a = color_of m a"
  proof
    fix a assume "a \<in> up_nodes fs"
    then have "a \<in> set_tree T" using T0 set_plug [of fs Leaf] by auto
    then show "color_of m1 a = color_of m a"
      using b(3) by (fastforce simp: inserted_node_def same_data_def color_of_def)
  qed
  have "mset (inorder (plug fs (Node Leaf p Leaf))) = mset (p # inorder T)" using tree_ins_mset [of ?lt p T] T1 by simp
  then have "distinct (inorder (plug fs (Node Leaf p Leaf)))" using assms(2,3) mset_eq_imp_distinct_iff by fastforce
  moreover have "pending (color_of m1) fs p (Node Leaf p Leaf)"
    using red_leaf [OF ok [unfolded T0] cp same] cp by (simp add: pending_def)
  ultimately show thesis using that b(1,2) T1 same by simp
qed

text \<open>
  C31: \<^verbatim>\<open>_rb_tree_insert\<close> keeps a red-black tree as long as no rotation is needed. If on the way from the new node to
  the root the parent is black, or parent and uncle are red and the same holds from the grandparent on, the insertion ends and returns \<open>1\<close>;
  the new tree is the old one with the new node as \<open>tree_ins\<close> puts it, all pointers right, no red node has a red child, all paths
  have the same number of black nodes and the root is black.
\<close>

theorem rb_tree_insert_recolors:
  assumes "tree_at m NULL (tr_root t) T" "distinct (inorder T)" "p \<notin> set_tree T" "p \<noteq> NULL" "alloc_ok dm key_len val val_len"
    and "\<forall>a \<in> set_tree T. \<exists>i. key_compare (tr_ops t) dm \<lparr>rk_len = key_len, rk_data = key\<rparr> (node_key m a) = Some i"
    and "rb_ok (color_of m) T" "\<not> rotates (color_of m) (ins_way (new_key_lt (tr_ops t) dm m \<lparr>rk_len = key_len, rk_data = key\<rparr>) T [])"
  shows "\<exists>t' m'. rb_tree_insert_impl p dm t key key_len val val_len m = Some (1, t', m')
     \<and> tree_at m' NULL (tr_root t') (tree_ins (new_key_lt (tr_ops t) dm m \<lparr>rk_len = key_len, rk_data = key\<rparr>) p T)
     \<and> rb_ok (color_of m') (tree_ins (new_key_lt (tr_ops t) dm m \<lparr>rk_len = key_len, rk_data = key\<rparr>) p T)"
proof -
  let ?lt = "new_key_lt (tr_ops t) dm m \<lparr>rk_len = key_len, rk_data = key\<rparr>"
  define fs where "fs = ins_way ?lt T []"
  obtain t' m1 where b: "bst_insert p dm t key key_len val val_len (Some NULL) m = Some (1, t', Some p, m1)"
      "tree_at m1 NULL (tr_root t') (plug fs (Node Leaf p Leaf))" "distinct (inorder (plug fs (Node Leaf p Leaf)))"
      "pending (color_of m1) fs p (Node Leaf p Leaf)" "\<forall>a \<in> up_nodes fs. color_of m1 a = color_of m a"
      "tree_ins ?lt p T = plug fs (Node Leaf p Leaf)"
    using insert_pending [OF assms(1-7)] unfolding fs_def by blast
  have "\<not> rotates (color_of m1) fs" using assms(8) rotates_cong [OF b(5)] by (simp add: fs_def)
  then obtain m' where m': "rb_tree_insert_case1 m1 p = Some m'" "same_shape m1 m'" "rb_ok (color_of m') (plug fs (Node Leaf p Leaf))"
    using recolor_up [OF b(2,3)] b(4) unfolding pending_def by blast
  then have "tree_at m' NULL (tr_root t') (plug fs (Node Leaf p Leaf))" using b(2) tree_at_colors by blast
  moreover have "rb_tree_insert_impl p dm t key key_len val val_len m = Some (1, t', m')"
    using b(1) m'(1) by (simp add: rb_tree_insert_impl_def)
  ultimately show ?thesis using m'(3) b(6) by auto
qed

definition example_blocks_a :: dmem where
  "example_blocks_a = example_blocks(300 \<mapsto> [97])"

lemma example_rb_cmp_a:
  "key_compare (tr_ops example_rb_tree) example_blocks_a \<lparr>rk_len = 1, rk_data = 300\<rparr> (node_key example_nodes 10) = Some (-1)"
  "key_compare (tr_ops example_rb_tree) example_blocks_a \<lparr>rk_len = 1, rk_data = 300\<rparr> (node_key example_nodes 20) = Some (-3)"
  by (simp_all add: example_rb_tree_def example_blocks_a_def example_blocks_def example_nodes_def node_key_def load_def default_tree_ops_def
      default_comp_def memcmp_def)

theorem rb_tree_insert_recolors_witness:
  "\<exists>t' m'. rb_tree_insert_impl 30 example_blocks_a example_rb_tree 300 1 301 2 example_nodes = Some (1, t', m')
     \<and> tree_at m' NULL (tr_root t') (Node (Node Leaf 30 Leaf) 10 (Node Leaf 20 Leaf))
     \<and> rb_ok (color_of m') (Node (Node Leaf 30 Leaf) 10 (Node Leaf 20 Leaf))"
proof -
  let ?T = "Node Leaf 10 (Node Leaf 20 Leaf) :: addr tree"
  have lt: "new_key_lt (tr_ops example_rb_tree) example_blocks_a example_nodes \<lparr>rk_len = 1, rk_data = 300\<rparr> 10"
    by (simp add: new_key_lt_def key_lt_def example_rb_cmp_a)
  have "\<forall>a \<in> set_tree ?T. \<exists>i. key_compare (tr_ops example_rb_tree) example_blocks_a \<lparr>rk_len = 1, rk_data = 300\<rparr> (node_key example_nodes a) = Some i"
    by (simp add: example_rb_cmp_a)
  moreover have "alloc_ok example_blocks_a 1 301 2" by (simp add: alloc_ok_def RB_NODE_SIZE_def)
  moreover have "rb_ok (color_of example_nodes) ?T"
    by (simp add: rb_ok_def color_of_def example_nodes_def load_def)
  ultimately show ?thesis
    using rb_tree_insert_recolors [OF example_rb_at example_rb_ok(2,3)] lt by fastforce
qed

end
