(* ===== verification/Ckit_Rbrotate.thy ===== *)
theory Ckit_Rbrotate
  imports Ckit_Rbcolor
begin

text \<open>
  The rotations of \<^verbatim>\<open>src/rbtree.c\<close>: what an insertion does that comes to cases 4 and 5.

  Case 5 links the rotated subtree to the left of the node above when the rotation is to the right, and to the right of it
  when the rotation is to the left, without looking where the subtree hung. So the rotation is right if the grandparent hangs on
  the same side as the parent does, loses a subtree if it hangs on the other side, and faults if the grandparent is the root.
  No rotation updates the parent of the subtree that moves from one node to another.
\<close>

section \<open>Trees with stale parent pointers\<close>

text \<open>Left and right pointers form the tree, and the parent pointers are right for all nodes that are not in \<open>X\<close>.\<close>

fun tree_but :: "nmem \<Rightarrow> addr set \<Rightarrow> addr \<Rightarrow> addr \<Rightarrow> addr tree \<Rightarrow> bool" where
  "tree_but m X par p Leaf \<longleftrightarrow> p = NULL"
| "tree_but m X par p (Node l a r) \<longleftrightarrow> p = a \<and> (case load m a of None \<Rightarrow> False
     | Some n \<Rightarrow> (a \<notin> X \<longrightarrow> nd_parent n = par) \<and> tree_but m X a (nd_left n) l \<and> tree_but m X a (nd_right n) r)"

lemma tree_but_empty: "tree_but m {} par p T = tree_at m par p T"
  by (induction T arbitrary: par p) (auto split: option.splits)

lemma tree_but_to: "tree_but m X par p T \<Longrightarrow> tree_to m p T NULL"
  by (induction T arbitrary: par p) (auto split: option.splits)

lemma tree_but_mono: "tree_but m X par p T \<Longrightarrow> X \<subseteq> Y \<Longrightarrow> tree_but m Y par p T"
  by (induction T arbitrary: par p) (auto split: option.splits)


lemma tree_at_but: "tree_at m par p T \<Longrightarrow> tree_but m X par p T"
  using tree_but_mono [of m "{}"] by (simp add: tree_but_empty)

lemma tree_but_frame: "\<forall>a \<in> set_tree T. load m' a = load m a \<Longrightarrow> tree_but m' X par p T = tree_but m X par p T"
  by (induction T arbitrary: par p) (auto split: option.splits)

text \<open>The root of a tree, and a tree that hangs below another node than its root says.\<close>

fun root_of :: "addr tree \<Rightarrow> addr set" where
  "root_of Leaf = {}"
| "root_of (Node l a r) = {a}"

lemma tree_but_moved:
  assumes "tree_at m q p T" "\<forall>a \<in> set_tree T. load m' a = load m a" "root_of T \<subseteq> X"
  shows "tree_but m' X par p T"
proof (cases T)
  case (Node l a r)
  then obtain n where n: "p = a" "load m a = Some n" "tree_at m a (nd_left n) l" "tree_at m a (nd_right n) r"
    using assms(1) by (auto split: option.splits)
  then show ?thesis
    using assms(2,3) Node tree_at_but [OF n(3), of X] tree_at_but [OF n(4), of X] tree_but_frame [of _ m' m X] by simp
qed (use assms(1) in simp)

text \<open>Putting another tree into a place of a tree.\<close>

lemma plug_replace:
  assumes "tree_at m par0 rt (plug hs u)" "\<forall>a \<in> up_nodes hs. load m' a = load m a"
    and "\<And>par q. tree_at m par q u \<Longrightarrow> tree_but m' X par q u'"
  shows "tree_but m' X par0 rt (plug hs u')"
  using assms
proof (induction hs arbitrary: u u')
  case (Cons h hs)
  have fr: "load m' (up_node h) = load m (up_node h)" "\<forall>a \<in> set_tree (up_side h). load m' a = load m a" "\<forall>a \<in> up_nodes hs. load m' a = load m a"
    using Cons.prems(2) by (auto simp: up_nodes_def)
  have side: "tree_but m' X par q (up_side h)" if "tree_at m par q (up_side h)" for par q
    using tree_at_but [OF that] tree_but_frame [OF fr(2)] by simp
  show ?case
    unfolding plug.simps
  proof (rule Cons.IH [OF _ fr(3)])
    show "tree_at m par0 rt (plug hs (up_tree h u))" using Cons.prems(1) by simp
    show "tree_but m' X par q (up_tree h u')" if "tree_at m par q (up_tree h u)" for par q
      using that fr(1) side Cons.prems(3) by (cases h) (auto split: option.splits)
  qed
qed simp

section \<open>Where the rotation takes place\<close>

text \<open>The way that is left when the recolouring stops at a black uncle, and the tree below it.\<close>

fun rot_at :: "(addr \<Rightarrow> rb_color) \<Rightarrow> step list \<Rightarrow> addr tree \<Rightarrow> (step list \<times> addr tree) option" where
  "rot_at c (f # g # fs) t =
     (if c (up_node f) = RB_COLOR_BLACK then None
      else if root_color c (up_side g) = RB_COLOR_RED then rot_at c fs (up_tree g (up_tree f t))
      else Some (f # g # fs, t))"
| "rot_at c _ t = None"

lemma rot_at_cong:
  assumes "\<forall>a \<in> up_nodes fs. c' a = c a"
  shows "rot_at c' fs t = rot_at c fs t"
  using assms
proof (induction c fs t rule: rot_at.induct)
  case (1 c f g fs t)
  have "c' (up_node f) = c (up_node f)" "root_color c' (up_side g) = root_color c (up_side g)" "\<forall>a \<in> up_nodes fs. c' a = c a"
    using "1.prems" color_cong(1) [of "up_side g" c' c] by (auto simp: up_nodes_def)
  then show ?case using "1.IH" by simp
qed auto

lemma rotates_rot_at: "rotates c fs \<longleftrightarrow> rot_at c fs t \<noteq> None"
  by (induction c fs t rule: rot_at.induct) auto

text \<open>The tree after the rotation. Case 5 alone when the node and its parent hang on the same side, cases 4 and 5 otherwise.\<close>

fun rotated :: "step \<Rightarrow> step \<Rightarrow> addr tree \<Rightarrow> addr tree" where
  "rotated (Left_of p s) (Left_of g u) t = Node t p (Node s g u)"
| "rotated (Right_of s p) (Right_of u g) t = Node (Node u g s) p t"
| "rotated (Right_of s p) (Left_of g u) (Node l x r) = Node (Node s p l) x (Node r g u)"
| "rotated (Left_of p s) (Right_of u g) (Node l x r) = Node (Node u g l) x (Node r p s)"
| "rotated f g Leaf = Leaf"

text \<open>The roots of the subtrees that get another parent.\<close>

fun moved :: "step \<Rightarrow> step \<Rightarrow> addr tree \<Rightarrow> addr set" where
  "moved (Left_of p s) (Left_of g u) t = root_of s"
| "moved (Right_of s p) (Right_of u g) t = root_of s"
| "moved f g t = (case t of Leaf \<Rightarrow> {} | Node l x r \<Rightarrow> root_of l \<union> root_of r)"

text \<open>The node that is on top afterwards.\<close>

fun top_node :: "step \<Rightarrow> step \<Rightarrow> addr \<Rightarrow> addr" where
  "top_node (Left_of p s) (Left_of g u) x = p"
| "top_node (Right_of s p) (Right_of u g) x = p"
| "top_node f g x = x"

fun same_side :: "step \<Rightarrow> step \<Rightarrow> bool" where
  "same_side (Left_of a s) (Left_of b u) \<longleftrightarrow> True"
| "same_side (Right_of s a) (Right_of u b) \<longleftrightarrow> True"
| "same_side _ _ \<longleftrightarrow> False"

text \<open>What hangs below the node above when the rotated tree is put on the wrong side of it.\<close>

fun crossed :: "step \<Rightarrow> addr tree \<Rightarrow> addr tree" where
  "crossed (Right_of s a) (Node l b r) = Node (Node l b r) a r"
| "crossed (Left_of a s) (Node l b r) = Node l a (Node l b r)"
| "crossed h Leaf = Leaf"

lemma inorder_rotated: "inorder (rotated f g (Node l x r)) = inorder (up_tree g (up_tree f (Node l x r)))"
  by (cases f; cases g) auto

lemma inorder_plug: "inorder t' = inorder t \<Longrightarrow> inorder (plug fs t') = inorder (plug fs t)"
proof (induction fs arbitrary: t t')
  case (Cons f fs)
  show ?case using Cons.prems by (cases f) (auto intro: Cons.IH)
qed simp

section \<open>The rotations\<close>

fun link :: "step \<Rightarrow> addr \<Rightarrow> rb_node \<Rightarrow> rb_node" where
  "link (Left_of a s) q n = n\<lparr>nd_left := q\<rparr>"
| "link (Right_of s a) q n = n\<lparr>nd_right := q\<rparr>"

lemma case5_run:
  assumes "load m x = Some nx" "load m p = Some np" "load m g = Some ng" "load m h = Some nh" "distinct [x, p, g, h]"
    and "nd_parent nx = p" "nd_parent np = g" "nd_parent ng = h"
  shows "nd_left np = x \<Longrightarrow> nd_left ng = p \<Longrightarrow> rb_tree_insert_case5 m x = Some (m(h \<mapsto> nh\<lparr>nd_left := p\<rparr>,
       p \<mapsto> np\<lparr>nd_color := RB_COLOR_BLACK, nd_parent := h, nd_right := g\<rparr>,
       g \<mapsto> ng\<lparr>nd_color := RB_COLOR_RED, nd_parent := p, nd_left := nd_right np\<rparr>))"
    "nd_left np \<noteq> x \<Longrightarrow> nd_right ng = p \<Longrightarrow> rb_tree_insert_case5 m x = Some (m(h \<mapsto> nh\<lparr>nd_right := p\<rparr>,
       p \<mapsto> np\<lparr>nd_color := RB_COLOR_BLACK, nd_parent := h, nd_left := g\<rparr>,
       g \<mapsto> ng\<lparr>nd_color := RB_COLOR_RED, nd_parent := p, nd_right := nd_left np\<rparr>))"
proof -
  have nz: "x \<noteq> NULL" "p \<noteq> NULL" "g \<noteq> NULL" "h \<noteq> NULL" using assms(1-4) by (auto dest: load_SomeD)
  let ?m = "m(p \<mapsto> np\<lparr>nd_color := RB_COLOR_BLACK\<rparr>, g \<mapsto> ng\<lparr>nd_color := RB_COLOR_RED\<rparr>)"
  have gp: "grandparent m x = Some g" using assms nz by (simp add: grandparent_def)
  have c5: "rb_tree_insert_case5 m x = (if nd_left np = x then rb_tree_rotate_left_side_right ?m g else rb_tree_rotate_right_side_left ?m g)"
    using assms gp nz by (simp add: rb_tree_insert_case5_def mem_simps)
  have l: "load ?m g = Some (ng\<lparr>nd_color := RB_COLOR_RED\<rparr>)" "load ?m p = Some (np\<lparr>nd_color := RB_COLOR_BLACK\<rparr>)" "load ?m h = Some nh"
    using assms nz by (simp_all add: mem_simps)
  show "rb_tree_insert_case5 m x = Some (m(h \<mapsto> nh\<lparr>nd_left := p\<rparr>,
       p \<mapsto> np\<lparr>nd_color := RB_COLOR_BLACK, nd_parent := h, nd_right := g\<rparr>,
       g \<mapsto> ng\<lparr>nd_color := RB_COLOR_RED, nd_parent := p, nd_left := nd_right np\<rparr>))" if "nd_left np = x" "nd_left ng = p"
    using that c5 l assms(5,8) nz
    by (simp add: rb_tree_rotate_left_side_right_def mem_simps fun_eq_iff)
  show "rb_tree_insert_case5 m x = Some (m(h \<mapsto> nh\<lparr>nd_right := p\<rparr>,
       p \<mapsto> np\<lparr>nd_color := RB_COLOR_BLACK, nd_parent := h, nd_left := g\<rparr>,
       g \<mapsto> ng\<lparr>nd_color := RB_COLOR_RED, nd_parent := p, nd_right := nd_left np\<rparr>))" if "nd_left np \<noteq> x" "nd_right ng = p"
    using that c5 l assms(5,8) nz
    by (simp add: rb_tree_rotate_right_side_left_def mem_simps fun_eq_iff)
qed

text \<open>Case 4 turns an inner node outwards and goes on with its former parent.\<close>

lemma case4_run:
  assumes "load m x = Some nx" "load m p = Some np" "load m g = Some ng" "distinct [x, p, g]" "nd_parent nx = p" "nd_parent np = g"
  shows "nd_left np = x \<Longrightarrow> nd_right np \<noteq> x \<Longrightarrow> nd_right ng \<noteq> p \<Longrightarrow> rb_tree_insert_case4 m x = rb_tree_insert_case5 m x"
    "nd_left np \<noteq> x \<Longrightarrow> nd_left ng \<noteq> p \<Longrightarrow> rb_tree_insert_case4 m x = rb_tree_insert_case5 m x"
    "nd_right np = x \<Longrightarrow> nd_left ng = p \<Longrightarrow> rb_tree_insert_case4 m x = rb_tree_insert_case5 (m(g \<mapsto> ng\<lparr>nd_left := x\<rparr>,
       x \<mapsto> nx\<lparr>nd_parent := g, nd_left := p\<rparr>, p \<mapsto> np\<lparr>nd_parent := x, nd_right := nd_left nx\<rparr>)) p"
    "nd_left np = x \<Longrightarrow> nd_right np \<noteq> x \<Longrightarrow> nd_right ng = p \<Longrightarrow> rb_tree_insert_case4 m x = rb_tree_insert_case5 (m(g \<mapsto> ng\<lparr>nd_right := x\<rparr>,
       x \<mapsto> nx\<lparr>nd_parent := g, nd_right := p\<rparr>, p \<mapsto> np\<lparr>nd_parent := x, nd_left := nd_right nx\<rparr>)) p"
proof -
  have nz: "x \<noteq> NULL" "p \<noteq> NULL" "g \<noteq> NULL" using assms(1-3) by (auto dest: load_SomeD)
  have gp: "grandparent m x = Some g" using assms nz by (simp add: grandparent_def)
  show "rb_tree_insert_case4 m x = rb_tree_insert_case5 m x" if "nd_left np = x" "nd_right np \<noteq> x" "nd_right ng \<noteq> p"
    using that assms nz gp by (simp add: rb_tree_insert_case4_def)
  show "rb_tree_insert_case4 m x = rb_tree_insert_case5 m x" if "nd_left np \<noteq> x" "nd_left ng \<noteq> p"
    using that assms nz gp by (auto simp: rb_tree_insert_case4_def)
  show "rb_tree_insert_case4 m x = rb_tree_insert_case5 (m(g \<mapsto> ng\<lparr>nd_left := x\<rparr>,
       x \<mapsto> nx\<lparr>nd_parent := g, nd_left := p\<rparr>, p \<mapsto> np\<lparr>nd_parent := x, nd_right := nd_left nx\<rparr>)) p" (is "_ = rb_tree_insert_case5 ?m p")
    if "nd_right np = x" "nd_left ng = p"
  proof -
    have "rb_tree_rotate_left_side_left m p = Some ?m"
      using that assms nz by (simp add: rb_tree_rotate_left_side_left_def mem_simps fun_upd_twist)
    moreover have "load ?m x = Some (nx\<lparr>nd_parent := g, nd_left := p\<rparr>)" using assms(4) nz by (simp add: mem_simps)
    ultimately show ?thesis using that assms nz gp by (simp add: rb_tree_insert_case4_def)
  qed
  show "rb_tree_insert_case4 m x = rb_tree_insert_case5 (m(g \<mapsto> ng\<lparr>nd_right := x\<rparr>,
       x \<mapsto> nx\<lparr>nd_parent := g, nd_right := p\<rparr>, p \<mapsto> np\<lparr>nd_parent := x, nd_left := nd_right nx\<rparr>)) p" (is "_ = rb_tree_insert_case5 ?m p")
    if "nd_left np = x" "nd_right np \<noteq> x" "nd_right ng = p"
  proof -
    have "rb_tree_rotate_right_side_right m p = Some ?m"
      using that assms nz by (simp add: rb_tree_rotate_right_side_right_def mem_simps fun_upd_twist)
    moreover have "load ?m x = Some (nx\<lparr>nd_parent := g, nd_right := p\<rparr>)" using assms(4) nz by (simp add: mem_simps)
    ultimately show ?thesis using that assms nz gp by (simp add: rb_tree_insert_case4_def)
  qed
qed

lemma tree_but_kept:
  assumes "tree_at m par p T" "\<forall>a \<in> set_tree T. load m' a = load m a"
  shows "tree_but m' X par p T"
  using tree_at_but [OF assms(1)] tree_but_frame [OF assms(2)] by simp

text \<open>
  The outcome of a rotation below the node \<open>h\<close>: only the four nodes change, the top node is black and the grandparent red, the top node is
  linked from \<open>h\<close> on the side that the direction of the rotation gives, and the tree below it is the rotated one.
\<close>

definition rotation_done :: "nmem \<Rightarrow> step \<Rightarrow> step \<Rightarrow> addr \<Rightarrow> addr \<Rightarrow> addr tree \<Rightarrow> nmem \<Rightarrow> bool" where
  "rotation_done m f g h x t m' \<longleftrightarrow>
     (\<forall>a. a \<notin> {x, up_node f, up_node g, h} \<longrightarrow> load m' a = load m a)
     \<and> (\<forall>a. color_of m' a = (if a = top_node f g x then RB_COLOR_BLACK else if a = up_node g then RB_COLOR_RED else color_of m a))
     \<and> load m' h = map_option (link g (top_node f g x)) (load m h)
     \<and> tree_but m' (moved f g t) h (top_node f g x) (rotated f g t)"

lemma rotate_right_outer:
  assumes at: "tree_at m h q (Node (Node (Node l x r) p s) g u)" and dis: "distinct (h # inorder (Node (Node (Node l x r) p s) g u))"
    and h: "load m h = Some nh"
  shows "\<exists>m'. rb_tree_insert_case4 m x = Some m' \<and> rotation_done m (Left_of p s) (Left_of g u) h x (Node l x r) m'"
proof -
  obtain nx np ng where n: "load m x = Some nx" "load m p = Some np" "load m g = Some ng" "nd_parent nx = p" "nd_parent np = g" "nd_parent ng = h"
      "nd_left np = x" "nd_left ng = p" and t: "tree_at m p x (Node l x r)" "tree_at m p (nd_right np) s" "tree_at m g (nd_right ng) u"
    using at by (auto split: option.splits)
  have d: "distinct [x, p, g, h]" using dis by auto
  have nz: "x \<noteq> NULL" "p \<noteq> NULL" "g \<noteq> NULL" "h \<noteq> NULL" using n(1-3) h by (auto dest: load_SomeD)
  have "nd_right np \<noteq> x" "nd_right ng \<noteq> p"
    using tree_at_root [OF t(2)] tree_at_root [OF t(3)] dis nz by (auto split: tree.splits)
  then have run: "rb_tree_insert_case4 m x = rb_tree_insert_case5 m x" using case4_run(1) [OF n(1-3) _ n(4,5)] d n(7) by simp
  let ?m = "m(h \<mapsto> nh\<lparr>nd_left := p\<rparr>, p \<mapsto> np\<lparr>nd_color := RB_COLOR_BLACK, nd_parent := h, nd_right := g\<rparr>,
       g \<mapsto> ng\<lparr>nd_color := RB_COLOR_RED, nd_parent := p, nd_left := nd_right np\<rparr>)"
  have c5: "rb_tree_insert_case5 m x = Some ?m" by (rule case5_run(1) [OF n(1-3) h d n(4-8)])
  have l: "load ?m g = Some (ng\<lparr>nd_color := RB_COLOR_RED, nd_parent := p, nd_left := nd_right np\<rparr>)"
    "load ?m p = Some (np\<lparr>nd_color := RB_COLOR_BLACK, nd_parent := h, nd_right := g\<rparr>)" "load ?m h = Some (nh\<lparr>nd_left := p\<rparr>)"
    "\<And>a. a \<notin> {p, g, h} \<Longrightarrow> load ?m a = load m a"
    using d nz by (auto simp: mem_simps)
  define m' where "m' = ?m"
  note l = l [folded m'_def]
  have fr: "\<forall>a \<in> set_tree S. load m' a = load m a" if "S \<in> {Node l x r, s, u}" for S
    using that dis by (intro ballI l(4)) auto
  have "tree_but m' (root_of s) p x (Node l x r)" "tree_but m' (root_of s) g (nd_right np) s" "tree_but m' (root_of s) g (nd_right ng) u"
    by (rule tree_but_kept [OF t(1) fr] tree_but_moved [OF t(2) fr] tree_but_kept [OF t(3) fr]; simp)+
  then have "tree_but m' (root_of s) h p (Node (Node l x r) p (Node s g u))"
    using n(7) l(1,2) by simp
  moreover have "color_of m' a = (if a = p then RB_COLOR_BLACK else if a = g then RB_COLOR_RED else color_of m a)" for a
    using l h d by (cases "a \<in> {p, g, h}") (auto simp: color_of_def)
  ultimately have "rotation_done m (Left_of p s) (Left_of g u) h x (Node l x r) m'"
    using l(3,4) h by (auto simp: rotation_done_def)
  then show ?thesis using run c5 by (auto simp: m'_def)
qed

lemma rotate_left_outer:
  assumes at: "tree_at m h q (Node u g (Node s p (Node l x r)))" and dis: "distinct (h # inorder (Node u g (Node s p (Node l x r))))"
    and h: "load m h = Some nh"
  shows "\<exists>m'. rb_tree_insert_case4 m x = Some m' \<and> rotation_done m (Right_of s p) (Right_of u g) h x (Node l x r) m'"
proof -
  obtain nx np ng where n: "load m x = Some nx" "load m p = Some np" "load m g = Some ng" "nd_parent nx = p" "nd_parent np = g" "nd_parent ng = h"
      "nd_right np = x" "nd_right ng = p" and t: "tree_at m p x (Node l x r)" "tree_at m p (nd_left np) s" "tree_at m g (nd_left ng) u"
    using at by (auto split: option.splits)
  have d: "distinct [x, p, g, h]" using dis by auto
  have nz: "x \<noteq> NULL" "p \<noteq> NULL" "g \<noteq> NULL" "h \<noteq> NULL" using n(1-3) h by (auto dest: load_SomeD)
  have ne: "nd_left np \<noteq> x" "nd_left ng \<noteq> p"
    using tree_at_root [OF t(2)] tree_at_root [OF t(3)] dis nz by (auto split: tree.splits)
  then have run: "rb_tree_insert_case4 m x = rb_tree_insert_case5 m x" using case4_run(2) [OF n(1-3) _ n(4,5)] d by simp
  let ?m = "m(h \<mapsto> nh\<lparr>nd_right := p\<rparr>, p \<mapsto> np\<lparr>nd_color := RB_COLOR_BLACK, nd_parent := h, nd_left := g\<rparr>,
       g \<mapsto> ng\<lparr>nd_color := RB_COLOR_RED, nd_parent := p, nd_right := nd_left np\<rparr>)"
  have c5: "rb_tree_insert_case5 m x = Some ?m" by (rule case5_run(2) [OF n(1-3) h d n(4-6) ne(1) n(8)])
  have l: "load ?m g = Some (ng\<lparr>nd_color := RB_COLOR_RED, nd_parent := p, nd_right := nd_left np\<rparr>)"
    "load ?m p = Some (np\<lparr>nd_color := RB_COLOR_BLACK, nd_parent := h, nd_left := g\<rparr>)" "load ?m h = Some (nh\<lparr>nd_right := p\<rparr>)"
    "\<And>a. a \<notin> {p, g, h} \<Longrightarrow> load ?m a = load m a"
    using d nz by (auto simp: mem_simps)
  define m' where "m' = ?m"
  note l = l [folded m'_def]
  have fr: "\<forall>a \<in> set_tree S. load m' a = load m a" if "S \<in> {Node l x r, s, u}" for S
    using that dis by (intro ballI l(4)) auto
  have "tree_but m' (root_of s) p x (Node l x r)" "tree_but m' (root_of s) g (nd_left np) s" "tree_but m' (root_of s) g (nd_left ng) u"
    by (rule tree_but_kept [OF t(1) fr] tree_but_moved [OF t(2) fr] tree_but_kept [OF t(3) fr]; simp)+
  then have "tree_but m' (root_of s) h p (Node (Node u g s) p (Node l x r))"
    using n(7) l(1,2) by simp
  moreover have "color_of m' a = (if a = p then RB_COLOR_BLACK else if a = g then RB_COLOR_RED else color_of m a)" for a
    using l h d by (cases "a \<in> {p, g, h}") (auto simp: color_of_def)
  ultimately have "rotation_done m (Right_of s p) (Right_of u g) h x (Node l x r) m'"
    using l(3,4) h by (auto simp: rotation_done_def)
  then show ?thesis using run c5 by (auto simp: m'_def)
qed

lemma rotate_right_inner:
  assumes at: "tree_at m h q (Node (Node s p (Node l x r)) g u)" and dis: "distinct (h # inorder (Node (Node s p (Node l x r)) g u))"
    and h: "load m h = Some nh"
  shows "\<exists>m'. rb_tree_insert_case4 m x = Some m' \<and> rotation_done m (Right_of s p) (Left_of g u) h x (Node l x r) m'"
proof -
  obtain nx np ng where n: "load m x = Some nx" "load m p = Some np" "load m g = Some ng" "nd_parent nx = p" "nd_parent np = g" "nd_parent ng = h"
      "nd_right np = x" "nd_left ng = p"
    and t: "tree_at m x (nd_left nx) l" "tree_at m x (nd_right nx) r" "tree_at m p (nd_left np) s" "tree_at m g (nd_right ng) u"
    using at by (auto split: option.splits)
  have d: "distinct [x, p, g, h]" using dis by auto
  have nz: "x \<noteq> NULL" "p \<noteq> NULL" "g \<noteq> NULL" "h \<noteq> NULL" using n(1-3) h by (auto dest: load_SomeD)
  let ?m1 = "m(g \<mapsto> ng\<lparr>nd_left := x\<rparr>, x \<mapsto> nx\<lparr>nd_parent := g, nd_left := p\<rparr>, p \<mapsto> np\<lparr>nd_parent := x, nd_right := nd_left nx\<rparr>)"
  have run: "rb_tree_insert_case4 m x = rb_tree_insert_case5 ?m1 p"
    using case4_run(3) [OF n(1-3) _ n(4,5)] d n(7,8) by simp
  have l1: "load ?m1 p = Some (np\<lparr>nd_parent := x, nd_right := nd_left nx\<rparr>)" "load ?m1 x = Some (nx\<lparr>nd_parent := g, nd_left := p\<rparr>)"
      "load ?m1 g = Some (ng\<lparr>nd_left := x\<rparr>)" "load ?m1 h = Some nh" using d nz h by (simp_all add: mem_simps)
  let ?m = "?m1(h \<mapsto> nh\<lparr>nd_left := x\<rparr>, x \<mapsto> nx\<lparr>nd_left := p, nd_color := RB_COLOR_BLACK, nd_parent := h, nd_right := g\<rparr>,
       g \<mapsto> ng\<lparr>nd_color := RB_COLOR_RED, nd_parent := x, nd_left := nd_right nx\<rparr>)"
  have c5: "rb_tree_insert_case5 ?m1 p = Some ?m"
    using case5_run(1) [OF l1] d n(6) by simp
  have l: "load ?m g = Some (ng\<lparr>nd_color := RB_COLOR_RED, nd_parent := x, nd_left := nd_right nx\<rparr>)"
    "load ?m x = Some (nx\<lparr>nd_left := p, nd_color := RB_COLOR_BLACK, nd_parent := h, nd_right := g\<rparr>)" "load ?m h = Some (nh\<lparr>nd_left := x\<rparr>)"
    "load ?m p = Some (np\<lparr>nd_parent := x, nd_right := nd_left nx\<rparr>)"
    "\<And>a. a \<notin> {x, p, g, h} \<Longrightarrow> load ?m a = load m a"
    using d nz by (auto simp: mem_simps)
  define m' where "m' = ?m"
  note l = l [folded m'_def]
  have fr: "\<forall>a \<in> set_tree S. load m' a = load m a" if "S \<in> {l, r, s, u}" for S
    using that dis by (intro ballI l(5)) auto
  let ?X = "root_of l \<union> root_of r"
  have "tree_but m' ?X p (nd_left nx) l" "tree_but m' ?X g (nd_right nx) r" "tree_but m' ?X p (nd_left np) s" "tree_but m' ?X g (nd_right ng) u"
    by (rule tree_but_moved [OF t(1) fr] tree_but_moved [OF t(2) fr] tree_but_kept [OF t(3) fr] tree_but_kept [OF t(4) fr]; simp)+
  then have "tree_but m' ?X h x (Node (Node s p l) x (Node r g u))"
    using l(1,2,4) by simp
  moreover have "color_of m' a = (if a = x then RB_COLOR_BLACK else if a = g then RB_COLOR_RED else color_of m a)" for a
    using l h d n(2) by (cases "a \<in> {x, p, g, h}") (auto simp: color_of_def)
  ultimately have "rotation_done m (Right_of s p) (Left_of g u) h x (Node l x r) m'"
    using l(3,5) h by (auto simp: rotation_done_def)
  then show ?thesis using run c5 by (auto simp: m'_def)
qed

lemma rotate_left_inner:
  assumes at: "tree_at m h q (Node u g (Node (Node l x r) p s))" and dis: "distinct (h # inorder (Node u g (Node (Node l x r) p s)))"
    and h: "load m h = Some nh"
  shows "\<exists>m'. rb_tree_insert_case4 m x = Some m' \<and> rotation_done m (Left_of p s) (Right_of u g) h x (Node l x r) m'"
proof -
  obtain nx np ng where n: "load m x = Some nx" "load m p = Some np" "load m g = Some ng" "nd_parent nx = p" "nd_parent np = g" "nd_parent ng = h"
      "nd_left np = x" "nd_right ng = p"
    and t: "tree_at m x (nd_left nx) l" "tree_at m x (nd_right nx) r" "tree_at m p (nd_right np) s" "tree_at m g (nd_left ng) u"
    using at by (auto split: option.splits)
  have d: "distinct [x, p, g, h]" using dis by auto
  have nz: "x \<noteq> NULL" "p \<noteq> NULL" "g \<noteq> NULL" "h \<noteq> NULL" using n(1-3) h by (auto dest: load_SomeD)
  have ne: "nd_right np \<noteq> x" "nd_right nx \<noteq> p"
    using tree_at_root [OF t(3)] tree_at_root [OF t(2)] dis nz by (auto split: tree.splits)
  let ?m1 = "m(g \<mapsto> ng\<lparr>nd_right := x\<rparr>, x \<mapsto> nx\<lparr>nd_parent := g, nd_right := p\<rparr>, p \<mapsto> np\<lparr>nd_parent := x, nd_left := nd_right nx\<rparr>)"
  have run: "rb_tree_insert_case4 m x = rb_tree_insert_case5 ?m1 p"
    using case4_run(4) [OF n(1-3) _ n(4,5)] d n(7,8) ne by simp
  have l1: "load ?m1 p = Some (np\<lparr>nd_parent := x, nd_left := nd_right nx\<rparr>)" "load ?m1 x = Some (nx\<lparr>nd_parent := g, nd_right := p\<rparr>)"
      "load ?m1 g = Some (ng\<lparr>nd_right := x\<rparr>)" "load ?m1 h = Some nh" using d nz h by (simp_all add: mem_simps)
  have nl: "nd_left nx \<noteq> p" using tree_at_root [OF t(1)] dis nz by (auto split: tree.splits)
  let ?m = "?m1(h \<mapsto> nh\<lparr>nd_right := x\<rparr>, x \<mapsto> nx\<lparr>nd_right := p, nd_color := RB_COLOR_BLACK, nd_parent := h, nd_left := g\<rparr>,
       g \<mapsto> ng\<lparr>nd_color := RB_COLOR_RED, nd_parent := x, nd_right := nd_left nx\<rparr>)"
  have c5: "rb_tree_insert_case5 ?m1 p = Some ?m"
    using case5_run(2) [OF l1] d n(6) nl by simp
  have l: "load ?m g = Some (ng\<lparr>nd_color := RB_COLOR_RED, nd_parent := x, nd_right := nd_left nx\<rparr>)"
    "load ?m x = Some (nx\<lparr>nd_right := p, nd_color := RB_COLOR_BLACK, nd_parent := h, nd_left := g\<rparr>)" "load ?m h = Some (nh\<lparr>nd_right := x\<rparr>)"
    "load ?m p = Some (np\<lparr>nd_parent := x, nd_left := nd_right nx\<rparr>)"
    "\<And>a. a \<notin> {x, p, g, h} \<Longrightarrow> load ?m a = load m a"
    using d nz by (auto simp: mem_simps)
  define m' where "m' = ?m"
  note l = l [folded m'_def]
  have fr: "\<forall>a \<in> set_tree S. load m' a = load m a" if "S \<in> {l, r, s, u}" for S
    using that dis by (intro ballI l(5)) auto
  let ?X = "root_of l \<union> root_of r"
  have "tree_but m' ?X g (nd_left nx) l" "tree_but m' ?X p (nd_right nx) r" "tree_but m' ?X p (nd_right np) s" "tree_but m' ?X g (nd_left ng) u"
    by (rule tree_but_moved [OF t(1) fr] tree_but_moved [OF t(2) fr] tree_but_kept [OF t(3) fr] tree_but_kept [OF t(4) fr]; simp)+
  then have "tree_but m' ?X h x (Node (Node u g l) x (Node r p s))"
    using l(1,2,4) by simp
  moreover have "color_of m' a = (if a = x then RB_COLOR_BLACK else if a = g then RB_COLOR_RED else color_of m a)" for a
    using l h d n(2) by (cases "a \<in> {x, p, g, h}") (auto simp: color_of_def)
  ultimately have "rotation_done m (Left_of p s) (Right_of u g) h x (Node l x r) m'"
    using l(3,5) h by (auto simp: rotation_done_def)
  then show ?thesis using run c5 by (auto simp: m'_def)
qed

lemma rotation_run:
  assumes "tree_at m h q (up_tree g (up_tree f (Node l x r)))" "distinct (h # inorder (up_tree g (up_tree f (Node l x r))))" "load m h = Some nh"
  shows "\<exists>m'. rb_tree_insert_case4 m x = Some m' \<and> rotation_done m f g h x (Node l x r) m'"
  using assms rotate_right_outer rotate_left_outer rotate_right_inner rotate_left_inner by (cases f; cases g) simp_all

text \<open>The colours of the rotated tree.\<close>

lemma rotated_colors:
  fixes c :: "addr \<Rightarrow> rb_color"
  assumes dis: "distinct (inorder (up_tree g (up_tree f (Node l x r))))" and way: "way_ok c (f # g # gs)"
    and red: "c (up_node f) = RB_COLOR_RED" "c x = RB_COLOR_RED" and u: "root_color c (up_side g) = RB_COLOR_BLACK"
    and t: "inv_color c (Node l x r)"
    and c': "\<And>a. c' a = (if a = top_node f g x then RB_COLOR_BLACK else if a = up_node g then RB_COLOR_RED else c a)"
  defines "R \<equiv> rotated f g (Node l x r)" and "S \<equiv> up_tree g (up_tree f (Node l x r))"
  shows "inv_color c' R" "inv_height c S \<Longrightarrow> inv_height c' R" "black_height c' R = black_height c S" "root_color c' R = RB_COLOR_BLACK"
proof -
  have g: "c (up_node g) = RB_COLOR_BLACK" and s: "root_color c (up_side f) = RB_COLOR_BLACK" "inv_color c (up_side f)" "inv_color c (up_side g)"
    using way red by auto
  note d1 = up_tree_distinct [OF dis]
  note d2 = up_tree_distinct [OF d1(4)]
  have top: "top_node f g x \<in> {x, up_node f}" by (cases f; cases g; simp)
  have same: "\<forall>a \<in> set_tree V. c' a = c a" if "V \<in> {l, r, up_side f, up_side g}" for V
  proof
    fix a assume "a \<in> set_tree V"
    then have "a \<notin> {x, up_node f, up_node g}" using that d1 d2 by (auto simp: set_up_tree)
    then show "c' a = c a" using top c' [of a] by auto
  qed
  have "\<forall>a \<in> set_tree l. c' a = c a" "\<forall>a \<in> set_tree r. c' a = c a" "\<forall>a \<in> set_tree (up_side f). c' a = c a" "\<forall>a \<in> set_tree (up_side g). c' a = c a"
    by (rule same; simp)+
  note cl = color_cong [OF this(1)] and cr = color_cong [OF this(2)] and cs = color_cong [OF this(3)] and cu = color_cong [OF this(4)]
  have ne: "x \<noteq> up_node f" "x \<noteq> up_node g" "up_node f \<noteq> up_node g" using d1(1) d2(1) by (auto simp: set_up_tree)
  have x: "root_color c l = RB_COLOR_BLACK" "root_color c r = RB_COLOR_BLACK" "inv_color c l" "inv_color c r" using t red(2) by simp_all
  have tn: "top_node f g x = (if same_side f g then up_node f else x)" by (cases f; cases g; simp)
  have v: "c' (up_node g) = RB_COLOR_RED" "same_side f g \<Longrightarrow> c' (up_node f) = RB_COLOR_BLACK" "same_side f g \<Longrightarrow> c' x = RB_COLOR_RED"
      "\<not> same_side f g \<Longrightarrow> c' (up_node f) = RB_COLOR_RED" "\<not> same_side f g \<Longrightarrow> c' x = RB_COLOR_BLACK"
    using c' [of "up_node g"] c' [of "up_node f"] c' [of x] ne red top tn by auto
  show "root_color c' R = RB_COLOR_BLACK"
    using v by (cases f; cases g) (simp_all add: R_def)
  show "inv_color c' R"
    using cl(1,4) cr(1,4) cs(1,4) cu(1,4) s u x v by (cases f; cases g) (simp_all add: R_def)
  show "black_height c' R = black_height c S"
    using cl(2) cr(2) cs(2) cu(2) g v red by (cases f; cases g) (simp_all add: R_def S_def)
  show "inv_height c' R" if "inv_height c S"
    using that cl(2,3) cr(2,3) cs(2,3) cu(2,3) g v red by (cases f; cases g) (simp_all add: R_def S_def)
qed

text \<open>The rotated tree in its place, or across from it.\<close>

lemma tree_but_UNIV: "tree_but m X par p T \<Longrightarrow> tree_but m UNIV par' p T"
  by (induction T arbitrary: par par' p) (auto split: option.splits)

lemma place_beside:
  assumes rd: "rotation_done m f g (up_node h) x t m'" and side: "same_side g h"
    and fr: "\<forall>a \<in> set_tree (up_side h). load m' a = load m a" and at: "tree_at m par q (up_tree h S)"
  shows "tree_but m' (moved f g t) par q (up_tree h (rotated f g t))"
proof -
  obtain nh where nh: "load m (up_node h) = Some nh" "nd_parent nh = par" "q = up_node h" using at by (cases h) (auto split: option.splits)
  have d: "load m' (up_node h) = Some (link g (top_node f g x) nh)" "tree_but m' (moved f g t) (up_node h) (top_node f g x) (rotated f g t)"
    using rd nh(1) by (auto simp: rotation_done_def)
  have "tree_but m' (moved f g t) (up_node h) z (up_side h)" if "tree_at m (up_node h) z (up_side h)" for z
    using tree_but_kept [OF that fr] .
  then show ?thesis using d nh side at by (cases h; cases g) auto
qed

lemma place_across:
  assumes rd: "rotation_done m f g (up_node h) x (Node l x r) m'" and side: "\<not> same_side g h"
    and at: "tree_at m par q (up_tree h (up_tree g (up_tree f (Node l x r))))"
  shows "tree_but m' UNIV par q (crossed h (rotated f g (Node l x r)))"
proof -
  obtain nh where nh: "load m (up_node h) = Some nh" "q = up_node h" "nd_left nh = up_node g \<or> nd_right nh = up_node g"
      "(case h of Left_of a s \<Rightarrow> nd_left nh | Right_of s a \<Rightarrow> nd_right nh) = up_node g"
    using at by (cases h; cases g) (auto split: option.splits)
  have d: "load m' (up_node h) = Some (link g (top_node f g x) nh)"
    "tree_but m' UNIV (up_node h) (top_node f g x) (rotated f g (Node l x r))"
    using rd nh(1) tree_but_UNIV by (auto simp: rotation_done_def)
  show ?thesis using d nh side tree_but_UNIV [of m' UNIV]
    by (cases h; cases g; cases f) (auto split: option.splits)
qed

lemma rotation_placed:
  assumes at: "tree_at m NULL rt (plug (f # g # h # hs) (Node l x r))" and dis: "distinct (inorder (plug (f # g # h # hs) (Node l x r)))"
    and rd: "rotation_done m f g (up_node h) x (Node l x r) m'"
  shows "same_side g h \<Longrightarrow> tree_but m' (moved f g (Node l x r)) NULL rt (plug (h # hs) (rotated f g (Node l x r)))"
    "\<not> same_side g h \<Longrightarrow> tree_but m' UNIV NULL rt (plug hs (crossed h (rotated f g (Node l x r))))"
    "\<forall>a \<in> up_nodes (h # hs). color_of m' a = color_of m a"
proof -
  let ?S = "up_tree g (up_tree f (Node l x r))"
  have at': "tree_at m NULL rt (plug hs (up_tree h ?S))" using at by simp
  have d: "distinct (inorder (up_tree h ?S))" "set_tree (up_tree h ?S) \<inter> up_nodes hs = {}"
    using plug_distinct [of hs "up_tree h ?S"] dis by simp_all
  have S: "{x, up_node f, up_node g} \<subseteq> set_tree ?S" by (simp add: set_up_tree)
  have out: "{x, up_node f, up_node g, up_node h} \<inter> up_nodes hs = {}" "{x, up_node f, up_node g, up_node h} \<inter> set_tree (up_side h) = {}"
    using d(2) S up_tree_distinct [OF d(1)] by (auto simp: set_up_tree)
  have fr: "\<forall>a \<in> up_nodes hs. load m' a = load m a" "\<forall>a \<in> set_tree (up_side h). load m' a = load m a"
    using rd out unfolding rotation_done_def by (metis IntI empty_iff)+
  show "tree_but m' (moved f g (Node l x r)) NULL rt (plug (h # hs) (rotated f g (Node l x r)))" if "same_side g h"
    unfolding plug.simps by (rule plug_replace [OF at' fr(1)]) (rule place_beside [OF rd that fr(2)])
  show "tree_but m' UNIV NULL rt (plug hs (crossed h (rotated f g (Node l x r))))" if "\<not> same_side g h"
    by (rule plug_replace [OF at' fr(1)]) (rule place_across [OF rd that])
  have top: "top_node f g x \<in> set_tree ?S" "up_node g \<in> set_tree ?S" using S by (cases f; cases g; auto)+
  moreover have "set_tree ?S \<inter> up_nodes (h # hs) = {}"
    using up_tree_distinct [OF d(1)] d(2) by (auto simp: up_nodes_def set_up_tree)
  ultimately show "\<forall>a \<in> up_nodes (h # hs). color_of m' a = color_of m a"
    using rd by (auto simp: rotation_done_def)
qed

section \<open>Coming to a rotation\<close>

lemma black_uncle_step:
  assumes at: "tree_at m NULL rt (plug (f # g # gs) (Node l x r))" and dis: "distinct (inorder (plug (f # g # gs) (Node l x r)))"
    and red: "color_of m (up_node f) = RB_COLOR_RED" and u: "root_color (color_of m) (up_side g) = RB_COLOR_BLACK"
  shows "rb_tree_insert_case1 m x = rb_tree_insert_case4 m x"
proof -
  let ?u = "case up_side g of Leaf \<Rightarrow> NULL | Node _ u _ \<Rightarrow> u"
  obtain nx np ng where n: "load m x = Some nx" "nd_parent nx = up_node f" "load m (up_node f) = Some np" "uncle m x = Some ?u"
    using relatives [OF at dis] by metis
  have "load m ?u \<noteq> None" if "up_side g \<noteq> Leaf"
  proof -
    have "?u \<in> set_tree (plug (f # g # gs) (Node l x r))"
      unfolding set_plug using that by (cases "up_side g") (auto simp: up_nodes_def)
    then show ?thesis using tree_at_load [OF at] by auto
  qed
  then have "rb_tree_insert_case3 m x = do { m \<leftarrow> rb_tree_insert_case4 m x; Some (m, None) }"
    using n(4) u by (cases "up_side g") (auto simp: rb_tree_insert_case3_def color_of_def)
  then have "rb_tree_insert_case2 m x = do { m \<leftarrow> rb_tree_insert_case4 m x; Some (m, None) }"
    using n red by (simp add: rb_tree_insert_case2_def color_of_def)
  moreover have "up_node f \<noteq> NULL" using n(3) by (auto dest: load_SomeD)
  ultimately show ?thesis
    using n by (subst rb_tree_insert_case1.simps) (cases "rb_tree_insert_case4 m x"; simp)
qed

lemma rotation_reached:
  assumes "tree_at m NULL rt (plug fs (Node l x r))" "distinct (inorder (plug fs (Node l x r)))" "pending (color_of m) fs x (Node l x r)"
    and "rot_at (color_of m) fs (Node l x r) = Some (f # g # gs, Node l' x' r')"
  shows "plug (f # g # gs) (Node l' x' r') = plug fs (Node l x r)
     \<and> (\<exists>m'. rb_tree_insert_case1 m x = rb_tree_insert_case4 m' x' \<and> same_shape m m' \<and> pending (color_of m') (f # g # gs) x' (Node l' x' r')
          \<and> color_of m' (up_node f) = RB_COLOR_RED \<and> root_color (color_of m') (up_side g) = RB_COLOR_BLACK)"
  using assms
proof (induction "length fs" arbitrary: fs m l x r rule: less_induct)
  case less
  obtain a b bs where fs: "fs = a # b # bs" and red: "color_of m (up_node a) = RB_COLOR_RED"
    using less.prems(4) by (cases "(color_of m, fs, Node l x r)" rule: rot_at.cases) (auto split: if_splits)
  note pre = less.prems(1-3) [unfolded fs]
  show ?case
  proof (cases "root_color (color_of m) (up_side b) = RB_COLOR_RED")
    case False
    then have "Node l' x' r' = Node l x r" "[f, g] @ gs = fs" using less.prems(4) fs red by auto
    then show ?thesis using less.prems(3) black_uncle_step [OF pre(1,2) red] False red fs same_shape_refl by auto
  next
    case True
    then obtain ul u ur where U: "up_side b = Node ul u ur" "color_of m u = RB_COLOR_RED" by (cases "up_side b") auto
    have pd: "inv_color (color_of m) (Node l x r)" "way_ok (color_of m) (a # b # bs)" using pre(3) by (auto simp: pending_def)
    obtain m3 where m3: "rb_tree_insert_case1 m x = rb_tree_insert_case1 m3 (up_node b)" "same_shape m m3"
        "color_of m3 = (color_of m)(up_node a := RB_COLOR_BLACK, u := RB_COLOR_BLACK, up_node b := RB_COLOR_RED)"
      using red_uncle_step [OF pre(1,2) U(1) red U(2)] by blast
    note st = recolor_family [OF pre(2) U red pd(2,1), folded m3(3)]
    obtain L R where LR: "up_tree b (up_tree a (Node l x r)) = Node L (up_node b) R" using up_tree_Node by blast
    have T: "plug fs (Node l x r) = plug bs (Node L (up_node b) R)" using fs LR by simp
    have "pending (color_of m3) bs (up_node b) (Node L (up_node b) R)"
      unfolding pending_def
    proof (intro conjI impI)
      show "color_of m3 (up_node b) = RB_COLOR_RED" using m3(3) by simp
      show "inv_height (color_of m3) (plug bs (Node L (up_node b) R))"
        using inv_height_plug [OF _ st(1,3,4)] pre(3) LR by (simp add: pending_def)
      show "inv_color (color_of m3) (Node L (up_node b) R)" using st(2) LR by simp
      show "way_ok (color_of m3) bs" using pd(2) way_ok_cong [OF st(1)] by simp
      show "color_of m3 (up_node (last bs)) = RB_COLOR_BLACK" if "bs \<noteq> []"
        using st(1) pre(3) that last_in_set [OF that] by (auto simp: up_nodes_def pending_def)
    qed
    moreover have "rot_at (color_of m3) bs (Node L (up_node b) R) = Some (f # g # gs, Node l' x' r')"
      using rot_at_cong [OF st(1)] less.prems(4) fs True red LR by simp
    moreover have "tree_at m3 NULL rt (plug bs (Node L (up_node b) R))" using less.prems(1) T tree_at_colors [OF m3(2)] by simp
    ultimately show ?thesis
      using less.hyps [of bs m3 L "up_node b" R] less.prems(2) fs T m3(1) same_shape_trans [OF m3(2)] by auto
  qed
qed

section \<open>Insertions with a rotation\<close>

lemma inv_height_sub: "inv_height c (plug fs t) \<Longrightarrow> inv_height c t"
proof (induction fs arbitrary: t)
  case (Cons f fs)
  then have "inv_height c (up_tree f t)" by simp
  then show ?case by (cases f) auto
qed simp

text \<open>At the new node itself no subtree is left that could get a stale parent.\<close>

lemma moved_new_leaf:
  assumes "pending c (f # g # gs) x (Node Leaf x Leaf)" "c (up_node f) = RB_COLOR_RED"
  shows "moved f g (Node Leaf x Leaf) = {}"
proof -
  have "inv_height c (up_tree f (Node Leaf x Leaf))" using assms(1) inv_height_sub [of c "g # gs"] by (simp add: pending_def)
  then have "black_height c (up_side f) = 0" using assms(1) by (cases f) (simp_all add: pending_def)
  moreover have "root_color c (up_side f) = RB_COLOR_BLACK" using assms by (simp add: pending_def)
  ultimately have "up_side f = Leaf" by (cases "up_side f") auto
  then show ?thesis by (cases f; cases g) auto
qed

section \<open>Rotating at the root\<close>

lemma rotate_at_root:
  assumes "load m g = Some n" "nd_parent n = NULL"
  shows "nd_left n \<noteq> NULL \<Longrightarrow> rb_tree_rotate_left_side_right m g = None"
    "nd_right n \<noteq> NULL \<Longrightarrow> rb_tree_rotate_right_side_left m g = None"
  using assms by (auto simp: rb_tree_rotate_left_side_right_def rb_tree_rotate_right_side_left_def upd_node_def dest: load_SomeD)

text \<open>A node \<open>x\<close>, its parent \<open>p\<close> and the root \<open>g\<close>.\<close>

definition three_nodes :: "nmem \<Rightarrow> addr \<Rightarrow> addr \<Rightarrow> addr \<Rightarrow> bool" where
  "three_nodes m x p g \<longleftrightarrow> distinct [x, p, g] \<and> (\<exists>nx np ng. load m x = Some nx \<and> load m p = Some np \<and> load m g = Some ng
     \<and> nd_parent nx = p \<and> nd_parent np = g \<and> nd_parent ng = NULL
     \<and> (nd_left np = x \<longleftrightarrow> nd_right np \<noteq> x) \<and> (nd_left ng = p \<longleftrightarrow> nd_right ng \<noteq> p) \<and> nd_left nx \<noteq> p)"

lemma case5_at_root:
  assumes "load m x = Some nx" "load m p = Some np" "load m g = Some ng" "distinct [x, p, g]"
    "nd_parent nx = p" "nd_parent np = g" "nd_parent ng = NULL"
    "if nd_left np = x then nd_left ng = p else nd_right ng = p"
  shows "rb_tree_insert_case5 m x = None"
proof -
  have nz: "x \<noteq> NULL" "p \<noteq> NULL" "g \<noteq> NULL" using assms(1-3) by (auto dest: load_SomeD)
  let ?m = "m(p \<mapsto> np\<lparr>nd_color := RB_COLOR_BLACK\<rparr>, g \<mapsto> ng\<lparr>nd_color := RB_COLOR_RED\<rparr>)"
  have "load ?m g = Some (ng\<lparr>nd_color := RB_COLOR_RED\<rparr>)" using nz by (simp add: mem_simps)
  note r = rotate_at_root [OF this]
  have "rb_tree_insert_case5 m x = (if nd_left np = x then rb_tree_rotate_left_side_right ?m g else rb_tree_rotate_right_side_left ?m g)"
    using assms nz by (simp add: rb_tree_insert_case5_def grandparent_def mem_simps)
  then show ?thesis using r assms(7,8) nz by (auto split: if_splits)
qed

lemma case4_at_root:
  assumes "three_nodes m x p g"
  shows "rb_tree_insert_case4 m x = None"
proof -
  obtain nx np ng where n: "load m x = Some nx" "load m p = Some np" "load m g = Some ng" "distinct [x, p, g]"
      "nd_parent nx = p" "nd_parent np = g" "nd_parent ng = NULL"
      "nd_left np = x \<longleftrightarrow> nd_right np \<noteq> x" "nd_left ng = p \<longleftrightarrow> nd_right ng \<noteq> p" "nd_left nx \<noteq> p"
    using assms unfolding three_nodes_def by blast
  have nz: "x \<noteq> NULL" "p \<noteq> NULL" "g \<noteq> NULL" using n(1-3) by (auto dest: load_SomeD)
  have gp: "grandparent m x = Some g" using n nz by (simp add: grandparent_def)
  consider "nd_left np = x \<longleftrightarrow> nd_left ng = p" | "nd_right np = x" "nd_left ng = p" | "nd_left np = x" "nd_right ng = p"
    using n(8,9) by blast
  then show ?thesis
  proof cases
    case 1
    then have "rb_tree_insert_case4 m x = rb_tree_insert_case5 m x"
      using n nz gp by (auto simp: rb_tree_insert_case4_def)
    moreover have "rb_tree_insert_case5 m x = None"
      by (rule case5_at_root [OF n(1-7)]) (use 1 n(8,9) in auto)
    ultimately show ?thesis by simp
  next
    case 2
    let ?m = "m(g \<mapsto> ng\<lparr>nd_left := x\<rparr>, x \<mapsto> nx\<lparr>nd_parent := g, nd_left := p\<rparr>, p \<mapsto> np\<lparr>nd_parent := x, nd_right := nd_left nx\<rparr>)"
    have "rb_tree_rotate_left_side_left m p = Some ?m"
      using 2 n(1-7) nz by (simp add: rb_tree_rotate_left_side_left_def mem_simps fun_upd_twist)
    moreover have l: "load ?m p = Some (np\<lparr>nd_parent := x, nd_right := nd_left nx\<rparr>)" "load ?m x = Some (nx\<lparr>nd_parent := g, nd_left := p\<rparr>)"
        "load ?m g = Some (ng\<lparr>nd_left := x\<rparr>)"
      using n(4) nz by (simp_all add: mem_simps)
    ultimately have "rb_tree_insert_case4 m x = rb_tree_insert_case5 ?m p"
      using 2 n(1-6) nz gp by (simp add: rb_tree_insert_case4_def)
    moreover have "rb_tree_insert_case5 ?m p = None"
      by (rule case5_at_root [OF l]) (use n(4,7) in auto)
    ultimately show ?thesis by simp
  next
    case 3
    then have nl: "nd_right np \<noteq> x" "nd_left ng \<noteq> p" using n(8,9) by auto
    let ?m = "m(g \<mapsto> ng\<lparr>nd_right := x\<rparr>, x \<mapsto> nx\<lparr>nd_parent := g, nd_right := p\<rparr>, p \<mapsto> np\<lparr>nd_parent := x, nd_left := nd_right nx\<rparr>)"
    have "rb_tree_rotate_right_side_right m p = Some ?m"
      using 3 n(1-7) nz by (simp add: rb_tree_rotate_right_side_right_def mem_simps fun_upd_twist)
    moreover have l: "load ?m p = Some (np\<lparr>nd_parent := x, nd_left := nd_right nx\<rparr>)" "load ?m x = Some (nx\<lparr>nd_parent := g, nd_right := p\<rparr>)"
        "load ?m g = Some (ng\<lparr>nd_right := x\<rparr>)"
      using n(4) nz by (simp_all add: mem_simps)
    ultimately have "rb_tree_insert_case4 m x = rb_tree_insert_case5 ?m p"
      using 3 nl n(1-6) nz gp by (simp add: rb_tree_insert_case4_def)
    moreover have "rb_tree_insert_case5 ?m p = None"
      by (rule case5_at_root [OF l]) (use n(4,7,10) in auto)
    ultimately show ?thesis by simp
  qed
qed

lemma three_nodes_at:
  assumes "tree_at m NULL rt (up_tree g (up_tree f (Node l x r)))" "distinct (inorder (up_tree g (up_tree f (Node l x r))))"
  shows "three_nodes m x (up_node f) (up_node g)"
proof -
  obtain ng where ng: "load m (up_node g) = Some ng" "nd_parent ng = NULL"
      "(case g of Left_of a s \<Rightarrow> tree_at m (up_node g) (nd_left ng) (up_tree f (Node l x r)) \<and> tree_at m (up_node g) (nd_right ng) (up_side g)
        | Right_of s a \<Rightarrow> tree_at m (up_node g) (nd_right ng) (up_tree f (Node l x r)) \<and> tree_at m (up_node g) (nd_left ng) (up_side g))"
    using assms(1) by (rule tree_at_up)
  obtain q1 q2 where q: "tree_at m (up_node g) q1 (up_tree f (Node l x r))" "tree_at m (up_node f) q2 (Node l x r)"
    using tree_at_below assms(1) by blast
  obtain np where np: "load m (up_node f) = Some np" "nd_parent np = up_node g"
      "(case f of Left_of a s \<Rightarrow> tree_at m (up_node f) (nd_left np) (Node l x r) \<and> tree_at m (up_node f) (nd_right np) (up_side f)
        | Right_of s a \<Rightarrow> tree_at m (up_node f) (nd_right np) (Node l x r) \<and> tree_at m (up_node f) (nd_left np) (up_side f))"
    using q(1) by (rule tree_at_up)
  obtain nx where nx: "load m x = Some nx" "nd_parent nx = up_node f" "tree_at m x (nd_left nx) l"
    using q(2) unfolding tree_at_Node by blast
  have pr: "z = up_node f" if "tree_at m a z (up_tree f (Node l x r))" for a z using that by (cases f) auto
  note d1 = up_tree_distinct [OF assms(2)]
  note d2 = up_tree_distinct [OF d1(4)]
  have nz: "x \<noteq> NULL" "up_node f \<noteq> NULL" using nx(1) np(1) by (auto dest: load_SomeD)
  have root: "q \<noteq> a" if "tree_at m b q S" "a \<notin> set_tree S" "a \<noteq> NULL" for b q a S
    using tree_at_root [OF that(1)] that(2,3) by (auto split: tree.splits)
  have "distinct [x, up_node f, up_node g]" using d1(1) d2(1) by (auto simp: set_up_tree)
  moreover have "nd_left nx \<noteq> up_node f" using root [OF nx(3) _ nz(2)] d2(1) by simp
  moreover have "nd_left np = x \<longleftrightarrow> nd_right np \<noteq> x"
    using np(3) root [of _ _ "up_side f" x] nz(1) d2(3) by (cases f) auto
  moreover have "nd_left ng = up_node f \<longleftrightarrow> nd_right ng \<noteq> up_node f"
    using ng(3) pr root [of _ _ "up_side g" "up_node f"] nz(2) d1(3) by (cases g) (auto simp: set_up_tree)
  ultimately show ?thesis using nx(1,2) np(1,2) ng(1,2) unfolding three_nodes_def by blast
qed

lemma set_crossed: "set_tree (crossed h R) \<subseteq> insert (up_node h) (set_tree R)"
  by (cases h; cases R) auto

lemma set_rotated: "set_tree (rotated f g (Node l x r)) = set_tree (up_tree g (up_tree f (Node l x r)))"
  by (metis inorder_rotated set_inorder)

text \<open>The rotation, with its place and its colours.\<close>

lemma rotation_step:
  assumes at: "tree_at m NULL rt (plug (f # g # h # hs) (Node l x r))" and dis: "distinct (inorder (plug (f # g # h # hs) (Node l x r)))"
    and pd: "pending (color_of m) (f # g # h # hs) x (Node l x r)"
    and red: "color_of m (up_node f) = RB_COLOR_RED" "root_color (color_of m) (up_side g) = RB_COLOR_BLACK"
  obtains m' where "rb_tree_insert_case4 m x = Some m'"
    "same_side g h \<Longrightarrow> tree_but m' (moved f g (Node l x r)) NULL rt (plug (h # hs) (rotated f g (Node l x r)))"
    "\<not> same_side g h \<Longrightarrow> tree_but m' UNIV NULL rt (plug hs (crossed h (rotated f g (Node l x r))))"
    "rb_ok (color_of m') (plug (h # hs) (rotated f g (Node l x r)))"
proof -
  let ?S = "up_tree g (up_tree f (Node l x r))" and ?R = "rotated f g (Node l x r)"
  obtain q where q: "tree_at m (up_node h) q ?S" using tree_at_plug [of m NULL rt "h # hs" ?S] at by auto
  have d: "distinct (inorder ?S)" "set_tree ?S \<inter> up_nodes (h # hs) = {}" using plug_distinct [of "h # hs" ?S] dis by simp_all
  then have dh: "distinct (up_node h # inorder ?S)" by (auto simp: up_nodes_def)
  obtain nh where nh: "load m (up_node h) = Some nh"
    using tree_at_load [OF at, of "up_node h"] by (auto simp: set_plug up_nodes_def set_up_tree)
  obtain m' where m': "rb_tree_insert_case4 m x = Some m'" "rotation_done m f g (up_node h) x (Node l x r) m'"
    using rotation_run [OF q dh nh] by blast
  note pl = rotation_placed [OF at dis m'(2)]
  define c c' where "c = color_of m" and "c' = color_of m'"
  have c': "c' a = (if a = top_node f g x then RB_COLOR_BLACK else if a = up_node g then RB_COLOR_RED else c a)" for a
    using m'(2) by (simp add: rotation_done_def c_def c'_def)
  have pd: "c x = RB_COLOR_RED" "inv_height c (plug (h # hs) ?S)" "inv_color c (Node l x r)" "way_ok c (f # g # h # hs)"
      "c (up_node (last (h # hs))) = RB_COLOR_BLACK"
    using pd by (simp_all add: pending_def c_def)
  have same: "\<forall>a \<in> up_nodes (h # hs). c' a = c a" using pl(3) by (simp add: c_def c'_def)
  note rc = rotated_colors [OF d(1) pd(4) red(1) [folded c_def] pd(1) red(2) [folded c_def] pd(3) c']
  have "inv_height c' (plug (h # hs) ?R)" using inv_height_plug [OF pd(2) same rc(2,3)] by simp
  moreover have "way_ok c' (h # hs)" using pd(4) way_ok_cong [OF same] by simp
  moreover have "up_node (last (h # hs)) \<in> up_nodes (h # hs)" unfolding up_nodes_def using last_in_set [of "h # hs"] by blast
  then have "c' (up_node (last (h # hs))) = RB_COLOR_BLACK" using pd(5) same by metis
  ultimately have "rb_ok c' (plug (h # hs) ?R)"
    unfolding rb_ok_def inv_color_plug root_color_plug using rc(1,4) by simp
  then show thesis using that m'(1) pl(1,2) by (simp add: c'_def)
qed

lemma rot_at_shape: "rot_at c fs (Node l x r) = Some (ws, N) \<Longrightarrow> \<exists>f g gs l' x' r'. ws = f # g # gs \<and> N = Node l' x' r'"
proof (induction c fs "Node l x r" arbitrary: l x r rule: rot_at.induct)
  case (1 c f g fs)
  obtain L R where "up_tree g (up_tree f (Node l x r)) = Node L (up_node g) R" using up_tree_Node by blast
  then show ?case using 1 by (auto split: if_splits)
qed auto

text \<open>An insertion up to its rotation.\<close>

lemma insert_to_rotation:
  assumes "tree_at m NULL (tr_root t) T" "distinct (inorder T)" "p \<notin> set_tree T" "p \<noteq> NULL" "alloc_ok dm key_len val val_len"
    and "\<forall>a \<in> set_tree T. \<exists>i. key_compare (tr_ops t) dm \<lparr>rk_len = key_len, rk_data = key\<rparr> (node_key m a) = Some i"
    and "rb_ok (color_of m) T"
    and rot: "rot_at (color_of m) (ins_way (new_key_lt (tr_ops t) dm m \<lparr>rk_len = key_len, rk_data = key\<rparr>) T []) (Node Leaf p Leaf) = Some (f # g # gs, N)"
  obtains t' m2 l x r where "N = Node l x r"
    "tree_ins (new_key_lt (tr_ops t) dm m \<lparr>rk_len = key_len, rk_data = key\<rparr>) p T = plug (f # g # gs) (Node l x r)"
    "tree_at m2 NULL (tr_root t') (plug (f # g # gs) (Node l x r))" "distinct (inorder (plug (f # g # gs) (Node l x r)))"
    "pending (color_of m2) (f # g # gs) x (Node l x r)" "color_of m2 (up_node f) = RB_COLOR_RED" "root_color (color_of m2) (up_side g) = RB_COLOR_BLACK"
    "rb_tree_insert_impl p dm t key key_len val val_len m = map_option (\<lambda>m'. (1, t', m')) (rb_tree_insert_case4 m2 x)"
proof -
  obtain l x r where N: "N = Node l x r" using rot_at_shape [OF rot] by blast
  define fs where "fs = ins_way (new_key_lt (tr_ops t) dm m \<lparr>rk_len = key_len, rk_data = key\<rparr>) T []"
  obtain t' m1 where b: "bst_insert p dm t key key_len val val_len (Some NULL) m = Some (1, t', Some p, m1)"
      "tree_at m1 NULL (tr_root t') (plug fs (Node Leaf p Leaf))" "distinct (inorder (plug fs (Node Leaf p Leaf)))"
      "pending (color_of m1) fs p (Node Leaf p Leaf)" "\<forall>a \<in> up_nodes fs. color_of m1 a = color_of m a"
      "tree_ins (new_key_lt (tr_ops t) dm m \<lparr>rk_len = key_len, rk_data = key\<rparr>) p T = plug fs (Node Leaf p Leaf)"
    using insert_pending [OF assms(1-7)] unfolding fs_def by blast
  have "rot_at (color_of m1) fs (Node Leaf p Leaf) = Some (f # g # gs, Node l x r)"
    using rot rot_at_cong [OF b(5)] N by (simp add: fs_def)
  from rotation_reached [OF b(2-4) this] obtain m2 where T: "plug (f # g # gs) (Node l x r) = plug fs (Node Leaf p Leaf)"
    and m2: "rb_tree_insert_case1 m1 p = rb_tree_insert_case4 m2 x" "same_shape m1 m2" "pending (color_of m2) (f # g # gs) x (Node l x r)"
      "color_of m2 (up_node f) = RB_COLOR_RED" "root_color (color_of m2) (up_side g) = RB_COLOR_BLACK"
    by blast
  have "tree_at m2 NULL (tr_root t') (plug (f # g # gs) (Node l x r))" using b(2) T tree_at_colors [OF m2(2)] by simp
  moreover have "rb_tree_insert_impl p dm t key key_len val val_len m = map_option (\<lambda>m'. (1, t', m')) (rb_tree_insert_case4 m2 x)"
    using b(1) m2(1) by (cases "rb_tree_insert_case4 m2 x") (simp_all add: rb_tree_insert_impl_def)
  ultimately show thesis using that [OF N] b(3,6) T m2(3-5) by simp
qed

section \<open>Properties\<close>

text \<open>
  C32: \<^verbatim>\<open>_rb_tree_insert\<close> with a rotation that the code gets right. Let the recolouring stop at a red node with a red parent and a black or missing uncle,
  and let the grandparent hang on the same side of the node above it as the parent hangs on the grandparent. Then the insertion ends and returns \<open>1\<close>. Left and
  right pointers form the rotated tree: it has the nodes in the order in which inserting into the search tree puts them and is a red-black tree again. The
  parent pointers are right except for those of the subtrees that moved; if the rotation is at the new node no subtree moved, and all are right.
\<close>

theorem rb_tree_insert_rotates:
  assumes "tree_at m NULL (tr_root t) T" "distinct (inorder T)" "p \<notin> set_tree T" "p \<noteq> NULL" "alloc_ok dm key_len val val_len"
    and "\<forall>a \<in> set_tree T. \<exists>i. key_compare (tr_ops t) dm \<lparr>rk_len = key_len, rk_data = key\<rparr> (node_key m a) = Some i"
    and "rb_ok (color_of m) T"
    and rot: "rot_at (color_of m) (ins_way (new_key_lt (tr_ops t) dm m \<lparr>rk_len = key_len, rk_data = key\<rparr>) T []) (Node Leaf p Leaf) = Some (f # g # h # hs, N)"
    and side: "same_side g h"
  shows "\<exists>t' m'. rb_tree_insert_impl p dm t key key_len val val_len m = Some (1, t', m')
     \<and> inorder (plug (h # hs) (rotated f g N)) = inorder (tree_ins (new_key_lt (tr_ops t) dm m \<lparr>rk_len = key_len, rk_data = key\<rparr>) p T)
     \<and> rb_ok (color_of m') (plug (h # hs) (rotated f g N))
     \<and> tree_but m' (moved f g N) NULL (tr_root t') (plug (h # hs) (rotated f g N))
     \<and> (N = Node Leaf p Leaf \<longrightarrow> tree_at m' NULL (tr_root t') (plug (h # hs) (rotated f g N)))"
proof -
  obtain t' m2 l x r where N: "N = Node l x r"
    and T: "tree_ins (new_key_lt (tr_ops t) dm m \<lparr>rk_len = key_len, rk_data = key\<rparr>) p T = plug (f # g # h # hs) (Node l x r)"
    and m2: "tree_at m2 NULL (tr_root t') (plug (f # g # h # hs) (Node l x r))" "distinct (inorder (plug (f # g # h # hs) (Node l x r)))"
      "pending (color_of m2) (f # g # h # hs) x (Node l x r)" "color_of m2 (up_node f) = RB_COLOR_RED" "root_color (color_of m2) (up_side g) = RB_COLOR_BLACK"
    and impl: "rb_tree_insert_impl p dm t key key_len val val_len m = map_option (\<lambda>m'. (1, t', m')) (rb_tree_insert_case4 m2 x)"
    by (rule insert_to_rotation [OF assms(1-8)])
  obtain m' where m': "rb_tree_insert_case4 m2 x = Some m'"
      "tree_but m' (moved f g (Node l x r)) NULL (tr_root t') (plug (h # hs) (rotated f g (Node l x r)))"
      "rb_ok (color_of m') (plug (h # hs) (rotated f g (Node l x r)))"
    using rotation_step [OF m2] side by metis
  have "inorder (plug (h # hs) (rotated f g (Node l x r))) = inorder (plug (f # g # h # hs) (Node l x r))"
    using inorder_plug [OF inorder_rotated, of "h # hs"] by simp
  moreover have "tree_at m' NULL (tr_root t') (plug (h # hs) (rotated f g N))" if "N = Node Leaf p Leaf"
    using moved_new_leaf m2(3,4) m'(2) that N by (simp add: tree_but_empty)
  ultimately show ?thesis using impl m' T N by auto
qed

text \<open>
  C33: \<^verbatim>\<open>_rb_tree_insert\<close> with a rotation that the code gets wrong. If the grandparent is the root the insertion dereferences a null pointer. If the grandparent
  hangs on the other side than the parent the insertion ends and returns \<open>1\<close>, but the rotated tree replaces the sibling of the grandparent: none of
  the sibling's nodes can be reached from the root any more, and one part of the rotated tree hangs in two places.
\<close>

theorem rb_tree_insert_rotation_damage:
  assumes "tree_at m NULL (tr_root t) T" "distinct (inorder T)" "p \<notin> set_tree T" "p \<noteq> NULL" "alloc_ok dm key_len val val_len"
    and "\<forall>a \<in> set_tree T. \<exists>i. key_compare (tr_ops t) dm \<lparr>rk_len = key_len, rk_data = key\<rparr> (node_key m a) = Some i"
    and "rb_ok (color_of m) T"
    and rot: "rot_at (color_of m) (ins_way (new_key_lt (tr_ops t) dm m \<lparr>rk_len = key_len, rk_data = key\<rparr>) T []) (Node Leaf p Leaf) = Some (f # g # gs, N)"
  shows "(gs = [] \<longrightarrow> rb_tree_insert_impl p dm t key key_len val val_len m = None)
     \<and> (\<forall>h hs. gs = h # hs \<and> \<not> same_side g h \<longrightarrow>
          (\<exists>t' m'. rb_tree_insert_impl p dm t key key_len val val_len m = Some (1, t', m')
             \<and> tree_to m' (tr_root t') (plug hs (crossed h (rotated f g N))) NULL
             \<and> set_tree (up_side h) \<inter> set_tree (plug hs (crossed h (rotated f g N))) = {}))"
proof -
  obtain t' m2 l x r where N: "N = Node l x r"
    and at: "tree_at m2 NULL (tr_root t') (plug (f # g # gs) (Node l x r))" and dis: "distinct (inorder (plug (f # g # gs) (Node l x r)))"
    and m2: "pending (color_of m2) (f # g # gs) x (Node l x r)" "color_of m2 (up_node f) = RB_COLOR_RED" "root_color (color_of m2) (up_side g) = RB_COLOR_BLACK"
    and impl: "rb_tree_insert_impl p dm t key key_len val val_len m = map_option (\<lambda>m'. (1, t', m')) (rb_tree_insert_case4 m2 x)"
    by (rule insert_to_rotation [OF assms(1-8)])
  have "rb_tree_insert_impl p dm t key key_len val val_len m = None" if "gs = []"
    using case4_at_root [OF three_nodes_at] at dis that impl by simp
  moreover have "\<exists>t' m'. rb_tree_insert_impl p dm t key key_len val val_len m = Some (1, t', m')
             \<and> tree_to m' (tr_root t') (plug hs (crossed h (rotated f g N))) NULL
             \<and> set_tree (up_side h) \<inter> set_tree (plug hs (crossed h (rotated f g N))) = {}" if gs: "gs = h # hs" "\<not> same_side g h" for h hs
  proof -
    obtain m' where m': "rb_tree_insert_case4 m2 x = Some m'" "tree_but m' UNIV NULL (tr_root t') (plug hs (crossed h (rotated f g N)))"
      using rotation_step [OF at [unfolded gs(1)] dis [unfolded gs(1)] m2(1) [unfolded gs(1)] m2(2,3)] gs(2) N by metis
    have d: "distinct (inorder (up_tree h (up_tree g (up_tree f N))))" "set_tree (up_tree h (up_tree g (up_tree f N))) \<inter> up_nodes hs = {}"
      using plug_distinct [of hs "up_tree h (up_tree g (up_tree f N))"] dis gs(1) N by simp_all
    have "set_tree (plug hs (crossed h (rotated f g N))) \<subseteq> insert (up_node h) (set_tree (up_tree g (up_tree f N))) \<union> up_nodes hs"
      unfolding set_plug using set_crossed [of h "rotated f g N"] set_rotated [of f g l x r] N by auto
    moreover have "set_tree (up_side h) \<inter> (insert (up_node h) (set_tree (up_tree g (up_tree f N))) \<union> up_nodes hs) = {}"
      using up_tree_distinct [OF d(1)] d(2) by (auto simp: set_up_tree [of h])
    ultimately have "set_tree (up_side h) \<inter> set_tree (plug hs (crossed h (rotated f g N))) = {}" by blast
    then show ?thesis using impl m'(1) tree_but_to [OF m'(2)] by auto
  qed
  ultimately show ?thesis by blast
qed

subsection \<open>Examples\<close>

definition rot_node :: "rb_color \<Rightarrow> addr \<Rightarrow> addr \<Rightarrow> addr \<Rightarrow> addr \<Rightarrow> rb_node" where
  "rot_node c l r par a = \<lparr>nd_color = c, nd_left = l, nd_right = r, nd_parent = par, nd_debug = 0,
     nd_key = \<lparr>rk_len = 1, rk_data = 100 + a\<rparr>, nd_val = \<lparr>rv_len = 2, rv_data = 301\<rparr>\<rparr>"

definition rot_nodes :: nmem where
  "rot_nodes = [40 \<mapsto> rot_node RB_COLOR_BLACK 30 50 0 40, 30 \<mapsto> rot_node RB_COLOR_BLACK 20 0 40 30, 20 \<mapsto> rot_node RB_COLOR_RED 0 0 30 20,
     50 \<mapsto> rot_node RB_COLOR_BLACK 45 0 40 50, 45 \<mapsto> rot_node RB_COLOR_RED 0 0 50 45]"

definition rot_blocks :: dmem where
  "rot_blocks = [140 \<mapsto> [40], 130 \<mapsto> [30], 120 \<mapsto> [20], 150 \<mapsto> [50], 145 \<mapsto> [45], 300 \<mapsto> [10], 301 \<mapsto> [0, 3], 302 \<mapsto> [42]]"

definition rot_rb_tree :: rb_tree where
  "rot_rb_tree = \<lparr>tr_root = 40, tr_ops = default_tree_ops, tr_size = 0\<rparr>"

definition rot_shape :: "addr tree" where
  "rot_shape = Node (Node (Node Leaf 20 Leaf) 30 Leaf) 40 (Node (Node Leaf 45 Leaf) 50 Leaf)"

lemma rot_example:
  "tree_at rot_nodes NULL (tr_root rot_rb_tree) rot_shape" "distinct (inorder rot_shape)" "(60 :: addr) \<notin> set_tree rot_shape" "(60 :: addr) \<noteq> NULL"
  "alloc_ok rot_blocks 1 301 2" "rb_ok (color_of rot_nodes) rot_shape"
  by (simp_all add: rot_nodes_def rot_node_def rot_rb_tree_def rot_shape_def load_def alloc_ok_def RB_NODE_SIZE_def rb_ok_def color_of_def)

lemma rot_example_cmp:
  "a \<in> set_tree rot_shape \<Longrightarrow> key_compare (tr_ops rot_rb_tree) rot_blocks \<lparr>rk_len = 1, rk_data = 300\<rparr> (node_key rot_nodes a) = Some (10 - int a)"
  "a \<in> set_tree rot_shape \<Longrightarrow> key_compare (tr_ops rot_rb_tree) rot_blocks \<lparr>rk_len = 1, rk_data = 302\<rparr> (node_key rot_nodes a) = Some (42 - int a)"
  by (auto simp: rot_shape_def rot_nodes_def rot_node_def rot_rb_tree_def rot_blocks_def node_key_def load_def default_tree_ops_def
      default_comp_def memcmp_def)

text \<open>The key 10 goes to the far left, where the rotation is right; the key 42 to the left of the right subtree, where the left subtree gets lost.\<close>

theorem rb_tree_insert_rotates_witness:
  "\<exists>t' m'. rb_tree_insert_impl 60 rot_blocks rot_rb_tree 300 1 301 2 rot_nodes = Some (1, t', m')
     \<and> tree_at m' NULL (tr_root t') (Node (Node (Node Leaf 60 Leaf) 20 (Node Leaf 30 Leaf)) 40 (Node (Node Leaf 45 Leaf) 50 Leaf))"
proof -
  have "rot_at (color_of rot_nodes) (ins_way (new_key_lt (tr_ops rot_rb_tree) rot_blocks rot_nodes \<lparr>rk_len = 1, rk_data = 300\<rparr>) rot_shape [])
      (Node Leaf 60 Leaf) = Some ([Left_of 20 Leaf, Left_of 30 Leaf, Left_of 40 (Node (Node Leaf 45 Leaf) 50 Leaf)], Node Leaf 60 Leaf)"
    using rot_example_cmp(1)
    by (simp add: rot_shape_def new_key_lt_def key_lt_def color_of_def rot_nodes_def rot_node_def load_def)
  from rb_tree_insert_rotates [OF rot_example(1-5) _ rot_example(6) this] rot_example_cmp(1) show ?thesis by auto
qed

theorem rb_tree_insert_rotation_damage_witness:
  "\<exists>t' m'. rb_tree_insert_impl 60 rot_blocks rot_rb_tree 302 1 301 2 rot_nodes = Some (1, t', m')
     \<and> tree_to m' (tr_root t') (Node (Node (Node Leaf 60 Leaf) 45 (Node Leaf 50 Leaf)) 40 (Node Leaf 50 Leaf)) NULL"
proof -
  have "rot_at (color_of rot_nodes) (ins_way (new_key_lt (tr_ops rot_rb_tree) rot_blocks rot_nodes \<lparr>rk_len = 1, rk_data = 302\<rparr>) rot_shape [])
      (Node Leaf 60 Leaf) = Some ([Left_of 45 Leaf, Left_of 50 Leaf, Right_of (Node (Node Leaf 20 Leaf) 30 Leaf) 40], Node Leaf 60 Leaf)"
    using rot_example_cmp(2)
    by (simp add: rot_shape_def new_key_lt_def key_lt_def color_of_def rot_nodes_def rot_node_def load_def)
  from rb_tree_insert_rotation_damage [OF rot_example(1-5) _ rot_example(6) this] rot_example_cmp(2) show ?thesis by auto
qed

end
