(* ===== verification/Ckit_Debug.thy ===== *)
theory Ckit_Debug
  imports Ckit_Prelude
begin

text \<open>
  \<^verbatim>\<open>src/log.c\<close>, \<^verbatim>\<open>src/debug.c\<close>, \<^verbatim>\<open>include/ckit/log.h\<close> and \<^verbatim>\<open>include/ckit/debug.h\<close>: log files, the default
  log with its levels, and the hex dump.

  Streams are known by their address; a state of the standard library records which are open, what was written to them and which were
  flushed. Formatting is done by \<^verbatim>\<open>vfprintf\<close>: the functions get the text that format and arguments stand for. Writing to an open stream
  succeeds; using any other stream faults. The build is not the Android one.
\<close>

unbundle bit_operations_syntax

section \<open>Definitions\<close>

record io =
  io_open :: "addr list"
  io_out :: "(addr \<times> string) list"
  io_flushed :: "addr list"

definition vfprintf :: "addr \<Rightarrow> string \<Rightarrow> io \<Rightarrow> (int \<times> io) option" where
  "vfprintf fp text io = (if fp \<in> set (io_open io) then Some (int (length text), io\<lparr>io_out := io_out io @ [(fp, text)]\<rparr>) else None)"

definition fflush :: "addr \<Rightarrow> io \<Rightarrow> io" where
  "fflush fp io = io\<lparr>io_flushed := io_flushed io @ [fp]\<rparr>"

definition fclose :: "addr \<Rightarrow> io \<Rightarrow> io option" where
  "fclose fp io = (if fp \<in> set (io_open io) then Some (io\<lparr>io_open := remove1 fp (io_open io)\<rparr>) else None)"

subsection \<open>Logs\<close>

datatype ck_log_mode = CK_LOG_APPEND | CK_LOG_TRUNC

definition CK_LOG_F_SYNC :: u8 where
  "CK_LOG_F_SYNC = push_bit 0 1"

record ck_log =
  lg_fp :: addr
  lg_flags :: u32
  lg_mode :: ck_log_mode

definition ck_log_init :: "addr \<Rightarrow> ck_log_mode \<Rightarrow> int \<times> ck_log" where
  "ck_log_init fp mode = (0, \<lparr>lg_fp = fp, lg_flags = 0, lg_mode = mode\<rparr>)"

definition STDOUT :: addr where "STDOUT = 1"
definition STDERR :: addr where "STDERR = 2"

text \<open>\<open>fopen path omode io\<close> is the stream opened, or \<open>NULL\<close>, and the new state.\<close>

definition ck_log_open ::
  "(string \<Rightarrow> string \<Rightarrow> io \<Rightarrow> addr \<times> io) \<Rightarrow> ck_log \<Rightarrow> string \<Rightarrow> ck_log_mode \<Rightarrow> io \<Rightarrow> (int \<times> ck_log \<times> io) option" where
  "ck_log_open fopen log path mode io = do {
     let omode = (case mode of CK_LOG_APPEND \<Rightarrow> ''a'' | CK_LOG_TRUNC \<Rightarrow> ''w'');
     let (fp, io) = fopen path omode io;
     if fp = NULL then do {
       (_, io) \<leftarrow> vfprintf STDERR (''fdopen failed for '' @ path @ [CHR 0x0A]) io;
       Some (-1, log, io)
     } else let (ret, log) = ck_log_init fp mode in Some (ret, log, io)
   }"

definition ck_log_close :: "ck_log \<Rightarrow> io \<Rightarrow> io option" where
  "ck_log_close log io = fclose (lg_fp log) io"

definition ck_log_check_flag :: "ck_log \<Rightarrow> u8 \<Rightarrow> bool" where
  "ck_log_check_flag log flags \<longleftrightarrow> lg_flags log AND ucast flags > 0"

definition ck_log_print :: "ck_log \<Rightarrow> string \<Rightarrow> io \<Rightarrow> (int \<times> io) option" where
  "ck_log_print log text io = do {
     (ret, io) \<leftarrow> vfprintf (lg_fp log) text io;
     Some (ret, if ck_log_check_flag log CK_LOG_F_SYNC then fflush (lg_fp log) io else io)
   }"

definition ck_log_vprint :: "ck_log \<Rightarrow> string \<Rightarrow> io \<Rightarrow> (int \<times> io) option" where
  "ck_log_vprint log text io = vfprintf (lg_fp log) text io"

definition ck_log_set_flag :: "ck_log \<Rightarrow> u8 \<Rightarrow> ck_log" where
  "ck_log_set_flag log flags = log\<lparr>lg_flags := lg_flags log OR ucast flags\<rparr>"

definition ck_log_unset_flag :: "ck_log \<Rightarrow> u8 \<Rightarrow> ck_log" where
  "ck_log_unset_flag log flags = log\<lparr>lg_flags := lg_flags log AND NOT (ucast flags)\<rparr>"

subsection \<open>The debug log\<close>

datatype ck_dbg_level = LOG_LVL_VERB | LOG_LVL_DBG | LOG_LVL_INF | LOG_LVL_WARN | LOG_LVL_ERR

fun level_num :: "ck_dbg_level \<Rightarrow> nat" where
  "level_num LOG_LVL_VERB = 0"
| "level_num LOG_LVL_DBG = 1"
| "level_num LOG_LVL_INF = 2"
| "level_num LOG_LVL_WARN = 3"
| "level_num LOG_LVL_ERR = 4"

text \<open>Enumerators are compared by their numbers.\<close>

lemma level_num_inj: "level_num a = level_num b \<Longrightarrow> a = b"
  by (cases a; cases b) auto

instantiation ck_dbg_level :: linorder
begin

definition less_eq_ck_dbg_level :: "ck_dbg_level \<Rightarrow> ck_dbg_level \<Rightarrow> bool" where
  "less_eq_ck_dbg_level a b \<longleftrightarrow> level_num a \<le> level_num b"

definition less_ck_dbg_level :: "ck_dbg_level \<Rightarrow> ck_dbg_level \<Rightarrow> bool" where
  "less_ck_dbg_level a b \<longleftrightarrow> level_num a < level_num b"

instance
  by standard (auto simp: less_eq_ck_dbg_level_def less_ck_dbg_level_def dest: level_num_inj)

end

record ck_dbg =
  dg_log :: ck_log
  dg_level :: ck_dbg_level

text \<open>The logs by address, the variable \<^verbatim>\<open>dbg_log\<close> and the streams. \<open>DEFAULT_DBG\<close> is the address of the static \<^verbatim>\<open>default_dbg\<close>.\<close>

record dbg_state =
  ds_dbgs :: "ck_dbg mem"
  ds_dbg_log :: addr
  ds_io :: io

definition DEFAULT_DBG :: addr where
  "DEFAULT_DBG = 1"

definition default_dbg :: ck_dbg where
  "default_dbg = \<lparr>dg_log = \<lparr>lg_fp = NULL, lg_flags = 0, lg_mode = CK_LOG_APPEND\<rparr>, dg_level = LOG_LVL_DBG\<rparr>"

fun ck_dbg_level_to_str :: "ck_dbg_level \<Rightarrow> string" where
  "ck_dbg_level_to_str LOG_LVL_VERB = ''VERB''"
| "ck_dbg_level_to_str LOG_LVL_DBG = ''DBG''"
| "ck_dbg_level_to_str LOG_LVL_INF = ''INF''"
| "ck_dbg_level_to_str LOG_LVL_WARN = ''WARN''"
| "ck_dbg_level_to_str LOG_LVL_ERR = ''ERR''"

definition ck_dbg_set_default_log :: "addr \<Rightarrow> dbg_state \<Rightarrow> dbg_state" where
  "ck_dbg_set_default_log dbg s = s\<lparr>ds_dbg_log := dbg\<rparr>"

definition store_dbg :: "dbg_state \<Rightarrow> addr \<Rightarrow> ck_dbg \<Rightarrow> dbg_state option" where
  "store_dbg s dbg d = do { m \<leftarrow> store (ds_dbgs s) dbg d; Some (s\<lparr>ds_dbgs := m\<rparr>) }"

definition ck_dbg_init :: "addr \<Rightarrow> addr \<Rightarrow> dbg_state \<Rightarrow> (int \<times> dbg_state) option" where
  "ck_dbg_init dbg fp s = do {
     let (ret, log) = ck_log_init fp CK_LOG_APPEND;
     s \<leftarrow> store_dbg s dbg \<lparr>dg_log = log, dg_level = LOG_LVL_DBG\<rparr>;
     Some (ret, s)
   }"

definition ck_dbg_print :: "addr \<Rightarrow> ck_dbg_level \<Rightarrow> string \<Rightarrow> dbg_state \<Rightarrow> (int \<times> dbg_state) option" where
  "ck_dbg_print dbg level text s = do {
     d \<leftarrow> load (ds_dbgs s) dbg;
     if level < dg_level d then Some (0, s)
     else do {
       let log = (if dbg = DEFAULT_DBG then (dg_log d)\<lparr>lg_fp := (if level = LOG_LVL_ERR then STDERR else STDOUT)\<rparr> else dg_log d);
       s \<leftarrow> store_dbg s dbg (d\<lparr>dg_log := log\<rparr>);
       (ret, io) \<leftarrow> ck_log_vprint log text (ds_io s);
       let s = s\<lparr>ds_io := io\<rparr>;
       let log = (if dbg = DEFAULT_DBG then log\<lparr>lg_fp := NULL\<rparr> else log);
       s \<leftarrow> store_dbg s dbg (d\<lparr>dg_log := log\<rparr>);
       Some (ret, s)
     }
   }"

text \<open>\<open>now\<close> is the text of the time. The cleared struct has the mode \<open>CK_LOG_APPEND\<close>, which is \<open>0\<close>.\<close>

definition ck_dbg_open ::
  "(string \<Rightarrow> string \<Rightarrow> io \<Rightarrow> addr \<times> io) \<Rightarrow> string \<Rightarrow> addr \<Rightarrow> string \<Rightarrow> dbg_state \<Rightarrow> (int \<times> dbg_state) option" where
  "ck_dbg_open fopen now dbg path s = do {
     let zero = \<lparr>lg_fp = NULL, lg_flags = 0, lg_mode = CK_LOG_APPEND\<rparr>;
     (ret, log, io) \<leftarrow> ck_log_open fopen zero path CK_LOG_APPEND (ds_io s);
     s \<leftarrow> store_dbg (s\<lparr>ds_io := io\<rparr>) dbg \<lparr>dg_log = log, dg_level = LOG_LVL_DBG\<rparr>;
     if ret = 0 then do {
       (_, s) \<leftarrow> ck_dbg_print dbg LOG_LVL_INF (now @ '' INF  <<<<<< Log start >>>>>>'' @ [CHR 0x0A]) s;
       Some (ret, s)
     } else Some (ret, s)
   }"

definition ck_dbg_close :: "addr \<Rightarrow> dbg_state \<Rightarrow> dbg_state option" where
  "ck_dbg_close dbg s =
     (if dbg \<noteq> NULL then do {
        s \<leftarrow> (if dbg \<noteq> DEFAULT_DBG then do {
               d \<leftarrow> load (ds_dbgs s) dbg;
               io \<leftarrow> ck_log_close (dg_log d) (ds_io s);
               Some (s\<lparr>ds_io := io\<rparr>)
             } else Some s);
        Some (if dbg = ds_dbg_log s then s\<lparr>ds_dbg_log := NULL\<rparr> else s)
      } else if ds_dbg_log s \<noteq> NULL then do {
        s \<leftarrow> (if dbg \<noteq> DEFAULT_DBG then do {
               d \<leftarrow> load (ds_dbgs s) (ds_dbg_log s);
               io \<leftarrow> ck_log_close (dg_log d) (ds_io s);
               Some (s\<lparr>ds_io := io\<rparr>)
             } else Some s);
        Some (s\<lparr>ds_dbg_log := NULL\<rparr>)
      } else Some s)"

definition ck_dbg_is_open :: "addr \<Rightarrow> dbg_state \<Rightarrow> bool option" where
  "ck_dbg_is_open dbg s = do { d \<leftarrow> load (ds_dbgs s) dbg; Some (lg_fp (dg_log d) \<noteq> NULL \<or> dbg = DEFAULT_DBG) }"

definition ck_dbg_set_level :: "addr \<Rightarrow> ck_dbg_level \<Rightarrow> dbg_state \<Rightarrow> dbg_state option" where
  "ck_dbg_set_level dbg level s = do { d \<leftarrow> load (ds_dbgs s) dbg; store_dbg s dbg (d\<lparr>dg_level := level\<rparr>) }"

definition ck_dbg_set_sync_mode :: "addr \<Rightarrow> dbg_state \<Rightarrow> dbg_state option" where
  "ck_dbg_set_sync_mode dbg s = do { d \<leftarrow> load (ds_dbgs s) dbg; store_dbg s dbg (d\<lparr>dg_log := ck_log_set_flag (dg_log d) CK_LOG_F_SYNC\<rparr>) }"

text \<open>The macros \<^verbatim>\<open>LOG_INF\<close>, \<^verbatim>\<open>LOG_WARN\<close> and \<^verbatim>\<open>LOG_ERR\<close> print to the log in \<^verbatim>\<open>dbg_log\<close>.\<close>

definition LOG_at :: "ck_dbg_level \<Rightarrow> string \<Rightarrow> dbg_state \<Rightarrow> (int \<times> dbg_state) option" where
  "LOG_at level text s = ck_dbg_print (ds_dbg_log s) level text s"

definition LOG_INF :: "string \<Rightarrow> dbg_state \<Rightarrow> (int \<times> dbg_state) option" where
  "LOG_INF text s = LOG_at LOG_LVL_INF text s"

definition LOG_WARN :: "string \<Rightarrow> dbg_state \<Rightarrow> (int \<times> dbg_state) option" where
  "LOG_WARN text s = LOG_at LOG_LVL_WARN text s"

definition DBG_SET_LEVEL :: "ck_dbg_level \<Rightarrow> dbg_state \<Rightarrow> dbg_state option" where
  "DBG_SET_LEVEL level s = ck_dbg_set_level (ds_dbg_log s) level s"

subsection \<open>Hex dump\<close>

definition hex_digit :: "nat \<Rightarrow> u8" where
  "hex_digit n = (if n < 10 then of_nat (48 + n) else of_nat (87 + n))"

definition hex2 :: "u8 \<Rightarrow> u8 list" where
  "hex2 b = [hex_digit (unat b div 16), hex_digit (unat b mod 16)]"

fun put_bytes :: "u8 arr \<Rightarrow> nat \<Rightarrow> u8 list \<Rightarrow> u8 arr option" where
  "put_bytes buf i [] = Some buf"
| "put_bytes buf i (b # bs) = do { buf \<leftarrow> awrite buf i b; put_bytes buf (i + 1) bs }"

text \<open>\<^verbatim>\<open>snprintf\<close> of a text into at most \<open>n\<close> bytes at an offset, with the final zero byte; it returns the length of the text.\<close>

definition snprintf :: "u8 arr \<Rightarrow> nat \<Rightarrow> u64 \<Rightarrow> u8 list \<Rightarrow> (nat \<times> u8 arr) option" where
  "snprintf buf off n text =
     (if n = 0 then Some (length text, buf)
      else do { buf \<leftarrow> put_bytes buf off (take (unat n - 1) text @ [0]); Some (length text, buf) })"

text \<open>The space left, \<^verbatim>\<open>buflen - len\<close>, is an \<^verbatim>\<open>int\<close> that becomes a \<^verbatim>\<open>size_t\<close>.\<close>

function hexdump_loop :: "u8 list \<Rightarrow> int \<Rightarrow> int \<Rightarrow> nat \<Rightarrow> nat \<Rightarrow> u8 arr \<Rightarrow> u8 arr option" where
  "hexdump_loop h datalen buflen i len buf =
     (if int i < datalen then do {
        a \<leftarrow> (if i < length h then Some (h ! i) else None);
        c \<leftarrow> (if int i + 1 < datalen then (if i + 1 < length h then Some (h ! (i + 1)) else None) else Some 0);
        (n, buf) \<leftarrow> snprintf buf len (word_of_int (buflen - int len)) (hex2 a @ hex2 c @ [32]);
        hexdump_loop h datalen buflen (i + 2) (len + n) buf
      } else Some buf)"
  by auto
termination
  by (relation "measure (\<lambda>(h, datalen, buflen, i, len, buf). nat (datalen - int i))") auto

declare hexdump_loop.simps [simp del]

definition hexdump :: "u8 list \<Rightarrow> int \<Rightarrow> u8 arr \<Rightarrow> int \<Rightarrow> u8 arr option" where
  "hexdump data datalen buf buflen = hexdump_loop data datalen buflen 0 0 buf"

section \<open>The hex dump\<close>

text \<open>The text of some bytes: two bytes to a group, the last group filled up with a zero byte.\<close>

fun hex_text :: "u8 list \<Rightarrow> u8 list" where
  "hex_text [] = []"
| "hex_text [a] = hex2 a @ hex2 0 @ [32]"
| "hex_text (a # b # bs) = hex2 a @ hex2 b @ [32] @ hex_text bs"

lemma hex2_length: "length (hex2 a) = 2"
  by (simp add: hex2_def)

lemma put_bytes_ok:
  "i + length bs \<le> length buf \<Longrightarrow> put_bytes buf i bs = Some (take i buf @ map Some bs @ drop (i + length bs) buf)"
proof (induction bs arbitrary: i buf)
  case (Cons b bs)
  then have "put_bytes buf i (b # bs) = Some (take (i + 1) (buf[i := Some b]) @ map Some bs @ drop (i + 1 + length bs) (buf[i := Some b]))"
    by (simp add: arr_simps)
  moreover have "take (i + 1) (buf[i := Some b]) = take i buf @ [Some b]"
    using Cons.prems by (simp add: take_Suc_conv_app_nth)
  ultimately show ?case by simp
qed simp

lemma put_bytes_over: "length buf \<le> i \<Longrightarrow> bs \<noteq> [] \<Longrightarrow> put_bytes buf i bs = None"
  by (cases bs) (auto simp: arr_simps)

lemma space_left: "len \<le> B \<Longrightarrow> B < 2 ^ 31 \<Longrightarrow> unat (word_of_int (int B - int len) :: u64) = B - len"
proof -
  assume a: "len \<le> B" "B < 2 ^ 31"
  then have "(word_of_int (int B - int len) :: u64) = of_nat (B - len)" by (simp add: of_nat_diff)
  moreover have "(B - len) mod 2 ^ 64 = B - len" using a by simp
  ultimately show ?thesis by (simp add: unsigned_of_nat take_bit_eq_mod)
qed

lemma snprintf_fits:
  assumes "len + length text < length buf" "length buf < 2 ^ 31"
  shows "snprintf buf len (word_of_int (int (length buf) - int len)) text
     = Some (length text, take len buf @ map Some (text @ [0]) @ drop (len + length text + 1) buf)"
proof -
  have u: "unat (word_of_int (int (length buf) - int len) :: u64) = length buf - len" using assms by (intro space_left) auto
  then have "(word_of_int (int (length buf) - int len) :: u64) \<noteq> 0" using assms(1) by (metis less_diff_conv not_less_zero trans_less_add1 add.commute unsigned_0)
  moreover have "take (length buf - len - 1) text = text" using assms(1) by simp
  ultimately show ?thesis
    using put_bytes_ok [of len "text @ [0]" buf] assms(1) u by (simp add: snprintf_def)
qed

lemma snprintf_length:
  assumes "len \<le> length buf" "length buf < 2 ^ 31"
  shows "\<exists>buf'. snprintf buf len (word_of_int (int (length buf) - int len)) text = Some (length text, buf') \<and> length buf' = length buf"
proof -
  have u: "unat (word_of_int (int (length buf) - int len) :: u64) = length buf - len" using assms by (intro space_left) auto
  show ?thesis
  proof (cases "(word_of_int (int (length buf) - int len) :: u64) = 0")
    case False
    then have "0 < length buf - len" using u by (metis unat_eq_zero gr0I)
    then show ?thesis
      using put_bytes_ok [of len "take (length buf - len - 1) text @ [0]" buf] u False by (simp add: snprintf_def)
  qed (simp add: snprintf_def)
qed

lemma snprintf_over:
  assumes "length buf < len" "len < 2 ^ 31" "length buf < 2 ^ 31"
  shows "snprintf buf len (word_of_int (int (length buf) - int len)) text = None"
proof -
  have "(word_of_int (int (length buf) - int len) :: u64) \<noteq> 0"
  proof
    assume "(word_of_int (int (length buf) - int len) :: u64) = 0"
    then have "(of_nat (length buf) :: u64) = of_nat len" by simp
    then have "length buf mod 2 ^ 64 = len mod 2 ^ 64" by (simp add: word_of_nat_eq_iff take_bit_eq_mod)
    then show False using assms by simp
  qed
  then show ?thesis
    using put_bytes_over [of buf len "take (unat (word_of_int (int (length buf) - int len) :: u64) - 1) text @ [0]"] assms(1)
    by (simp add: snprintf_def)
qed

text \<open>One round of the loop, on the bytes that are left.\<close>

lemma hexdump_round:
  assumes "drop i h = a # rest"
  shows "hexdump_loop h (int (length h)) L i len buf = do {
     (n, buf) \<leftarrow> snprintf buf len (word_of_int (L - int len)) (hex2 a @ hex2 (case rest of [] \<Rightarrow> 0 | b # _ \<Rightarrow> b) @ [32]);
     hexdump_loop h (int (length h)) L (i + 2) (len + n) buf }"
proof -
  have i: "i < length h" "h ! i = a"
    using assms by (metis drop_all not_less list.distinct(1)) (metis assms hd_drop_conv_nth list.sel(1) drop_all not_less list.distinct(1))
  have r: "rest = drop (i + 1) h" using assms by (metis Suc_eq_plus1 drop_Suc list.sel(3) tl_drop)
  have "rest = [] \<longleftrightarrow> \<not> i + 1 < length h" using r by auto
  moreover have "i + 1 < length h \<Longrightarrow> \<exists>bs. rest = h ! (i + 1) # bs" using r by (auto simp: Cons_nth_drop_Suc [symmetric])
  ultimately show ?thesis
    using i by (subst hexdump_loop.simps) (cases rest; auto)
qed

lemma hexdump_stop: "length h \<le> i \<Longrightarrow> hexdump_loop h (int (length h)) L i len buf = Some buf"
  by (subst hexdump_loop.simps) simp

lemma drop_step: "drop i h = a # b # bs \<Longrightarrow> drop (i + 2) h = bs" "drop i h = [a] \<Longrightarrow> length h \<le> i + 2"
  by (metis drop_drop add.commute drop_Suc_Cons drop0 numeral_2_eq_2) (metis drop_drop add.commute drop_Suc_Cons drop_Nil numeral_2_eq_2 drop_eq_Nil)

lemma hexdump_fits:
  assumes "drop i h = bs" "bs \<noteq> []" "len + length (hex_text bs) < length buf" "length buf < 2 ^ 31"
  shows "hexdump_loop h (int (length h)) (int (length buf)) i len buf
     = Some (take len buf @ map Some (hex_text bs @ [0]) @ drop (len + length (hex_text bs) + 1) buf)"
  using assms
proof (induction bs arbitrary: i len buf rule: hex_text.induct)
  case (2 a)
  have "len + length (hex2 a @ hex2 0 @ [32]) < length buf" using 2(3) by simp
  note sn = snprintf_fits [OF this 2(4)]
  show ?case
    using sn hexdump_round [OF 2(1)] hexdump_stop drop_step(2) [OF 2(1)] by simp
next
  case (3 a b bs)
  let ?t = "hex2 a @ hex2 b @ [32]"
  have t5: "length ?t = 5" by (simp add: hex2_length)
  have fit: "len + length ?t < length buf" using "3.prems"(3) by simp
  define buf1 where "buf1 = take len buf @ map Some (?t @ [0]) @ drop (len + length ?t + 1) buf"
  have sn: "snprintf buf len (word_of_int (int (length buf) - int len)) ?t = Some (length ?t, buf1)"
    using snprintf_fits [OF fit "3.prems"(4)] by (simp add: buf1_def)
  have l1: "length buf1 = length buf" using fit by (simp add: buf1_def)
  have run: "hexdump_loop h (int (length h)) (int (length buf)) i len buf = hexdump_loop h (int (length h)) (int (length buf1)) (i + 2) (len + 5) buf1"
    using hexdump_round [OF "3.prems"(1)] sn t5 l1 by simp
  show ?case
  proof (cases "bs = []")
    case True
    then have "length h \<le> i + 2" using drop_step(1) [OF "3.prems"(1)] by simp
    then show ?thesis using run hexdump_stop True by (simp add: buf1_def)
  next
    case False
    have "hexdump_loop h (int (length h)) (int (length buf1)) (i + 2) (len + 5) buf1
        = Some (take (len + 5) buf1 @ map Some (hex_text bs @ [0]) @ drop (len + 5 + length (hex_text bs) + 1) buf1)"
      using "3.prems" l1 t5 by (intro "3.IH" [OF drop_step(1) [OF "3.prems"(1)] False]) auto
    moreover have "take (len + 5) buf1 = take len buf @ map Some ?t"
      using fit t5 by (simp add: buf1_def min_def)
    moreover have "drop (len + 5 + length (hex_text bs) + 1) buf1 = drop (len + 5 + length (hex_text bs) + 1) buf"
    proof -
      have "drop (len + 6) buf1 = drop (len + 6) buf" using fit t5 by (simp add: buf1_def hex2_length eval_nat_numeral)
      then have "drop (length (hex_text bs)) (drop (len + 6) buf1) = drop (length (hex_text bs)) (drop (len + 6) buf)" by simp
      then show ?thesis by (simp add: add.commute add.left_commute)
    qed
    moreover have eq: "len + length (hex_text (a # b # bs)) + 1 = len + 5 + length (hex_text bs) + 1" by (simp add: hex2_length)
    ultimately show ?thesis unfolding run eq by simp
  qed
qed simp

lemma hexdump_overrun:
  assumes "drop i h = bs" "bs \<noteq> []" "length buf + 5 < len + length (hex_text bs)" "len + length (hex_text bs) < 2 ^ 31"
  shows "hexdump_loop h (int (length h)) (int (length buf)) i len buf = None"
  using assms
proof (induction bs arbitrary: i len buf rule: hex_text.induct)
  case (2 a)
  then have "length buf < len" "len < 2 ^ 31" "length buf < 2 ^ 31" by (simp_all add: hex2_length)
  then show ?case using hexdump_round [OF 2(1)] snprintf_over by simp
next
  case (3 a b bs)
  show ?case
  proof (cases "length buf < len")
    case True
    then have "len < 2 ^ 31" "length buf < 2 ^ 31" using "3.prems"(4) by simp_all
    then show ?thesis using True hexdump_round [OF "3.prems"(1)] snprintf_over by simp
  next
    case False
    then obtain buf1 where b: "snprintf buf len (word_of_int (int (length buf) - int len)) (hex2 a @ hex2 b @ [32]) = Some (5, buf1)" "length buf1 = length buf"
      using snprintf_length [of len buf "hex2 a @ hex2 b @ [32]"] "3.prems"(3,4) by (auto simp: hex2_length)
    have ne: "bs \<noteq> []" using "3.prems"(3) False by (auto simp: hex2_length)
    have "hexdump_loop h (int (length h)) (int (length buf1)) (i + 2) (len + 5) buf1 = None"
      using "3.prems"(3,4) b(2) by (intro "3.IH" [OF drop_step(1) [OF "3.prems"(1)] ne]) (simp_all add: hex2_length)
    then show ?thesis using hexdump_round [OF "3.prems"(1)] b by simp
  qed
qed simp

section \<open>Printing\<close>

lemma default_print:
  assumes "load (ds_dbgs s) DEFAULT_DBG = Some d" "lg_fp (dg_log d) = NULL" "{STDOUT, STDERR} \<subseteq> set (io_open (ds_io s))"
  shows "ck_dbg_print DEFAULT_DBG level text s =
     (if level < dg_level d then Some (0, s)
      else Some (int (length text), s\<lparr>ds_io := (ds_io s)\<lparr>io_out := io_out (ds_io s) @ [(if level = LOG_LVL_ERR then STDERR else STDOUT, text)]\<rparr>\<rparr>))"
proof (cases "level < dg_level d")
  case True
  then show ?thesis using assms(1) by (simp add: ck_dbg_print_def)
next
  case False
  define fp where "fp = (if level = LOG_LVL_ERR then STDERR else STDOUT)"
  have fp: "fp \<in> set (io_open (ds_io s))" using assms(3) by (simp add: fp_def)
  have d: "d\<lparr>dg_log := (dg_log d)\<lparr>lg_fp := NULL\<rparr>\<rparr> = d" using assms(2) by (cases d; cases "dg_log d") simp
  have nz: "DEFAULT_DBG \<noteq> NULL" by (simp add: DEFAULT_DBG_def)
  have m: "(ds_dbgs s)(DEFAULT_DBG \<mapsto> d) = ds_dbgs s" using load_SomeD [OF assms(1)] by auto
  show ?thesis
    using False assms(1) fp d nz m
    by (simp add: ck_dbg_print_def store_dbg_def ck_log_vprint_def vfprintf_def mem_simps fp_def [symmetric])
qed

text \<open>The default log as the library starts with it, at any level and with both standard streams open, and the log after an error message.\<close>

definition default_log_ready :: "dbg_state \<Rightarrow> bool" where
  "default_log_ready s \<longleftrightarrow> ds_dbg_log s = DEFAULT_DBG \<and> {STDOUT, STDERR} \<subseteq> set (io_open (ds_io s))
     \<and> (case load (ds_dbgs s) DEFAULT_DBG of None \<Rightarrow> False | Some d \<Rightarrow> lg_fp (dg_log d) = NULL)"

definition noted :: "string \<Rightarrow> dbg_state \<Rightarrow> dbg_state" where
  "noted msg d = d\<lparr>ds_io := (ds_io d)\<lparr>io_out := io_out (ds_io d) @ [(STDERR, msg)]\<rparr>\<rparr>"

lemma level_err [simp]: "\<not> LOG_LVL_ERR < l"
  by (cases l) (simp_all add: less_ck_dbg_level_def)

lemma log_error: "default_log_ready d \<Longrightarrow> LOG_at LOG_LVL_ERR msg d = Some (int (length msg), noted msg d)"
  using default_print [of d] by (auto simp: default_log_ready_def LOG_at_def noted_def split: option.splits)

lemma log_closed: "ds_dbg_log d = NULL \<Longrightarrow> LOG_at level msg d = None"
  by (simp add: LOG_at_def ck_dbg_print_def)

section \<open>Properties\<close>

text \<open>
  C40: \<open>hexdump\<close> ends. If the text of the bytes and its final zero fit into the buffer, the buffer holds exactly that text, and
  the rest of it is unchanged. If the text is longer than the buffer by more than one group, the space left becomes negative, is taken
  as a huge unsigned number, and the function writes beyond the buffer.
\<close>

theorem hexdump_correct:
  assumes "data \<noteq> []" "length (hex_text data) < 2 ^ 31" "length buf < 2 ^ 31"
  shows "(length (hex_text data) < length buf \<longrightarrow> hexdump data (int (length data)) buf (int (length buf))
            = Some (map Some (hex_text data @ [0]) @ drop (length (hex_text data) + 1) buf))
     \<and> (length buf + 5 < length (hex_text data) \<longrightarrow> hexdump data (int (length data)) buf (int (length buf)) = None)"
  using hexdump_fits [of 0 data data 0 buf] hexdump_overrun [of 0 data data buf 0] assms by (simp add: hexdump_def)

text \<open>
  \<open>ck_dbg_print\<close> to the default log. A message below the level of the log is dropped; an error goes to the standard error stream
  and any other message to the standard output, in full, and the stream of the default log is null again afterwards.
\<close>

theorem ck_dbg_print_correct:
  assumes "load (ds_dbgs s) DEFAULT_DBG = Some d" "lg_fp (dg_log d) = NULL" "{STDOUT, STDERR} \<subseteq> set (io_open (ds_io s))"
  shows "ck_dbg_print DEFAULT_DBG level text s =
     (if level < dg_level d then Some (0, s)
      else Some (int (length text), s\<lparr>ds_io := (ds_io s)\<lparr>io_out := io_out (ds_io s) @ [(if level = LOG_LVL_ERR then STDERR else STDOUT, text)]\<rparr>\<rparr>))"
  using assms by (rule default_print)

text \<open>
  \<open>ck_dbg_close\<close>. With a null pointer and the default log in use it closes the null stream of the default log, since it compares
  the wrong pointer; closing the default log by its address leaves \<^verbatim>\<open>dbg_log\<close> null, so that the next message faults.
\<close>

theorem ck_dbg_close_default:
  assumes "load (ds_dbgs s) DEFAULT_DBG = Some d" "lg_fp (dg_log d) = NULL" "NULL \<notin> set (io_open (ds_io s))" "ds_dbg_log s = DEFAULT_DBG"
  shows "ck_dbg_close NULL s = None
     \<and> (\<exists>s'. ck_dbg_close DEFAULT_DBG s = Some s' \<and> ds_dbg_log s' = NULL \<and> LOG_at level text s' = None)"
  using assms by (simp add: ck_dbg_close_def ck_log_close_def fclose_def LOG_at_def ck_dbg_print_def DEFAULT_DBG_def)

text \<open>
  The synchronous mode is set but has no effect: whatever the mode of a log, \<open>ck_dbg_print\<close> flushes nothing, since
  it prints with \<open>ck_log_vprint\<close>, and only \<open>ck_log_print\<close> looks at the flag.
\<close>

theorem ck_dbg_sync_without_effect:
  assumes "ck_dbg_set_sync_mode dbg s = Some s1" "ck_dbg_print dbg level text s1 = Some (ret, s2)"
  shows "(\<forall>d. load (ds_dbgs s1) dbg = Some d \<longrightarrow> ck_log_check_flag (dg_log d) CK_LOG_F_SYNC)
     \<and> io_flushed (ds_io s2) = io_flushed (ds_io s)"
proof -
  obtain d where d: "load (ds_dbgs s) dbg = Some d" "s1 = s\<lparr>ds_dbgs := (ds_dbgs s)(dbg \<mapsto> d\<lparr>dg_log := ck_log_set_flag (dg_log d) CK_LOG_F_SYNC\<rparr>)\<rparr>"
    using assms(1) by (auto simp: ck_dbg_set_sync_mode_def store_dbg_def bind_eq_Some_conv dest: store_eq_SomeD)
  have "(lg_flags (dg_log d) OR ucast CK_LOG_F_SYNC) AND ucast CK_LOG_F_SYNC = (ucast CK_LOG_F_SYNC :: u32)"
    by (rule bit_eqI) (auto simp: bit_simps)
  then have "ck_log_check_flag (ck_log_set_flag (dg_log d) CK_LOG_F_SYNC) CK_LOG_F_SYNC"
    by (simp add: ck_log_check_flag_def ck_log_set_flag_def CK_LOG_F_SYNC_def)
  moreover have "io_flushed (ds_io s2) = io_flushed (ds_io s1)"
    using assms(2) by (auto simp: ck_dbg_print_def store_dbg_def ck_log_vprint_def vfprintf_def bind_eq_Some_conv Let_def split: if_splits)
  ultimately show ?thesis using d load_SomeD [OF d(1)] by (simp add: load_def)
qed

text \<open>
  A flag set is found, a flag unset is not, and the other flags stay.
\<close>

theorem ck_log_flags:
  assumes "f \<noteq> 0" "g AND f = 0"
  shows "ck_log_check_flag (ck_log_set_flag log f) f \<and> \<not> ck_log_check_flag (ck_log_unset_flag log f) f
     \<and> ck_log_check_flag (ck_log_set_flag log f) g = ck_log_check_flag log g
     \<and> ck_log_check_flag (ck_log_unset_flag log f) g = ck_log_check_flag log g"
proof -
  define l F G :: u32 where "l = lg_flags log" and "F = ucast f" and "G = ucast g"
  obtain n where n: "bit f n" using assms(1) bit_eq_iff [of f 0] by auto
  then have "n < 8" using bit_imp_le_length [of f n] by simp
  then have "bit F n" using n by (simp add: F_def bit_ucast_iff)
  then have F: "F \<noteq> 0" by auto
  have GF: "G AND F = 0" using assms(2) by (simp add: F_def G_def unsigned_and_eq [symmetric])
  have "(l OR F) AND F = F" by (rule bit_eqI) (auto simp: bit_simps)
  moreover have "(l AND NOT F) AND F = 0" by (rule bit_eqI) (auto simp: bit_simps)
  moreover have GFn: "\<not> (bit G n \<and> bit F n)" for n using GF by (metis bit_and_iff bit_0_eq bot_apply bot_bool_def)
  have "(l OR F) AND G = l AND G" using GFn by (intro bit_eqI) (auto simp: bit_simps)
  moreover have "(l AND NOT F) AND G = l AND G" using GFn by (intro bit_eqI) (auto simp: bit_simps)
  ultimately show ?thesis
    using F by (simp add: ck_log_check_flag_def ck_log_set_flag_def ck_log_unset_flag_def word_gt_0 flip: l_def F_def G_def)
qed

subsection \<open>Examples\<close>

theorem hexdump_correct_witness:
  "hexdump [0xAB, 0x01, 0xFF] 3 (replicate 12 None) 12
     = Some (map Some [97, 98, 48, 49, 32, 102, 102, 48, 48, 32, 0] @ [None])
   \<and> hexdump [0xAB, 0x01, 0xFF] 3 (replicate 4 None) 4 = None"
proof -
  have t: "hex_text [0xAB, 0x01, 0xFF] = [97, 98, 48, 49, 32, 102, 102, 48, 48, 32]"
    by (simp add: hex2_def hex_digit_def)
  then have l: "length (hex_text [0xAB, 0x01, 0xFF]) = 10" by (simp add: hex2_length)
  have "hexdump [0xAB, 0x01, 0xFF] (int (length [0xAB, 0x01, 0xFF :: u8])) (replicate 12 None) (int (length (replicate 12 (None :: u8 option))))
      = Some (map Some (hex_text [0xAB, 0x01, 0xFF] @ [0]) @ drop (length (hex_text [0xAB, 0x01, 0xFF]) + 1) (replicate 12 None))"
    by (rule hexdump_correct [THEN conjunct1, THEN mp]) (simp_all add: l del: hex_text.simps)
  moreover have "hexdump [0xAB, 0x01, 0xFF] (int (length [0xAB, 0x01, 0xFF :: u8])) (replicate 4 None) (int (length (replicate 4 (None :: u8 option)))) = None"
    by (rule hexdump_correct [THEN conjunct2, THEN mp]) (simp_all add: l del: hex_text.simps)
  ultimately show ?thesis
    unfolding l unfolding t by (simp add: drop_replicate)
qed

definition example_dbg :: dbg_state where
  "example_dbg = \<lparr>ds_dbgs = [DEFAULT_DBG \<mapsto> default_dbg], ds_dbg_log = DEFAULT_DBG, ds_io = \<lparr>io_open = [STDOUT, STDERR], io_out = [], io_flushed = []\<rparr>\<rparr>"

lemma example_dbg_facts:
  "load (ds_dbgs example_dbg) DEFAULT_DBG = Some default_dbg" "lg_fp (dg_log default_dbg) = NULL"
  "{STDOUT, STDERR} \<subseteq> set (io_open (ds_io example_dbg))" "io_out (ds_io example_dbg) = []"
  by (simp_all add: example_dbg_def default_dbg_def load_def DEFAULT_DBG_def)

theorem ck_dbg_print_correct_witness:
  "ck_dbg_print DEFAULT_DBG LOG_LVL_VERB ''x'' example_dbg = Some (0, example_dbg)
   \<and> map_option (\<lambda>(n, s). (n, io_out (ds_io s))) (ck_dbg_print DEFAULT_DBG LOG_LVL_ERR ''bad'' example_dbg) = Some (3, [(STDERR, ''bad'')])"
  using ck_dbg_print_correct [OF example_dbg_facts(1-3), of LOG_LVL_VERB "''x''"] ck_dbg_print_correct [OF example_dbg_facts(1-3), of LOG_LVL_ERR "''bad''"]
    example_dbg_facts(4) by (simp add: less_ck_dbg_level_def default_dbg_def)

end
