(* ===== verification/Ckit_Event.thy ===== *)
theory Ckit_Event
  imports Ckit_Time Ckit_Debug
begin

text \<open>
  \<^verbatim>\<open>include/ckit/event.h\<close> with its two implementations, \<^verbatim>\<open>src/event_epoll.c\<close> and \<^verbatim>\<open>src/event_kqueue.c\<close>:
  the translation between the library's events and those of the kernel.

  The kernel is not part of the library. Its constants are a record of masks and its calls are arguments: functions on
  a state of the process, which has the error number, the debug log and a state of the kernel of a type of its own. A call that
  fails is reported to the debug log.
\<close>

unbundle bit_operations_syntax

section \<open>Definitions\<close>

datatype event_ctl_t = EVENT_CTL_ADD | EVENT_CTL_DEL | EVENT_CTL_MOD

text \<open>The union \<^verbatim>\<open>event_data\<close> is its eight bytes; the members \<^verbatim>\<open>fd\<close> and \<^verbatim>\<open>u32\<close> are the low four of them.\<close>

type_synonym event_data = u64

definition data_set_fd :: "event_data \<Rightarrow> u32 \<Rightarrow> event_data" where
  "data_set_fd d fd = push_bit 32 (drop_bit 32 d) OR ucast fd"

definition data_set_ptr :: "event_data \<Rightarrow> u64 \<Rightarrow> event_data" where
  "data_set_ptr d p = p"

record event =
  ev_events :: u32
  ev_data :: event_data

record 'k sys =
  sy_errno :: int
  sy_dbg :: dbg_state
  sy_kernel :: 'k

text \<open>\<open>msg e\<close> is the line printed for the error number \<open>e\<close>, with the time, the level and the name of the function.\<close>

definition LOG_ERR :: "(int \<Rightarrow> string) \<Rightarrow> 'k sys \<Rightarrow> 'k sys option" where
  "LOG_ERR msg k = do { (_, d) \<leftarrow> LOG_at LOG_LVL_ERR (msg (sy_errno k)) (sy_dbg k); Some (k\<lparr>sy_dbg := d\<rparr>) }"

definition event_close :: "(int \<Rightarrow> 'k sys \<Rightarrow> int \<times> 'k sys) \<Rightarrow> int \<Rightarrow> 'k sys \<Rightarrow> 'k sys" where
  "event_close close efd k = snd (close efd k)"

definition EVENT_IN :: u32 where "EVENT_IN = push_bit 0 1"
definition EVENT_OUT :: u32 where "EVENT_OUT = push_bit 1 1"
definition EVENT_HUP :: u32 where "EVENT_HUP = push_bit 2 1"
definition EVENT_RDHUP :: u32 where "EVENT_RDHUP = push_bit 3 1"
definition EVENT_ET :: u32 where "EVENT_ET = push_bit 10 1"
definition EVENT_ONESHOT :: u32 where "EVENT_ONESHOT = push_bit 11 1"

subsection \<open>epoll\<close>

record epoll_consts =
  EPOLLIN :: u32
  EPOLLOUT :: u32
  EPOLLHUP :: u32
  EPOLLRDHUP :: u32
  EPOLLET :: u32
  EPOLLONESHOT :: u32
  EPOLL_CTL_ADD :: u32
  EPOLL_CTL_DEL :: u32
  EPOLL_CTL_MOD :: u32
  EINTR :: int

record epoll_event =
  ee_events :: u32
  ee_data :: u64

definition epoll_cmd :: "epoll_consts \<Rightarrow> event_ctl_t \<Rightarrow> u32" where
  "epoll_cmd C ctl = (case ctl of EVENT_CTL_ADD \<Rightarrow> EPOLL_CTL_ADD C | EVENT_CTL_MOD \<Rightarrow> EPOLL_CTL_MOD C | EVENT_CTL_DEL \<Rightarrow> EPOLL_CTL_DEL C)"

definition event_to_epoll_event :: "epoll_consts \<Rightarrow> event \<Rightarrow> epoll_event" where
  "event_to_epoll_event C ev =
     (let e = ev_events ev;
          w = 0;
          w = (if e AND EVENT_IN \<noteq> 0 then w OR EPOLLIN C else w);
          w = (if e AND EVENT_OUT \<noteq> 0 then w OR EPOLLOUT C else w);
          w = (if e AND EVENT_HUP \<noteq> 0 then w OR EPOLLHUP C else w);
          w = (if e AND EVENT_RDHUP \<noteq> 0 then w OR EPOLLRDHUP C else w);
          w = (if e AND EVENT_ET \<noteq> 0 then w OR EPOLLET C else w);
          w = (if e AND EVENT_ONESHOT \<noteq> 0 then w OR EPOLLONESHOT C else w)
      in \<lparr>ee_events = w, ee_data = ev_data ev\<rparr>)"

definition epoll_event_to_event :: "epoll_consts \<Rightarrow> epoll_event \<Rightarrow> event" where
  "epoll_event_to_event C eev =
     (let e = ee_events eev;
          w = 0;
          w = (if e AND EPOLLIN C \<noteq> 0 then w OR EVENT_IN else w);
          w = (if e AND EPOLLOUT C \<noteq> 0 then w OR EVENT_OUT else w);
          w = (if e AND EPOLLHUP C \<noteq> 0 then w OR EVENT_HUP else w);
          w = (if e AND EPOLLRDHUP C \<noteq> 0 then w OR EVENT_RDHUP else w);
          w = (if e AND EPOLLET C \<noteq> 0 then w OR EVENT_ET else w);
          w = (if e AND EPOLLONESHOT C \<noteq> 0 then w OR EVENT_ONESHOT else w)
      in \<lparr>ev_events = w, ev_data = ee_data eev\<rparr>)"

definition event_open_epoll :: "(int \<Rightarrow> 'k sys \<Rightarrow> int \<times> 'k sys) \<Rightarrow> 'k sys \<Rightarrow> int \<times> 'k sys" where
  "event_open_epoll epoll_create k = epoll_create 10 k"

text \<open>\<open>epoll_ctl efd cmd fd eev k\<close> gives the result and the new state.\<close>

definition event_ctl_epoll ::
  "epoll_consts \<Rightarrow> (int \<Rightarrow> u32 \<Rightarrow> int \<Rightarrow> epoll_event \<Rightarrow> 'k sys \<Rightarrow> int \<times> 'k sys) \<Rightarrow> (int \<Rightarrow> string)
     \<Rightarrow> int \<Rightarrow> event_ctl_t \<Rightarrow> int \<Rightarrow> event \<Rightarrow> 'k sys \<Rightarrow> (int \<times> 'k sys) option" where
  "event_ctl_epoll C epoll_ctl msg efd ctl fd ev k = do {
     let eev = event_to_epoll_event C ev;
     let (ret, k) = epoll_ctl efd (epoll_cmd C ctl) fd eev k;
     k \<leftarrow> (if ret = -1 then LOG_ERR msg k else Some k);
     Some (ret, k)
   }"

text \<open>
  \<open>epoll_wait efd maxevents timeout k\<close> gives the result, the events it wrote and the new state. An array of no elements is undefined.
\<close>

definition event_wait_epoll ::
  "epoll_consts \<Rightarrow> (int \<Rightarrow> int \<Rightarrow> int \<Rightarrow> 'k sys \<Rightarrow> int \<times> epoll_event list \<times> 'k sys) \<Rightarrow> (int \<Rightarrow> string)
     \<Rightarrow> int \<Rightarrow> event arr \<Rightarrow> int \<Rightarrow> int \<Rightarrow> 'k sys \<Rightarrow> (int \<times> event arr \<times> 'k sys) option" where
  "event_wait_epoll C epoll_wait msg efd events maxevents timeout k =
     (if maxevents \<le> 0 then None
      else do {
        let (ret, eevs, k) = epoll_wait efd maxevents timeout k;
        if ret = -1 then do {
          k \<leftarrow> (if sy_errno k \<noteq> EINTR C then LOG_ERR msg k else Some k);
          Some (ret, events, k)
        } else if ret > 0 then do {
          events \<leftarrow> for_each (\<lambda>i evs. do {
            eev \<leftarrow> (if i < length eevs then Some (eevs ! i) else None);
            awrite evs i (epoll_event_to_event C eev)
          }) [0..<nat ret] events;
          Some (ret, events, k)
        } else Some (ret, events, k)
      })"

subsection \<open>kqueue\<close>

record kqueue_consts =
  EV_ADD :: "16 word"
  EV_DELETE :: "16 word"
  EV_ONESHOT :: "16 word"
  EV_EOF :: "16 word"
  EV_ERROR :: "16 word"
  EVFILT_READ :: int
  EVFILT_WRITE :: int

record kevent =
  ke_ident :: u64
  ke_filter :: int
  ke_flags :: "16 word"
  ke_fflags :: u32
  ke_data :: s64
  ke_udata :: u64

definition kevent_flags :: "kqueue_consts \<Rightarrow> event_ctl_t \<Rightarrow> event \<Rightarrow> 16 word" where
  "kevent_flags C ctl ev =
     (let flags = (case ctl of EVENT_CTL_ADD \<Rightarrow> 0 OR EV_ADD C | EVENT_CTL_MOD \<Rightarrow> 0 OR EV_ADD C | EVENT_CTL_DEL \<Rightarrow> 0 OR EV_DELETE C)
      in if ev_events ev AND EVENT_ONESHOT \<noteq> 0 then flags OR EV_ONESHOT C else flags)"

definition kevent_to_event :: "kqueue_consts \<Rightarrow> kevent \<Rightarrow> event" where
  "kevent_to_event C kev =
     (let w = 0;
          w = (if ke_filter kev = EVFILT_READ C then w OR EVENT_IN else w);
          w = (if ke_filter kev = EVFILT_WRITE C then w OR EVENT_OUT else w);
          w = (if ke_flags kev AND EV_EOF C \<noteq> 0 then w OR EVENT_RDHUP else w);
          d = data_set_fd 0 (ucast (ke_ident kev));
          d = data_set_ptr d (ke_udata kev)
      in \<lparr>ev_events = w, ev_data = d\<rparr>)"

definition EV_SET :: "int \<Rightarrow> int \<Rightarrow> 16 word \<Rightarrow> u64 \<Rightarrow> kevent" where
  "EV_SET fd filt flags udata =
     \<lparr>ke_ident = word_of_int fd, ke_filter = filt, ke_flags = flags, ke_fflags = 0, ke_data = 0, ke_udata = udata\<rparr>"

text \<open>The list of changes that \<^verbatim>\<open>event_ctl\<close> hands to \<^verbatim>\<open>kevent\<close>.\<close>

definition kevent_changes :: "kqueue_consts \<Rightarrow> event_ctl_t \<Rightarrow> int \<Rightarrow> event \<Rightarrow> kevent list" where
  "kevent_changes C ctl fd ev =
     (let kev = [];
          kev = (if ev_events ev AND EVENT_IN \<noteq> 0 then kev @ [EV_SET fd (EVFILT_READ C) (kevent_flags C ctl ev) (ev_data ev)] else kev);
          kev = (if ev_events ev AND EVENT_OUT \<noteq> 0 then kev @ [EV_SET fd (EVFILT_WRITE C) (kevent_flags C ctl ev) (ev_data ev)] else kev)
      in kev)"

text \<open>
  \<open>kevent efd changes maxevents timeout k\<close>: the timeout is \<open>None\<close> for a null pointer; the result is the number returned, the events
  written and the new state.
\<close>

type_synonym 'k kevent_call = "int \<Rightarrow> kevent list \<Rightarrow> int \<Rightarrow> timespec option \<Rightarrow> 'k sys \<Rightarrow> int \<times> kevent list \<times> 'k sys"

definition event_open_kqueue :: "('k sys \<Rightarrow> int \<times> 'k sys) \<Rightarrow> 'k sys \<Rightarrow> int \<times> 'k sys" where
  "event_open_kqueue kqueue k = kqueue k"

definition event_close_kqueue :: "(int \<Rightarrow> 'k sys \<Rightarrow> int \<times> 'k sys) \<Rightarrow> int \<Rightarrow> 'k sys \<Rightarrow> 'k sys" where
  "event_close_kqueue close efd k = snd (close efd k)"

definition event_ctl_kqueue :: "kqueue_consts \<Rightarrow> 'k kevent_call \<Rightarrow> int \<Rightarrow> event_ctl_t \<Rightarrow> int \<Rightarrow> event \<Rightarrow> 'k sys \<Rightarrow> int \<times> 'k sys" where
  "event_ctl_kqueue C kevent efd ctl fd ev k = (let (ret, _, k) = kevent efd (kevent_changes C ctl fd ev) 0 None k in (ret, k))"

text \<open>The pointer \<^verbatim>\<open>ts_ptr\<close>, as the timeout it points to; \<open>None\<close> is the null pointer. The computation of the timeout might overflow.\<close>

definition kqueue_timeout :: "s32 \<Rightarrow> timespec option option" where
  "kqueue_timeout timeout = do {
     nsec \<leftarrow> fit (sint timeout * 1000000);
     ts \<leftarrow> timespec_add_nsec \<lparr>tv_sec = 0, tv_nsec = 0\<rparr> nsec;
     Some (if timeout = -1 then None else Some ts)
   }"

text \<open>
  The loop over the events delivered; it ends the function at the first error event, whose code goes to \<^verbatim>\<open>errno\<close>. The code is an \<^verbatim>\<open>intptr_t\<close> and is
  cut to the low 32 bits of \<^verbatim>\<open>int\<close>.
\<close>

definition errno_code :: "s64 \<Rightarrow> int" where
  "errno_code d = sint (ucast d :: s32)"

fun kqueue_fill :: "kqueue_consts \<Rightarrow> nat \<Rightarrow> kevent list \<Rightarrow> event arr \<Rightarrow> (int option \<times> event arr) option" where
  "kqueue_fill C i [] events = Some (None, events)"
| "kqueue_fill C i (kev # kevs) events =
     (if ke_flags kev AND EV_ERROR C \<noteq> 0 then Some (Some (errno_code (ke_data kev)), events)
      else do {
        events \<leftarrow> awrite events i (kevent_to_event C kev);
        kqueue_fill C (i + 1) kevs events
      })"

definition event_wait_kqueue ::
  "kqueue_consts \<Rightarrow> 'k kevent_call \<Rightarrow> (int \<Rightarrow> string) \<Rightarrow> int \<Rightarrow> event arr \<Rightarrow> int \<Rightarrow> s32 \<Rightarrow> 'k sys
     \<Rightarrow> (int \<times> event arr \<times> 'k sys) option" where
  "event_wait_kqueue C kevent msg efd events maxevents timeout k =
     (if maxevents \<le> 0 then None
      else do {
        ts_ptr \<leftarrow> kqueue_timeout timeout;
        let (ret, kevs, k) = kevent efd [] maxevents ts_ptr k;
        if ret = -1 then do { k \<leftarrow> LOG_ERR msg k; Some (ret, events, k) }
        else if ret > 0 then
          if nat ret > length kevs then None
          else do {
            (err, events) \<leftarrow> kqueue_fill C 0 (take (nat ret) kevs) events;
            Some (case err of None \<Rightarrow> (ret, events, k) | Some e \<Rightarrow> (-1, events, k\<lparr>sy_errno := e\<rparr>))
          }
        else Some (ret, events, k)
      })"

section \<open>Translating flags\<close>

text \<open>A translation of flags, one pair of masks after the other.\<close>

fun flags_to :: "(u32 \<times> u32) list \<Rightarrow> u32 \<Rightarrow> u32 \<Rightarrow> u32" where
  "flags_to [] e w = w"
| "flags_to ((a, b) # ps) e w = flags_to ps e (if e AND a \<noteq> 0 then w OR b else w)"

definition bit_pairs :: "(nat \<times> nat) list \<Rightarrow> (u32 \<times> u32) list" where
  "bit_pairs ps = map (\<lambda>(i, j). (push_bit i 1, push_bit j 1)) ps"

fun known_bits :: "(nat \<times> nat) list \<Rightarrow> u32" where
  "known_bits [] = 0"
| "known_bits ((i, j) # ps) = push_bit i 1 OR known_bits ps"

lemma bit_pow: "bit (2 ^ i :: u32) n \<longleftrightarrow> n = i \<and> i < 32"
  by (auto simp: bit_exp_iff)

lemma single_bit: "i < 32 \<Longrightarrow> (e :: u32) AND push_bit i 1 \<noteq> 0 \<longleftrightarrow> bit e i"
proof
  assume i: "i < 32" and "e AND push_bit i 1 \<noteq> 0"
  then obtain n where "bit (e AND push_bit i 1) n" using bit_eq_iff [of "e AND push_bit i 1" 0] by auto
  then show "bit e i" by (auto simp: bit_and_iff bit_pow)
next
  assume i: "i < 32" and "bit e i"
  then have "bit (e AND push_bit i 1) i" by (simp add: bit_and_iff bit_pow)
  then show "e AND push_bit i 1 \<noteq> 0" by (metis bit_0_eq bot_apply bot_bool_def)
qed

lemma bit_flags_to:
  "\<forall>(i, j) \<in> set ps. i < 32 \<and> j < 32 \<Longrightarrow> bit (flags_to (bit_pairs ps) e w) n \<longleftrightarrow> bit w n \<or> (\<exists>i. (i, n) \<in> set ps \<and> bit e i)"
proof (induction ps arbitrary: w)
  case (Cons p ps)
  obtain i j where p: "p = (i, j)" by (cases p)
  then have ij: "i < 32" "j < 32" using Cons.prems by auto
  have "bit (flags_to (bit_pairs (p # ps)) e w) n \<longleftrightarrow> bit (if bit e i then w OR push_bit j 1 else w) n \<or> (\<exists>i. (i, n) \<in> set ps \<and> bit e i)"
    using Cons.IH Cons.prems single_bit [OF ij(1), of e] by (simp add: bit_pairs_def p)
  also have "\<dots> \<longleftrightarrow> bit w n \<or> (\<exists>i. (i, n) \<in> set (p # ps) \<and> bit e i)"
    using ij by (auto simp: p bit_or_iff bit_pow)
  finally show ?case .
qed (simp add: bit_pairs_def)

lemma bit_known: "\<forall>(i, j) \<in> set ps. i < 32 \<Longrightarrow> bit (known_bits ps) n \<longleftrightarrow> n \<in> fst ` set ps"
  by (induction ps) (auto simp: bit_or_iff bit_pow image_iff)

definition swapped :: "(nat \<times> nat) list \<Rightarrow> (nat \<times> nat) list" where
  "swapped ps = map (\<lambda>(i, j). (j, i)) ps"

text \<open>A coding: every flag has one bit on either side.\<close>

locale flag_coding =
  fixes ps :: "(nat \<times> nat) list"
  assumes single: "distinct (map fst ps)" "distinct (map snd ps)" and small: "\<forall>(i, j) \<in> set ps. i < 32 \<and> j < 32"
begin

lemma other_side: "(i, j) \<in> set ps \<Longrightarrow> (i', j) \<in> set ps \<Longrightarrow> i' = i"
  using single(2) by (metis distinct_map inj_on_contraD prod.inject snd_conv)

lemma round_trip: "flags_to (bit_pairs (swapped ps)) (flags_to (bit_pairs ps) e 0) 0 = e AND known_bits ps"
proof (rule bit_eqI)
  fix n
  have sw: "\<forall>(i, j) \<in> set (swapped ps). i < 32 \<and> j < 32" using small by (auto simp: swapped_def)
  have in_sw: "(j, n) \<in> set (swapped ps) \<longleftrightarrow> (n, j) \<in> set ps" for j by (auto simp: swapped_def)
  have "bit (flags_to (bit_pairs (swapped ps)) (flags_to (bit_pairs ps) e 0) 0) n
      \<longleftrightarrow> (\<exists>j. (n, j) \<in> set ps \<and> (\<exists>i. (i, j) \<in> set ps \<and> bit e i))"
    using bit_flags_to [OF sw] bit_flags_to [OF small] in_sw by simp
  also have "\<dots> \<longleftrightarrow> bit e n \<and> n \<in> fst ` set ps"
  proof
    assume "\<exists>j. (n, j) \<in> set ps \<and> (\<exists>i. (i, j) \<in> set ps \<and> bit e i)"
    then show "bit e n \<and> n \<in> fst ` set ps" using other_side by (metis fst_conv image_eqI)
  next
    assume a: "bit e n \<and> n \<in> fst ` set ps"
    then obtain j where "(n, j) \<in> set ps" by auto
    with a show "\<exists>j. (n, j) \<in> set ps \<and> (\<exists>i. (i, j) \<in> set ps \<and> bit e i)" by blast
  qed
  also have "\<dots> \<longleftrightarrow> bit (e AND known_bits ps) n"
    using bit_known [of ps n] small by (auto simp: bit_and_iff)
  finally show "bit (flags_to (bit_pairs (swapped ps)) (flags_to (bit_pairs ps) e 0) 0) n = bit (e AND known_bits ps) n" .
qed

lemma swapped_coding: "flag_coding (swapped ps)"
  using single small by unfold_locales (auto simp: swapped_def split_def o_def)

end

text \<open>The positions of the library's flags, with those of the kernel's.\<close>

definition event_positions :: "nat list \<Rightarrow> (nat \<times> nat) list" where
  "event_positions js = zip [0, 1, 2, 3, 10, 11] js"

definition epoll_masks :: "epoll_consts \<Rightarrow> u32 list" where
  "epoll_masks C = [EPOLLIN C, EPOLLOUT C, EPOLLHUP C, EPOLLRDHUP C, EPOLLET C, EPOLLONESHOT C]"

text \<open>What is documented of the masks: each of the six is one bit, and no two are the same.\<close>

definition masks_at :: "epoll_consts \<Rightarrow> nat list \<Rightarrow> bool" where
  "masks_at C js \<longleftrightarrow> epoll_masks C = map (\<lambda>j. push_bit j 1) js \<and> length js = 6 \<and> distinct js \<and> (\<forall>j \<in> set js. j < 32)"

lemma six_elements:
  assumes "length js = 6"
  obtains a b c d e f where "js = [a, b, c, d, e, f]"
proof -
  have "js = [js ! 0, js ! 1, js ! 2, js ! 3, js ! 4, js ! 5]"
    using assms by (intro nth_equalityI) (auto simp: less_Suc_eq numeral_eq_Suc)
  then show thesis by (rule that)
qed

lemma masks_coding:
  assumes "masks_at C js"
  shows "flag_coding (event_positions js)"
proof
  have l: "length js = 6" "distinct js" "\<forall>j \<in> set js. j < 32" using assms by (simp_all add: masks_at_def)
  show "distinct (map fst (event_positions js))" "distinct (map snd (event_positions js))"
    using l by (simp_all add: event_positions_def)
  show "\<forall>(i, j) \<in> set (event_positions js). i < 32 \<and> j < 32"
    using l by (elim six_elements) (simp add: event_positions_def)
qed

lemma to_epoll_flags:
  assumes "masks_at C js"
  shows "ee_events (event_to_epoll_event C ev) = flags_to (bit_pairs (event_positions js)) (ev_events ev) 0"
    "ev_events (epoll_event_to_event C eev) = flags_to (bit_pairs (swapped (event_positions js))) (ee_events eev) 0"
proof -
  have "length js = 6" using assms by (simp add: masks_at_def)
  then obtain a b c d e f where js: "js = [a, b, c, d, e, f]" by (rule six_elements)
  have m: "EPOLLIN C = push_bit a 1" "EPOLLOUT C = push_bit b 1" "EPOLLHUP C = push_bit c 1" "EPOLLRDHUP C = push_bit d 1"
    "EPOLLET C = push_bit e 1" "EPOLLONESHOT C = push_bit f 1"
    using assms by (simp_all add: masks_at_def epoll_masks_def js)
  have p: "bit_pairs (event_positions js) = [(EVENT_IN, EPOLLIN C), (EVENT_OUT, EPOLLOUT C), (EVENT_HUP, EPOLLHUP C),
      (EVENT_RDHUP, EPOLLRDHUP C), (EVENT_ET, EPOLLET C), (EVENT_ONESHOT, EPOLLONESHOT C)]"
    by (simp add: bit_pairs_def event_positions_def js m EVENT_IN_def EVENT_OUT_def EVENT_HUP_def EVENT_RDHUP_def EVENT_ET_def EVENT_ONESHOT_def)
  have q: "bit_pairs (swapped (event_positions js)) = [(EPOLLIN C, EVENT_IN), (EPOLLOUT C, EVENT_OUT), (EPOLLHUP C, EVENT_HUP),
      (EPOLLRDHUP C, EVENT_RDHUP), (EPOLLET C, EVENT_ET), (EPOLLONESHOT C, EVENT_ONESHOT)]"
    by (simp add: bit_pairs_def swapped_def event_positions_def js m EVENT_IN_def EVENT_OUT_def EVENT_HUP_def EVENT_RDHUP_def EVENT_ET_def
        EVENT_ONESHOT_def)
  show "ee_events (event_to_epoll_event C ev) = flags_to (bit_pairs (event_positions js)) (ev_events ev) 0"
    unfolding p event_to_epoll_event_def Let_def by (simp only: flags_to.simps epoll_event.simps)
  show "ev_events (epoll_event_to_event C eev) = flags_to (bit_pairs (swapped (event_positions js))) (ee_events eev) 0"
    unfolding q epoll_event_to_event_def Let_def by (simp only: flags_to.simps event.simps)
qed

text \<open>The values of Linux.\<close>

definition linux_epoll :: epoll_consts where
  "linux_epoll = \<lparr>EPOLLIN = 0x1, EPOLLOUT = 0x4, EPOLLHUP = 0x10, EPOLLRDHUP = 0x2000, EPOLLET = 0x80000000, EPOLLONESHOT = 0x40000000,
     EPOLL_CTL_ADD = 1, EPOLL_CTL_DEL = 2, EPOLL_CTL_MOD = 3, EINTR = 4\<rparr>"

lemma linux_masks: "masks_at linux_epoll [0, 2, 4, 13, 31, 30]"
  by (simp add: masks_at_def epoll_masks_def linux_epoll_def push_bit_eq_mult)

interpretation lx: flag_coding "event_positions [0, 2, 4, 13, 31, 30]"
  by (rule masks_coding [OF linux_masks])

section \<open>Delivering events\<close>

lemma fill_epoll:
  assumes "n \<le> length eevs" "n \<le> length events"
  shows "for_each (\<lambda>i evs. do {
      eev \<leftarrow> (if i < length eevs then Some (eevs ! i) else None);
      awrite evs i (epoll_event_to_event C eev) }) [0..<n] events
    = Some (map (\<lambda>e. Some (epoll_event_to_event C e)) (take n eevs) @ drop n events)"
  using assms
proof (induction n)
  case (Suc n)
  let ?p = "map (\<lambda>e. Some (epoll_event_to_event C e)) (take n eevs)"
  have l: "length ?p = n" using Suc.prems by simp
  have "drop n events = events ! n # drop (Suc n) events" using Suc.prems by (simp add: Cons_nth_drop_Suc)
  then have "(?p @ drop n events)[n := Some (epoll_event_to_event C (eevs ! n))]
      = (?p @ [Some (epoll_event_to_event C (eevs ! n))]) @ drop (Suc n) events"
    using l by (simp add: list_update_append)
  moreover have "n < length (?p @ drop n events)" using Suc.prems by simp
  ultimately show ?case
    using Suc by (simp add: for_each_append arr_simps take_Suc_conv_app_nth)
qed simp

text \<open>The events before the first error.\<close>

definition kqueue_good :: "kqueue_consts \<Rightarrow> kevent list \<Rightarrow> kevent list" where
  "kqueue_good C kevs = takeWhile (\<lambda>k. ke_flags k AND EV_ERROR C = 0) kevs"

definition kqueue_failed :: "kqueue_consts \<Rightarrow> kevent list \<Rightarrow> int option" where
  "kqueue_failed C kevs = map_option (\<lambda>k. errno_code (ke_data k)) (find (\<lambda>k. ke_flags k AND EV_ERROR C \<noteq> 0) kevs)"

lemma fill_kqueue:
  assumes "i + length kevs \<le> length events"
  shows "kqueue_fill C i kevs events = Some (kqueue_failed C kevs,
     take i events @ map (\<lambda>k. Some (kevent_to_event C k)) (kqueue_good C kevs) @ drop (i + length (kqueue_good C kevs)) events)"
  using assms
proof (induction kevs arbitrary: i events)
  case (Cons k kevs)
  show ?case
  proof (cases "ke_flags k AND EV_ERROR C = 0")
    case True
    let ?e = "Some (kevent_to_event C k)"
    have i: "i < length events" using Cons.prems by simp
    then have t: "take (Suc i) (events[i := ?e]) = take i events @ [?e]"
      by (simp add: take_Suc_conv_app_nth)
    show ?thesis
      using True Cons.IH [of "i + 1" "events[i := ?e]"] Cons.prems i t
      by (simp add: awrite_def kqueue_failed_def kqueue_good_def)
  qed (simp add: kqueue_failed_def kqueue_good_def)
qed (simp add: kqueue_failed_def kqueue_good_def)

section \<open>Reporting errors\<close>

definition error_logged :: "string \<Rightarrow> 'k sys \<Rightarrow> 'k sys" where
  "error_logged text k = k\<lparr>sy_dbg := (sy_dbg k)\<lparr>ds_io := (ds_io (sy_dbg k))\<lparr>io_out := io_out (ds_io (sy_dbg k)) @ [(STDERR, text)]\<rparr>\<rparr>\<rparr>"

lemma LOG_ERR_prints:
  assumes "default_log_ready (sy_dbg k)"
  shows "LOG_ERR msg k = Some (error_logged (msg (sy_errno k)) k)"
  using log_error [OF assms] by (simp add: LOG_ERR_def error_logged_def noted_def)

section \<open>Properties\<close>

text \<open>
  C38: With six distinct single-bit masks the translation to epoll and back keeps the six flags of the library and the data and
  drops unknown bits, and so does the translation from epoll and back.
\<close>

theorem event_epoll_roundtrip:
  assumes "masks_at C js"
  shows "epoll_event_to_event C (event_to_epoll_event C ev) = ev\<lparr>ev_events := ev_events ev AND 0xC0F\<rparr>
     \<and> event_to_epoll_event C (epoll_event_to_event C eev)
       = eev\<lparr>ee_events := ee_events eev AND (EPOLLIN C OR EPOLLOUT C OR EPOLLHUP C OR EPOLLRDHUP C OR EPOLLET C OR EPOLLONESHOT C)\<rparr>"
proof -
  note fl = to_epoll_flags [OF assms] and co = masks_coding [OF assms]
  have "length js = 6" using assms by (simp add: masks_at_def)
  then obtain a b c d e f where js: "js = [a, b, c, d, e, f]" by (rule six_elements)
  have k1: "known_bits (event_positions js) = 0xC0F"
    by (simp add: event_positions_def js)
  have k2: "known_bits (swapped (event_positions js)) = EPOLLIN C OR EPOLLOUT C OR EPOLLHUP C OR EPOLLRDHUP C OR EPOLLET C OR EPOLLONESHOT C"
    using assms by (simp add: masks_at_def epoll_masks_def swapped_def event_positions_def js)
  have ss: "swapped (swapped ps) = ps" for ps by (simp add: swapped_def split_def o_def)
  have d: "ev_data (epoll_event_to_event C eev) = ee_data eev" "ee_data (event_to_epoll_event C ev) = ev_data ev" for eev ev
    by (simp_all add: epoll_event_to_event_def event_to_epoll_event_def Let_def)
  have "ev_events (epoll_event_to_event C (event_to_epoll_event C ev)) = ev_events ev AND 0xC0F"
    using flag_coding.round_trip [OF co] fl k1 by simp
  moreover have "ee_events (event_to_epoll_event C (epoll_event_to_event C eev))
      = ee_events eev AND (EPOLLIN C OR EPOLLOUT C OR EPOLLHUP C OR EPOLLRDHUP C OR EPOLLET C OR EPOLLONESHOT C)"
    using flag_coding.round_trip [OF flag_coding.swapped_coding [OF co]] fl k2 ss by simp
  ultimately show ?thesis
    using d by (intro conjI event.equality epoll_event.equality) simp_all
qed

text \<open>
  Failures of epoll, with the default log in use: \<open>event_ctl\<close> returns the kernel's result, and prints exactly one line to the standard error
  stream if that is \<open>-1\<close>. \<open>event_wait\<close> does so too, but keeps silent when it was interrupted, and leaves the caller's array alone.
\<close>

theorem event_epoll_failure:
  assumes "epoll_ctl efd (epoll_cmd C ctl) fd (event_to_epoll_event C ev) k = (ret, k1)" "default_log_ready (sy_dbg k1)"
    "0 < maxevents" "epoll_wait efd maxevents timeout k = (-1, eevs, k2)" "default_log_ready (sy_dbg k2)"
  shows "event_ctl_epoll C epoll_ctl msg efd ctl fd ev k = Some (ret, if ret = -1 then error_logged (msg (sy_errno k1)) k1 else k1)
     \<and> event_wait_epoll C epoll_wait msg efd events maxevents timeout k
       = Some (-1, events, if sy_errno k2 = EINTR C then k2 else error_logged (msg (sy_errno k2)) k2)"
  using assms LOG_ERR_prints [OF assms(2), of msg] LOG_ERR_prints [OF assms(5), of msg]
  by (simp add: event_ctl_epoll_def event_wait_epoll_def)

text \<open>
  \<open>event_wait\<close> over epoll hands every event delivered to the caller, translated and in order, and leaves the rest of
  the caller's array alone.
\<close>

theorem event_wait_epoll_correct:
  assumes "0 < maxevents" "epoll_wait efd maxevents timeout k = (ret, eevs, k')" "ret \<noteq> -1"
    "ret \<le> int (length eevs)" "ret \<le> int (length events)"
  shows "event_wait_epoll C epoll_wait msg efd events maxevents timeout k
     = Some (ret, map (\<lambda>e. Some (epoll_event_to_event C e)) (take (nat ret) eevs) @ drop (nat ret) events, k')"
proof (cases "0 < ret")
  case True
  then have "nat ret \<le> length eevs" "nat ret \<le> length events" using assms(4,5) by auto
  from fill_epoll [OF this] True assms(1-3) show ?thesis by (simp add: event_wait_epoll_def)
next
  case False
  then show ?thesis using assms(1-3) by (simp add: event_wait_epoll_def)
qed

lemma kqueue_timeout_ok:
  "\<exists>ts. kqueue_timeout timeout = Some (if timeout = -1 then None else Some ts) \<and> ts_normal ts \<and> ts_nsecs ts = sint timeout * 1000000"
proof -
  have b: "in_long (sint timeout * 1000000)" "ts_fits (0 + sint timeout * 1000000)"
    using in_int_sint [of timeout] by (simp_all add: in_int_def in_long_def ts_fits_def NSEC_PER_SEC_def)
  obtain x :: s64 where x: "fit (sint timeout * 1000000) = Some x" "sint x = sint timeout * 1000000" using fit_long [OF b(1)] by blast
  have "ts_normal \<lparr>tv_sec = 0, tv_nsec = 0\<rparr>" "ts_nsecs \<lparr>tv_sec = 0, tv_nsec = 0\<rparr> = 0" by (simp_all add: ts_normal_def ts_nsecs_def NSEC_PER_SEC_def)
  then show ?thesis using timespec_add_nsec_ok [of "\<lparr>tv_sec = 0, tv_nsec = 0\<rparr>" x] x b(2) by (auto simp: kqueue_timeout_def)
qed

text \<open>
  C39: \<open>event_wait\<close> over kqueue. The kernel is asked to wait for exactly the given number of milliseconds, and for \<open>-1\<close>, with a null pointer, forever. If no error event
  is delivered all events are handed to the caller, translated and in order; otherwise the result is \<open>-1\<close>, the error number is that of the first error
  event, cut to an \<^verbatim>\<open>int\<close>, and exactly the events before it have been written to the caller's array.
\<close>

theorem event_wait_kqueue_correct:
  assumes "0 < maxevents"
  shows "\<exists>ts_ptr. (if timeout = -1 then ts_ptr = None else \<exists>ts. ts_ptr = Some ts \<and> ts_normal ts \<and> ts_nsecs ts = sint timeout * 1000000)
     \<and> (\<forall>ret kevs k'. kevent efd [] maxevents ts_ptr k = (ret, kevs, k') \<and> 0 < ret \<and> ret \<le> int (length kevs) \<and> ret \<le> int (length events) \<longrightarrow>
          event_wait_kqueue C kevent msg efd events maxevents timeout k
          = (let good = takeWhile (\<lambda>e. ke_flags e AND EV_ERROR C = 0) (take (nat ret) kevs);
                 events' = map (\<lambda>e. Some (kevent_to_event C e)) good @ drop (length good) events
             in case find (\<lambda>e. ke_flags e AND EV_ERROR C \<noteq> 0) (take (nat ret) kevs) of
                  None \<Rightarrow> Some (ret, events', k')
                | Some e \<Rightarrow> Some (-1, events', k'\<lparr>sy_errno := sint (ucast (ke_data e) :: s32)\<rparr>)))"
proof -
  obtain ts where ts: "kqueue_timeout timeout = Some (if timeout = -1 then None else Some ts)" "ts_normal ts" "ts_nsecs ts = sint timeout * 1000000"
    using kqueue_timeout_ok by blast
  define p where "p = (if timeout = -1 then None else Some ts)"
  have "event_wait_kqueue C kevent msg efd events maxevents timeout k
          = (let good = takeWhile (\<lambda>e. ke_flags e AND EV_ERROR C = 0) (take (nat ret) kevs);
                 events' = map (\<lambda>e. Some (kevent_to_event C e)) good @ drop (length good) events
             in case find (\<lambda>e. ke_flags e AND EV_ERROR C \<noteq> 0) (take (nat ret) kevs) of
                  None \<Rightarrow> Some (ret, events', k')
                | Some e \<Rightarrow> Some (-1, events', k'\<lparr>sy_errno := sint (ucast (ke_data e) :: s32)\<rparr>))"
    if k: "kevent efd [] maxevents p k = (ret, kevs, k')" "0 < ret" "ret \<le> int (length kevs)" "ret \<le> int (length events)" for ret kevs k'
  proof -
    have l: "nat ret \<le> length kevs" "0 + length (take (nat ret) kevs) \<le> length events" using k(3,4) by auto
    show ?thesis
      using fill_kqueue [OF l(2), of C] assms k(1,2) l(1) ts(1)
      by (simp add: event_wait_kqueue_def kqueue_good_def kqueue_failed_def errno_code_def Let_def flip: p_def split: option.splits)
  qed
  moreover have "if timeout = -1 then p = None else \<exists>ts. p = Some ts \<and> ts_normal ts \<and> ts_nsecs ts = sint timeout * 1000000"
    using ts(2,3) by (simp add: p_def)
  ultimately show ?thesis by blast
qed

text \<open>
  \<open>event_ctl\<close> over kqueue asks for one change per direction named in the event, so \<open>EVENT_CTL_MOD\<close> cannot switch a direction off; and an
  event delivered carries the pointer of the caller, never the descriptor, since both share the union.
\<close>

theorem event_ctl_kqueue_changes:
  "map ke_filter (kevent_changes C ctl fd ev)
     = (if ev_events ev AND EVENT_IN \<noteq> 0 then [EVFILT_READ C] else []) @ (if ev_events ev AND EVENT_OUT \<noteq> 0 then [EVFILT_WRITE C] else [])
   \<and> kevent_changes C EVENT_CTL_MOD fd ev = kevent_changes C EVENT_CTL_ADD fd ev
   \<and> ev_data (kevent_to_event C kev) = ke_udata kev"
  by (auto simp: kevent_changes_def EV_SET_def kevent_flags_def kevent_to_event_def data_set_ptr_def Let_def)

subsection \<open>Examples\<close>

theorem event_epoll_roundtrip_witness:
  "epoll_event_to_event linux_epoll (event_to_epoll_event linux_epoll \<lparr>ev_events = 0xFFFF, ev_data = 7\<rparr>) = \<lparr>ev_events = 0xC0F, ev_data = 7\<rparr>"
  using event_epoll_roundtrip [OF linux_masks, of "\<lparr>ev_events = 0xFFFF, ev_data = 7\<rparr>"] by simp

definition example_kqueue :: kqueue_consts where
  "example_kqueue = \<lparr>EV_ADD = 0x1, EV_DELETE = 0x2, EV_ONESHOT = 0x10, EV_EOF = 0x8000, EV_ERROR = 0x4000, EVFILT_READ = -1, EVFILT_WRITE = -2\<rparr>"

definition example_kevents :: "kevent list" where
  "example_kevents =
     [\<lparr>ke_ident = 3, ke_filter = -1, ke_flags = 0, ke_fflags = 0, ke_data = 0, ke_udata = 42\<rparr>,
      \<lparr>ke_ident = 4, ke_filter = -2, ke_flags = 0x4000, ke_fflags = 0, ke_data = 9, ke_udata = 43\<rparr>]"

definition example_sys :: "unit sys" where
  "example_sys = \<lparr>sy_errno = 0, sy_dbg = example_dbg, sy_kernel = ()\<rparr>"

text \<open>A kernel that answers only calls without a time limit.\<close>

theorem event_wait_kqueue_correct_witness:
  "event_wait_kqueue example_kqueue (\<lambda>efd ch n t k. if t = None then (2, example_kevents, k) else (0, [], k)) (\<lambda>e. ''kevent'') 5 [None, None] 2 (-1) example_sys
     = Some (-1, [Some \<lparr>ev_events = 1, ev_data = 42\<rparr>, None], example_sys\<lparr>sy_errno := 9\<rparr>)"
proof -
  have "kevent_to_event example_kqueue (hd example_kevents) = \<lparr>ev_events = 1, ev_data = 42\<rparr>"
    by (simp add: kevent_to_event_def example_kqueue_def example_kevents_def EVENT_IN_def data_set_ptr_def)
  then show ?thesis
    using event_wait_kqueue_correct [of 2 "-1" "\<lambda>efd ch n t k. if t = None then (2, example_kevents, k) else (0, [], k)" 5 example_sys "[None, None]"
        example_kqueue "\<lambda>e. ''kevent''"]
    by (simp add: example_kevents_def example_kqueue_def)
qed

theorem event_epoll_failure_witness:
  "map_option (\<lambda>(ret, k). (ret, io_out (ds_io (sy_dbg k))))
     (event_ctl_epoll linux_epoll (\<lambda>efd cmd fd eev k. (-1, k\<lparr>sy_errno := 17\<rparr>)) (\<lambda>e. ''epoll_ctl'') 3 EVENT_CTL_ADD 4 \<lparr>ev_events = 1, ev_data = 4\<rparr> example_sys)
     = Some (-1, [(STDERR, ''epoll_ctl'')])
   \<and> event_wait_epoll linux_epoll (\<lambda>efd n t k. (-1, [], k\<lparr>sy_errno := 4\<rparr>)) (\<lambda>e. ''epoll_wait'') 3 [None] 1 0 example_sys
     = Some (-1, [None], example_sys\<lparr>sy_errno := 4\<rparr>)"
proof -
  have r: "default_log_ready (sy_dbg (example_sys\<lparr>sy_errno := e\<rparr>))" for e
    by (simp add: default_log_ready_def example_sys_def example_dbg_facts) (simp add: example_dbg_def)
  show ?thesis
    using event_epoll_failure [of "\<lambda>efd cmd fd eev k. (-1, k\<lparr>sy_errno := 17\<rparr>)" 3 linux_epoll EVENT_CTL_ADD 4 "\<lparr>ev_events = 1, ev_data = 4\<rparr>" example_sys
        "-1" "example_sys\<lparr>sy_errno := 17\<rparr>" 1 "\<lambda>efd n t k. (-1, [], k\<lparr>sy_errno := 4\<rparr>)" 0 "[]" "example_sys\<lparr>sy_errno := 4\<rparr>" "\<lambda>e. ''epoll_ctl''" "[None]"]
      event_epoll_failure [of "\<lambda>efd cmd fd eev k. (-1, k\<lparr>sy_errno := 17\<rparr>)" 3 linux_epoll EVENT_CTL_ADD 4 "\<lparr>ev_events = 1, ev_data = 4\<rparr>" example_sys
        "-1" "example_sys\<lparr>sy_errno := 17\<rparr>" 1 "\<lambda>efd n t k. (-1, [], k\<lparr>sy_errno := 4\<rparr>)" 0 "[]" "example_sys\<lparr>sy_errno := 4\<rparr>" "\<lambda>e. ''epoll_wait''" "[None]"]
      r example_dbg_facts(4)
    by (simp add: error_logged_def example_sys_def linux_epoll_def)
qed

end
