(* ===== verification/Ckit_Logged.thy ===== *)
theory Ckit_Logged
  imports Ckit_Hashtable Ckit_Timer Ckit_Debug
begin

text \<open>
  The error messages of \<^verbatim>\<open>src/hashtable.c\<close> and \<^verbatim>\<open>src/timer.c\<close>. The models of the hash table and of the timers leave out the debug log. Here the three functions that print a message
  have the state of the log as a further argument and result. With a log that can be written to they do what the models without the log do, and print their message exactly when they
  report the error; once the log is closed, the error path dereferences the null pointer \<^verbatim>\<open>dbg_log\<close>.
\<close>

section \<open>Definitions\<close>

text \<open>\<open>msg\<close> is the line printed, with the time, the level and the name of the function.\<close>

definition hashtable_hash_log ::
  "string \<Rightarrow> 'k hashtable \<Rightarrow> addr \<Rightarrow> 'k \<Rightarrow> dbg_state \<Rightarrow> (int \<times> 'k hashtable \<times> dbg_state) option" where
  "hashtable_hash_log msg h he key d = do {
     empty \<leftarrow> list_empty (ht_nodes h) he;
     if \<not> empty then do {
       (_, d) \<leftarrow> LOG_at LOG_LVL_ERR msg d;
       Some (-1, h, d)
     } else do {
       (ret, h) \<leftarrow> hashtable_hash h he key;
       Some (ret, h, d)
     }
   }"

definition gettime_log :: "string \<Rightarrow> timespec option \<Rightarrow> timespec option \<Rightarrow> dbg_state \<Rightarrow> (int \<times> timespec option \<times> dbg_state) option" where
  "gettime_log msg now ts d = (case now of
       None \<Rightarrow> do { (_, d) \<leftarrow> LOG_at LOG_LVL_ERR msg d; Some (-1, ts, d) }
     | Some t \<Rightarrow> Some (0, Some t, d))"

definition timer_queue_init_log ::
  "string \<Rightarrow> (int \<times> int) option \<Rightarrow> bool \<Rightarrow> nat \<Rightarrow> bool \<Rightarrow> nat \<Rightarrow> dbg_state \<Rightarrow> (int \<times> timer_queue \<times> dbg_state) option" where
  "timer_queue_init_log msg fds fok cap ok self d = do {
     let (ret, s) = signal_init fds fok cap (Some zero_signal);
     d \<leftarrow> (if ret = -1 then do { (_, d) \<leftarrow> LOG_at LOG_LVL_ERR msg d; Some d } else Some d);
     Some (ret, \<lparr>tq_queue = snd (heap_init ok 0 heap_cmp), tq_lock = False, tq_signal = the s, tq_thr = self\<rparr>, d)
   }"

section \<open>Properties\<close>

text \<open>
  The messages. With the default log in use, hashing, reading the clock and setting up a timer queue have the results of the models without a log; an error message goes to the
  standard error stream exactly if the element is hashed already, the clock cannot be read or the signal cannot be set up. After the log was closed the same errors are null pointer
  dereferences.
\<close>

theorem errors_logged:
  assumes "default_log_ready d" "ds_dbg_log c = NULL"
  shows "hashtable_hash_log msg h he key d = map_option (\<lambda>(ret, h'). (ret, h', if hashelm_hashed h he = Some True then noted msg d else d)) (hashtable_hash h he key)
     \<and> (hashelm_hashed h he = Some True \<longrightarrow> hashtable_hash_log msg h he key c = None)
     \<and> gettime_log msg now ts d = (let (ret, ts') = gettime now ts in Some (ret, ts', if ret = -1 then noted msg d else d))
     \<and> gettime_log msg None ts c = None
     \<and> timer_queue_init_log msg fds fok cap ok self d
          = (let (ret, tq) = timer_queue_init fds fok cap ok self in Some (ret, tq, if ret = -1 then noted msg d else d))
     \<and> (fst (timer_queue_init fds fok cap ok self) = -1 \<longrightarrow> timer_queue_init_log msg fds fok cap ok self c = None)"
proof (intro conjI impI)
  note l = log_error [OF assms(1)] and c = log_closed [OF assms(2)]
  show "hashtable_hash_log msg h he key d = map_option (\<lambda>(ret, h'). (ret, h', if hashelm_hashed h he = Some True then noted msg d else d)) (hashtable_hash h he key)"
  proof (cases "list_empty (ht_nodes h) he")
    case (Some e)
    then show ?thesis
      using l by (cases e; cases "hashtable_hash h he key") (auto simp: hashtable_hash_log_def hashelm_hashed_def hashtable_hash_def)
  qed (simp add: hashtable_hash_log_def hashtable_hash_def)
  show "hashtable_hash_log msg h he key c = None" if "hashelm_hashed h he = Some True"
    using that c by (auto simp: hashtable_hash_log_def hashelm_hashed_def)
  show "gettime_log msg now ts d = (let (ret, ts') = gettime now ts in Some (ret, ts', if ret = -1 then noted msg d else d))"
    using l by (auto simp: gettime_log_def gettime_def split: option.splits)
  show "gettime_log msg None ts c = None" using c by (simp add: gettime_log_def)
  show "timer_queue_init_log msg fds fok cap ok self d
      = (let (ret, tq) = timer_queue_init fds fok cap ok self in Some (ret, tq, if ret = -1 then noted msg d else d))"
    using l by (simp add: timer_queue_init_log_def timer_queue_init_def Let_def split: prod.splits)
  show "timer_queue_init_log msg fds fok cap ok self c = None" if "fst (timer_queue_init fds fok cap ok self) = -1"
    using that c by (simp add: timer_queue_init_log_def timer_queue_init_def Let_def split: prod.splits)
qed

theorem errors_logged_witness:
  "map_option (\<lambda>(ret, h, d). (ret, io_out (ds_io d))) (hashtable_hash_log ''hashed'' example_table 100 4 example_dbg) = Some (-1, [(STDERR, ''hashed'')])
   \<and> hashtable_hash_log ''hashed'' example_table 100 4 (example_dbg\<lparr>ds_dbg_log := NULL\<rparr>) = None"
proof -
  have r: "default_log_ready example_dbg" using example_dbg_facts by (simp add: default_log_ready_def) (simp add: example_dbg_def)
  have h: "hashelm_hashed example_table 100 = Some True" by (rule member_hashed [OF example_table_wf]) simp
  have "list_empty (ht_nodes example_table) 100 = Some False" using h by (auto simp: hashelm_hashed_def)
  then have "hashtable_hash example_table 100 4 = Some (-1, example_table)" by (simp add: hashtable_hash_def)
  then show ?thesis
    using errors_logged [OF r, of "example_dbg\<lparr>ds_dbg_log := NULL\<rparr>" "''hashed''" example_table 100 4] h example_dbg_facts(4) by (simp add: noted_def)
qed

end
