(* ===== verification/Spec2Isabelle.thy ===== *)
theory Spec2Isabelle
  imports Ckit_Hash Ckit_Timer Ckit_Pbuf Ckit_Pbufview Ckit_Hashtable Ckit_Clients Ckit_Race Ckit_Entry Ckit_Rbtree Ckit_Rbcolor Ckit_Rbrotate Ckit_Event Ckit_Debug Ckit_Logged
begin

text \<open>
  A verification development for libckit, a C library of data structures and utilities for event-driven
  programs (\<^verbatim>\<open>src/src\<close> and \<^verbatim>\<open>src/include/ckit\<close>).

  \<^bold>\<open>The program.\<close> The library has a layer of plain helpers (intrusive doubly linked lists, arithmetic on times, atomic
  counters, byte hashes, log files and a debug log), containers built on them (a binary heap of items that know their position, a hash table of
  reference-counted elements, a pool of packet buffers, a search tree with the rotations of a red-black tree), one
  interface to the event queues of two kernels (epoll and kqueue), and two services for threads: a signal, which is a pipe that one side writes to and the other polls, and timers, a queue of
  deadlines in a heap with a mutex and a signal that wakes the thread which waits for the next deadline.

  \<^bold>\<open>The model.\<close> Each theory models one part, with the names of the C sources. A struct is a record, an enum
  a datatype, an \<^verbatim>\<open>unsigned int\<close> a 32-bit word and an \<^verbatim>\<open>unsigned long\<close> or \<^verbatim>\<open>size_t\<close> a 64-bit word; these wrap around.
  A \<^verbatim>\<open>long\<close>, a \<^verbatim>\<open>time_t\<close> and an \<^verbatim>\<open>int\<close> that is calculated with are words too, read as signed numbers; the exact result of an operation on
  them must fit (\<open>fit\<close> of \<open>Ckit_Prelude\<close>), otherwise it is a signed overflow and there is no result.
  Code that works on shared objects gets the objects of a type as a memory, a partial function of addresses, and returns the new
  memory. The result is an option: \<open>None\<close> stands for a run the C standard gives no meaning to (a null or dangling pointer, an
  access outside of an array, an indeterminate value, a signed overflow) and for a run that does not end. A failed assertion of \<^verbatim>\<open>pbuf.c\<close> is
  an error value of its own. Loops are recursive functions, \<^verbatim>\<open>partial_function (option)\<close> where they need not end; there is no fuel.
  What the environment decides is an argument: the result of \<^verbatim>\<open>malloc\<close>, of the clock, of \<^verbatim>\<open>pipe\<close> and \<^verbatim>\<open>fcntl\<close>,
  the events that end a \<^verbatim>\<open>poll\<close>, the calling thread, the callbacks, the constants and the calls of the kernel.

  \<^item> \<open>Ckit_Prelude\<close>: words, signed arithmetic that checks for overflow, memories with faulting loads and stores, arrays of possibly unset cells, shared lemmas.
  \<^item> \<open>Ckit_List\<close> (\<^verbatim>\<open>list.h\<close>): the list operations on a memory of nodes. A family of circular lists that do not overlap
    is kept by every operation; the traversals visit the elements once and in order. The locale of list operations is the
    interface for the hash table and the buffer pool.
  \<^item> \<open>Ckit_Time\<close> (\<^verbatim>\<open>time.h\<close>): the macros are exact on normalised times as long as the seconds do not
    overflow, and agree with the order of the counts.
  \<^item> \<open>Ckit_Heap\<close> (\<^verbatim>\<open>heap.c\<close>): insertion, removal and sifting on 32-bit indices. The invariant is that the array and the
    recorded positions agree. Insertion keeps the order with the largest item first, sifting down the opposite one; the theorems
    state both, and what removal does to positions and order.
  \<^item> \<open>Ckit_Atomic\<close> (\<^verbatim>\<open>atomic.h\<close>): counters as single steps, and the contract of reference counting as a locale.
  \<^item> \<open>Ckit_Signal\<close> (\<^verbatim>\<open>signal.c\<close>): the signal over a model of the pipe. Raising and clearing, when a wait returns, and an
    inductive step relation for threads that call \<^verbatim>\<open>signal_raise_val\<close> as a whole or are interrupted between its test and its write.
  \<^item> \<open>Ckit_Timer\<close> (\<^verbatim>\<open>timer.c\<close>): timers over the heap, the times and the signal. A timer is found by the position that
    the heap recorded in it; the theorems say what happens when that position is right and when it is stale. A callback is a function on the queue, the timers and the rest of the program.
  \<^item> \<open>Ckit_Hash\<close> (\<^verbatim>\<open>hash.h\<close>): the byte hashes equal a polynomial modulo \<open>2\<^sup>6\<^sup>4\<close>.
  \<^item> \<open>Ckit_Pbuf\<close> (\<^verbatim>\<open>pbuf.c\<close>): the bounds of a buffer and the two lists of the pool.
  \<^item> \<open>Ckit_Pbufview\<close> (\<^verbatim>\<open>pbuf.c\<close>): a buffer as headroom, data and tailroom; the sequences of operations that this view allows refine moving bytes between the parts
    (locale \<open>packet_buffer\<close>), and it is stated which operations fail their assertions beyond it.
  \<^item> \<open>Ckit_Hashtable\<close> (\<^verbatim>\<open>hashtable.c\<close>): a table refines a map from keys to elements (locale \<open>keyed_table\<close>), with
    exact reference counts and locks that are free again after every operation.
  \<^item> \<open>Ckit_Clients\<close> (\<^verbatim>\<open>hashtable.c\<close>): an inductive step relation for threads that share a table, one operation per step and in any order.
    If each thread puts only references that it has, no operation faults and every element is freed once, when its last reference goes.
  \<^item> \<open>Ckit_Race\<close> (\<^verbatim>\<open>hashtable.c\<close>): the same with \<^verbatim>\<open>hashtable_hash\<close> and \<^verbatim>\<open>hashtable_unhash\<close> in two steps, up to the lock and from there on. It is still safe, and the second step does what
    the whole function does, if no two threads hash or unhash one element at a time; if two hash one element, the table breaks.
  \<^item> \<open>Ckit_Entry\<close> (\<^verbatim>\<open>ckit.h\<close> and the macros on it in \<^verbatim>\<open>list.h\<close>, \<^verbatim>\<open>heap.h\<close> and \<^verbatim>\<open>hashtable.h\<close>): from a member to its object on machine
    addresses, and the traversal of a list from object to object.
  \<^item> \<open>Ckit_Rbtree\<close> (\<^verbatim>\<open>rbtree.c\<close>): insertion into the search tree refines insertion into a functional tree, the threaded
    traversal prints the nodes in order and restores the tree, destroying a tree frees each block once.
  \<^item> \<open>Ckit_Rbcolor\<close> (\<^verbatim>\<open>rbtree.c\<close>): the insertions that only recolour refine recolouring of a functional tree and keep it a
    red-black tree.
  \<^item> \<open>Ckit_Rbrotate\<close> (\<^verbatim>\<open>rbtree.c\<close>): the insertions that rotate. Below a node on the same side as the parent the result is the rotated
    red-black tree, up to the parent pointers of moved subtrees; at the root the insertion faults, and on the other side it loses a subtree.
  \<^item> \<open>Ckit_Debug\<close> (\<^verbatim>\<open>log.c\<close>, \<^verbatim>\<open>debug.c\<close>): which stream a message goes to, flags, closing of the default log, and the hex dump,
    exact when its text fits and an overrun when it does not.
  \<^item> \<open>Ckit_Event\<close> (\<^verbatim>\<open>event_epoll.c\<close>, \<^verbatim>\<open>event_kqueue.c\<close>): the translation of flags as a locale, its round trip, the delivery of
    events to the caller's array and the reporting of errors through the debug log.
  \<^item> \<open>Ckit_Logged\<close> (\<^verbatim>\<open>hashtable.c\<close>, \<^verbatim>\<open>timer.c\<close>): the functions that print an error message together with the debug log. The message is printed exactly on the error;
    with the log closed the error path faults.

  \<^bold>\<open>Bounds.\<close> The theorems on the heap and the timers ask for fewer than \<open>2\<^sup>3\<^sup>1\<close> items, so that the 32-bit index
  computations do not wrap; those on reference counts ask for fewer than \<open>2\<^sup>3\<^sup>1\<close> references; a hash table has at most
  \<open>2\<^sup>3\<^sup>1 - 1\<close> slots, since its loop counter is a signed 32-bit integer, and a traversal counts fewer than \<open>2\<^sup>3\<^sup>1\<close> elements. Times and delays are bounded by
  the range of a \<^verbatim>\<open>long\<close>; the theorems say so where it matters, and that there is no result beyond.

  \<^bold>\<open>Not modelled.\<close> An operation is one step of its thread, except for the raising of a signal, whose check and write are separate
  steps, and \<^verbatim>\<open>hashtable_hash\<close> and \<^verbatim>\<open>hashtable_unhash\<close>, which can be interrupted before they take the lock; the locks are states that an operation needs to find free. What runs under one lock
  is not interleaved with other threads, and the memory model of the machine is not considered. The build files and the Android glue carry no logic; the Android branch of \<^verbatim>\<open>debug.c\<close> hands the message to the system.
  The debug log is part of the models of \<open>Ckit_Event\<close>, \<open>Ckit_Debug\<close> and \<open>Ckit_Logged\<close> only; the callers of the three functions of \<open>Ckit_Logged\<close> are modelled without the message.
  Messages that exist only in debug builds are left out, except for those that \<^verbatim>\<open>rb_tree_print_in_order\<close> is there for.
  The text that \<^verbatim>\<open>vfprintf\<close> makes of a format and its arguments is an argument.
  Outside of \<open>Ckit_Entry\<close> an embedded list node or heap item is known by the address of the object around it. Macros that do not compile
  (\<^verbatim>\<open>timer_new\<close>, \<^verbatim>\<open>TIMER\<close>, \<^verbatim>\<open>TIMER_CALLBACK\<close>, \<^verbatim>\<open>hashtable_lookup_entry\<close>) have no model.
\<close>

end
